(* ===== verification/Prelude.thy ===== *)
theory Prelude
  imports Main "HOL-Library.Word"
begin

text \<open>
  Shared vocabulary of the development: the C integer types of the RV32 target as words, the
  arithmetic of \<open>size_t\<close> and \<open>TickType_t\<close> quantities that the models keep as natural numbers
  (with the wrap-around modulo \<open>2 ^ 32\<close> written out), the error values shared by the
  components, and the generic lemmas on lists and wrap-around arithmetic that the component
  theories use. The collections \<open>u32_simps\<close> (wrap-around arithmetic below the limit) and
  \<open>link_simps\<close> (pointer-structure unfolding) are extended by the component theories.
\<close>

unbundle bit_operations_syntax

named_theorems u32_simps "32-bit arithmetic on naturals that does not wrap"
named_theorems link_simps "unfolding of linked structures in a store"

section \<open>C integer types of the target\<close>

type_synonym u8 = "8 word"
type_synonym u16 = "16 word"
type_synonym u32 = "32 word"

text \<open>\<open>portMAX_DELAY\<close> of \<open>portmacro.h\<close> for \<open>__riscv_xlen == 32\<close>.\<close>

definition portMAX_DELAY :: u32 where
  "portMAX_DELAY = 0xffffffff"

lemma portMAX_DELAY_max [simp]: "v \<le> portMAX_DELAY"
proof -
  have "portMAX_DELAY = - 1" by (simp add: portMAX_DELAY_def)
  then show ?thesis by (metis word_n1_ge)
qed

lemma portMAX_DELAY_less [simp]: "\<not> portMAX_DELAY < v"
  by (simp add: not_less)

lemma portMAX_DELAY_le_iff [simp]: "portMAX_DELAY \<le> v \<longleftrightarrow> v = portMAX_DELAY"
  by (auto intro: antisym)

section \<open>Unsigned 32-bit arithmetic on natural numbers\<close>

text \<open>
  Where a component reasons about many sizes and addresses, the model keeps a \<open>size_t\<close> as a
  natural number below \<open>2 ^ 32\<close> and writes the wrap-around of C's unsigned arithmetic out.
\<close>

definition u32_add :: "nat \<Rightarrow> nat \<Rightarrow> nat" where
  "u32_add a b = (a + b) mod 2 ^ 32"

definition u32_sub :: "nat \<Rightarrow> nat \<Rightarrow> nat" where
  "u32_sub a b = (a + (2 ^ 32 - b mod 2 ^ 32)) mod 2 ^ 32"

lemma u32_add_small [u32_simps]: "a + b < 2 ^ 32 \<Longrightarrow> u32_add a b = a + b"
  by (simp add: u32_add_def)

lemma u32_sub_small [u32_simps]:
  assumes "b \<le> a" and "a < 2 ^ 32"
  shows "u32_sub a b = a - b"
proof -
  have "b mod 2 ^ 32 = b" and split: "a + (2 ^ 32 - b) = 2 ^ 32 + (a - b)"
    using assms by simp_all
  then have "u32_sub a b = (2 ^ 32 + (a - b)) mod 2 ^ 32"
    by (simp only: u32_sub_def split)
  then show ?thesis using assms by (simp only: mod_add_self1) simp
qed

lemma u32_add_bound [simp]: "u32_add a b < 2 ^ 32"
  by (simp add: u32_add_def)

lemma u32_sub_bound [simp]: "u32_sub a b < 2 ^ 32"
  by (simp add: u32_sub_def)

section \<open>Lists\<close>

lemma split_list_first_in:
  assumes "x \<in> set xs"
  obtains ys zs where "xs = ys @ x # zs" and "x \<notin> set ys"
  using assms split_list_first by metis

lemma takeWhile_dropWhile_all:
  assumes "\<And>x. x \<in> set xs \<Longrightarrow> P x"
  shows "takeWhile P xs = xs" and "dropWhile P xs = []"
  using assms by (simp_all add: takeWhile_eq_all_conv dropWhile_eq_Nil_conv)

lemma remove1_middle: "x \<notin> set as \<Longrightarrow> remove1 x (as @ x # bs) = as @ bs"
  by (simp add: remove1_append)

end
