(* ===== verification/Kernel_List.thy ===== *)
theory Kernel_List
  imports Prelude
begin

text \<open>
  \<open>FreeRTOS/list.c\<close> and the list macros of \<open>FreeRTOS/include/list.h\<close>: the doubly linked circular
  lists on which the scheduler, the queues and the timers rest. The store keeps one function per
  structure field; a pointer is the address of a \<open>ListItem_t\<close> or of the end marker embedded in a
  \<open>List_t\<close>; the types of list and item addresses are parameters. The operations are the pointer manipulations of the source. The relation
  \<open>list_rep\<close> says that a list structure holds a given sequence of items, and the lemmas show that
  every operation implements the operation on sequences that the kernel relies on.
\<close>

section \<open>The structures and their store\<close>

text \<open>A \<open>ListItem_t *\<close>: an item, or the address of the \<open>xListEnd\<close> member of a list.\<close>

datatype ('l, 'i) item_ptr = ListEnd 'l | Item 'i

record ('l, 'i) list_store =
  xItemValue :: "('l, 'i) item_ptr \<Rightarrow> u32"
  pxNext :: "('l, 'i) item_ptr \<Rightarrow> ('l, 'i) item_ptr"
  pxPrevious :: "('l, 'i) item_ptr \<Rightarrow> ('l, 'i) item_ptr"
  pvOwner :: "'i \<Rightarrow> nat"
  pxContainer :: "'i \<Rightarrow> 'l option"
  uxNumberOfItems :: "'l \<Rightarrow> u32"
  pxIndex :: "'l \<Rightarrow> ('l, 'i) item_ptr"

section \<open>The operations of list.c\<close>

definition vListInitialise :: "'l \<Rightarrow> ('l, 'i) list_store \<Rightarrow> ('l, 'i) list_store" where
  "vListInitialise l s = s\<lparr>
     pxIndex := (pxIndex s)(l := ListEnd l),
     xItemValue := (xItemValue s)(ListEnd l := portMAX_DELAY),
     pxNext := (pxNext s)(ListEnd l := ListEnd l),
     pxPrevious := (pxPrevious s)(ListEnd l := ListEnd l),
     uxNumberOfItems := (uxNumberOfItems s)(l := 0)\<rparr>"

definition vListInitialiseItem :: "'i \<Rightarrow> ('l, 'i) list_store \<Rightarrow> ('l, 'i) list_store" where
  "vListInitialiseItem i s = s\<lparr>pxContainer := (pxContainer s)(i := None)\<rparr>"

definition vListInsertEnd :: "'l \<Rightarrow> 'i \<Rightarrow> ('l, 'i) list_store \<Rightarrow> ('l, 'i) list_store" where
  "vListInsertEnd l i s =
     (let idx = pxIndex s l;
          s1 = s\<lparr>pxNext := (pxNext s)(Item i := idx)\<rparr>;
          s2 = s1\<lparr>pxPrevious := (pxPrevious s1)(Item i := pxPrevious s1 idx)\<rparr>;
          s3 = s2\<lparr>pxNext := (pxNext s2)(pxPrevious s2 idx := Item i)\<rparr>;
          s4 = s3\<lparr>pxPrevious := (pxPrevious s3)(idx := Item i)\<rparr>;
          s5 = s4\<lparr>pxContainer := (pxContainer s4)(i := Some l)\<rparr>
      in s5\<lparr>uxNumberOfItems := (uxNumberOfItems s5)(l := uxNumberOfItems s5 l + 1)\<rparr>)"

text \<open>
  The search loop of \<open>vListInsert\<close>. It has no bound of its own in the source (a corrupted list
  makes it spin), so it is a partial function: \<open>None\<close> means that the loop does not end.
\<close>

partial_function (option) insert_position :: "('l, 'i) list_store \<Rightarrow> u32 \<Rightarrow> ('l, 'i) item_ptr \<Rightarrow> ('l, 'i) item_ptr option" where
  "insert_position s v it =
     (if xItemValue s (pxNext s it) \<le> v then insert_position s v (pxNext s it) else Some it)"

definition vListInsert :: "'l \<Rightarrow> 'i \<Rightarrow> ('l, 'i) list_store \<Rightarrow> ('l, 'i) list_store option" where
  "vListInsert l i s =
     (let v = xItemValue s (Item i);
          pos = (if v = portMAX_DELAY then Some (pxPrevious s (ListEnd l))
                 else insert_position s v (ListEnd l))
      in map_option (\<lambda>it.
           let s1 = s\<lparr>pxNext := (pxNext s)(Item i := pxNext s it)\<rparr>;
               s2 = s1\<lparr>pxPrevious := (pxPrevious s1)(pxNext s1 (Item i) := Item i)\<rparr>;
               s3 = s2\<lparr>pxPrevious := (pxPrevious s2)(Item i := it)\<rparr>;
               s4 = s3\<lparr>pxNext := (pxNext s3)(it := Item i)\<rparr>;
               s5 = s4\<lparr>pxContainer := (pxContainer s4)(i := Some l)\<rparr>
           in s5\<lparr>uxNumberOfItems := (uxNumberOfItems s5)(l := uxNumberOfItems s5 l + 1)\<rparr>) pos)"

text \<open>
  \<open>uxListRemove\<close> reads the list from the item; an item on no list would make the source
  dereference a null \<open>pxList\<close>, which is \<open>None\<close> here.
\<close>

definition uxListRemove :: "'i \<Rightarrow> ('l, 'i) list_store \<Rightarrow> (u32 \<times> ('l, 'i) list_store) option" where
  "uxListRemove i s =
     (case pxContainer s i of
        None \<Rightarrow> None
      | Some l \<Rightarrow>
          (let s1 = s\<lparr>pxPrevious := (pxPrevious s)(pxNext s (Item i) := pxPrevious s (Item i))\<rparr>;
               s2 = s1\<lparr>pxNext := (pxNext s1)(pxPrevious s1 (Item i) := pxNext s1 (Item i))\<rparr>;
               s3 = (if pxIndex s2 l = Item i
                     then s2\<lparr>pxIndex := (pxIndex s2)(l := pxPrevious s2 (Item i))\<rparr> else s2);
               s4 = s3\<lparr>pxContainer := (pxContainer s3)(i := None)\<rparr>;
               s5 = s4\<lparr>uxNumberOfItems := (uxNumberOfItems s4)(l := uxNumberOfItems s4 l - 1)\<rparr>
           in Some (uxNumberOfItems s5 l, s5)))"

text \<open>
  The macro \<open>listGET_OWNER_OF_NEXT_ENTRY\<close>: advance the walk index, skipping the end marker, and
  return the owner of the item reached. On an empty list the index comes to rest on the end marker,
  which has no owner field.
\<close>

definition listGET_OWNER_OF_NEXT_ENTRY :: "'l \<Rightarrow> ('l, 'i) list_store \<Rightarrow> (nat \<times> ('l, 'i) list_store) option" where
  "listGET_OWNER_OF_NEXT_ENTRY l s =
     (let s1 = s\<lparr>pxIndex := (pxIndex s)(l := pxNext s (pxIndex s l))\<rparr>;
          s2 = (if pxIndex s1 l = ListEnd l
                then s1\<lparr>pxIndex := (pxIndex s1)(l := pxNext s1 (pxIndex s1 l))\<rparr> else s1)
      in case pxIndex s2 l of
           Item i \<Rightarrow> Some (pvOwner s2 i, s2)
         | ListEnd _ \<Rightarrow> None)"

definition listGET_ITEM_VALUE_OF_HEAD_ENTRY :: "'l \<Rightarrow> ('l, 'i) list_store \<Rightarrow> u32" where
  "listGET_ITEM_VALUE_OF_HEAD_ENTRY l s = xItemValue s (pxNext s (ListEnd l))"

definition listLIST_IS_EMPTY :: "'l \<Rightarrow> ('l, 'i) list_store \<Rightarrow> bool" where
  "listLIST_IS_EMPTY l s \<longleftrightarrow> uxNumberOfItems s l = 0"

definition listGET_OWNER_OF_HEAD_ENTRY :: "'l \<Rightarrow> ('l, 'i) list_store \<Rightarrow> nat option" where
  "listGET_OWNER_OF_HEAD_ENTRY l s =
     (case pxNext s (ListEnd l) of Item i \<Rightarrow> Some (pvOwner s i) | ListEnd _ \<Rightarrow> None)"

section \<open>Segments\<close>

text \<open>
  \<open>seg s p xs q\<close>: following \<open>pxNext\<close> from \<open>p\<close> visits exactly the items \<open>xs\<close> and then \<open>q\<close>, and the
  \<open>pxPrevious\<close> pointers lead back.
\<close>

fun seg :: "('l, 'i) list_store \<Rightarrow> ('l, 'i) item_ptr \<Rightarrow> 'i list \<Rightarrow> ('l, 'i) item_ptr \<Rightarrow> bool" where
  "seg s p [] q \<longleftrightarrow> pxNext s p = q \<and> pxPrevious s q = p"
| "seg s p (x # xs) q \<longleftrightarrow> pxNext s p = Item x \<and> pxPrevious s (Item x) = p \<and> seg s (Item x) xs q"

lemma seg_append [link_simps]:
  "seg s p (xs @ y # ys) q \<longleftrightarrow> seg s p xs (Item y) \<and> seg s (Item y) ys q"
  by (induction xs arbitrary: p) auto

lemma seg_cong:
  assumes "\<And>n. n = p \<or> n \<in> Item ` set xs \<Longrightarrow> pxNext s' n = pxNext s n"
    and "\<And>n. n = q \<or> n \<in> Item ` set xs \<Longrightarrow> pxPrevious s' n = pxPrevious s n"
  shows "seg s' p xs q = seg s p xs q"
  using assms by (induction xs arbitrary: p) auto

text \<open>The node before \<open>q\<close> and the node after \<open>p\<close>.\<close>

definition seg_last :: "('l, 'i) item_ptr \<Rightarrow> 'i list \<Rightarrow> ('l, 'i) item_ptr" where
  "seg_last p xs = (if xs = [] then p else Item (last xs))"

definition seg_first :: "'i list \<Rightarrow> ('l, 'i) item_ptr \<Rightarrow> ('l, 'i) item_ptr" where
  "seg_first xs q = (if xs = [] then q else Item (hd xs))"

lemma seg_prev: "seg s p xs q \<Longrightarrow> pxPrevious s q = seg_last p xs"
  by (induction xs arbitrary: p) (auto simp: seg_last_def)

lemma seg_next: "seg s p xs q \<Longrightarrow> pxNext s p = seg_first xs q"
  by (cases xs) (auto simp: seg_first_def)

lemma seg_next_last: "seg s p xs q \<Longrightarrow> pxNext s (seg_last p xs) = q"
  by (induction xs arbitrary: p) (auto simp: seg_last_def)

lemma seg_last_in: "seg_last p xs = p \<or> seg_last p xs \<in> Item ` set xs"
  by (simp add: seg_last_def)

lemma seg_first_in: "seg_first xs q = q \<or> seg_first xs q \<in> Item ` set xs"
  by (simp add: seg_first_def)

lemma seg_split:
  "seg s p (as @ bs) r \<Longrightarrow> seg s p as (seg_first bs r) \<and> seg s (seg_last p as) bs r"
proof (induction as arbitrary: p)
  case Nil
  then show ?case by (cases bs) (auto simp: seg_first_def seg_last_def)
next
  case (Cons a as)
  then show ?case by (auto simp: seg_last_def split: if_splits)
qed

lemma seg_join:
  "seg s p as (seg_first bs r) \<Longrightarrow> seg s (seg_last p as) bs r \<Longrightarrow> seg s p (as @ bs) r"
proof (induction as arbitrary: p)
  case Nil
  then show ?case by (simp add: seg_last_def)
next
  case (Cons a as)
  then show ?case by (auto simp: seg_last_def split: if_splits)
qed

text \<open>Redirecting the last link of a segment, and its first link.\<close>

lemma seg_new_end:
  assumes "seg s p as q" and "distinct as" and "p \<notin> Item ` set as"
    and "pxNext s' (seg_last p as) = q'" and "pxPrevious s' q' = seg_last p as"
    and "\<And>n. n = p \<or> n \<in> Item ` set as \<Longrightarrow> n \<noteq> seg_last p as \<Longrightarrow> pxNext s' n = pxNext s n"
    and "\<And>n. n \<in> Item ` set as \<Longrightarrow> pxPrevious s' n = pxPrevious s n"
  shows "seg s' p as q'"
  using assms
proof (induction as arbitrary: p)
  case Nil
  then show ?case by (simp add: seg_last_def)
next
  case (Cons a as)
  have last: "seg_last p (a # as) = seg_last (Item a) as" by (simp add: seg_last_def)
  have "p \<noteq> seg_last p (a # as)" using Cons.prems(3) seg_last_in [of p "a # as"] last
    by (auto simp: seg_last_def)
  then have "pxNext s' p = Item a" using Cons.prems by auto
  moreover have "seg s' (Item a) as q'"
    using Cons.prems by (intro Cons.IH) (auto simp: last)
  ultimately show ?case using Cons.prems by auto
qed

lemma seg_new_start:
  assumes "seg s p bs r" and "pxNext s' p' = seg_first bs r" and "pxPrevious s' (seg_first bs r) = p'"
    and "distinct bs" and "r \<notin> Item ` set bs"
    and "\<And>n. n \<in> Item ` set bs \<Longrightarrow> pxNext s' n = pxNext s n"
    and "\<And>n. n = r \<or> n \<in> Item ` set bs \<Longrightarrow> n \<noteq> seg_first bs r \<Longrightarrow> pxPrevious s' n = pxPrevious s n"
  shows "seg s' p' bs r"
proof (cases bs)
  case Nil
  then show ?thesis using assms by (simp add: seg_first_def)
next
  case (Cons b cs)
  then have "seg s' (Item b) cs r = seg s (Item b) cs r"
    using assms by (intro seg_cong) (auto simp: seg_first_def)
  then show ?thesis using assms Cons by (auto simp: seg_first_def)
qed

text \<open>Linking a node in, and unlinking a node: the two pointer manipulations of \<open>list.c\<close>.\<close>

lemma seg_link:
  assumes rep: "seg s (ListEnd l) (as @ bs) (ListEnd l)" and dist: "distinct (as @ bs)"
    and fresh: "i \<notin> set (as @ bs)"
    and nx: "pxNext s' = (pxNext s)(seg_last (ListEnd l) as := Item i, Item i := seg_first bs (ListEnd l))"
    and pv: "pxPrevious s' = (pxPrevious s)(seg_first bs (ListEnd l) := Item i, Item i := seg_last (ListEnd l) as)"
  shows "seg s' (ListEnd l) (as @ i # bs) (ListEnd l)"
proof -
  let ?E = "ListEnd l"
  from seg_split [OF rep] have a: "seg s ?E as (seg_first bs ?E)" and b: "seg s (seg_last ?E as) bs ?E"
    by auto
  have la: "seg_last ?E as \<noteq> Item i" and lb: "seg_first bs ?E \<noteq> Item i"
    using fresh by (auto simp: seg_last_def seg_first_def)
  have na: "\<And>x. x \<in> set as \<Longrightarrow> Item x \<noteq> seg_first bs ?E"
    and nb: "\<And>x. x \<in> set bs \<Longrightarrow> Item x \<noteq> seg_last ?E as"
    using dist by (auto simp: seg_first_def seg_last_def dest: last_in_set)
  have "seg s' ?E as (Item i)"
    by (rule seg_new_end [OF a]) (use dist fresh la na in \<open>auto simp: nx pv\<close>)
  moreover have "seg s' (Item i) bs ?E"
    by (rule seg_new_start [OF b]) (use dist fresh lb nb in \<open>auto simp: nx pv\<close>)
  ultimately show ?thesis by (simp add: seg_append)
qed

lemma seg_unlink:
  assumes rep: "seg s (ListEnd l) (as @ i # bs) (ListEnd l)" and dist: "distinct (as @ i # bs)"
    and nx: "pxNext s' = (pxNext s)(seg_last (ListEnd l) as := seg_first bs (ListEnd l))"
    and pv: "pxPrevious s' = (pxPrevious s)(seg_first bs (ListEnd l) := seg_last (ListEnd l) as)"
  shows "seg s' (ListEnd l) (as @ bs) (ListEnd l)"
proof -
  let ?E = "ListEnd l"
  from rep have a: "seg s ?E as (Item i)" and b: "seg s (Item i) bs ?E"
    by (auto simp: seg_append)
  have na: "\<And>x. x \<in> set as \<Longrightarrow> Item x \<noteq> seg_first bs ?E"
    and nb: "\<And>x. x \<in> set bs \<Longrightarrow> Item x \<noteq> seg_last ?E as"
    using dist by (auto simp: seg_first_def seg_last_def dest: last_in_set)
  have "seg s' ?E as (seg_first bs ?E)"
    by (rule seg_new_end [OF a]) (use dist na in \<open>auto simp: nx pv\<close>)
  moreover have "seg s' (seg_last ?E as) bs ?E"
    by (rule seg_new_start [OF b]) (use dist nb in \<open>auto simp: nx pv\<close>)
  ultimately show ?thesis by (rule seg_join)
qed

section \<open>What a list structure represents\<close>

definition list_rep :: "('l, 'i) list_store \<Rightarrow> 'l \<Rightarrow> 'i list \<Rightarrow> bool" where
  "list_rep s l xs \<longleftrightarrow>
     seg s (ListEnd l) xs (ListEnd l) \<and> distinct xs \<and>
     (\<forall>i. pxContainer s i = Some l \<longleftrightarrow> i \<in> set xs) \<and>
     uxNumberOfItems s l = of_nat (length xs) \<and> length xs < 2 ^ 32 \<and>
     xItemValue s (ListEnd l) = portMAX_DELAY \<and>
     (pxIndex s l = ListEnd l \<or> pxIndex s l \<in> Item ` set xs)"

lemma list_rep_D:
  assumes "list_rep s l xs"
  shows "seg s (ListEnd l) xs (ListEnd l)" and "distinct xs"
    and "\<And>i. pxContainer s i = Some l \<longleftrightarrow> i \<in> set xs"
    and "pxIndex s l = ListEnd l \<or> pxIndex s l \<in> Item ` set xs"
    and "xItemValue s (ListEnd l) = portMAX_DELAY"
  using assms by (simp_all add: list_rep_def)

text \<open>The two insertions and the removal as operations on sequences.\<close>

definition insert_at_index :: "('l, 'i) item_ptr \<Rightarrow> 'i \<Rightarrow> 'i list \<Rightarrow> 'i list" where
  "insert_at_index idx i xs =
     (case idx of
        ListEnd _ \<Rightarrow> xs @ [i]
      | Item j \<Rightarrow> takeWhile ((\<noteq>) j) xs @ i # dropWhile ((\<noteq>) j) xs)"

definition ordered_insert :: "('i \<Rightarrow> u32) \<Rightarrow> 'i \<Rightarrow> 'i list \<Rightarrow> 'i list" where
  "ordered_insert key i xs =
     takeWhile (\<lambda>x. key x \<le> key i) xs @ i # dropWhile (\<lambda>x. key x \<le> key i) xs"

lemma ordered_insert_in: "i \<in> set (ordered_insert key i xs)"
  by (simp add: ordered_insert_def)

lemma length_ordered_insert [simp]: "length (ordered_insert key i xs) = Suc (length xs)"
  unfolding ordered_insert_def by (metis add_Suc_right length_Cons length_append takeWhile_dropWhile_id)

lemma insert_at_index_Item:
  "j \<notin> set as \<Longrightarrow> insert_at_index (Item j) i (as @ j # bs) = as @ i # j # bs"
  by (induction as) (auto simp: insert_at_index_def)

abbreviation item_key :: "('l, 'i) list_store \<Rightarrow> 'i \<Rightarrow> u32" where
  "item_key s \<equiv> \<lambda>i. xItemValue s (Item i)"

subsection \<open>Initialisation\<close>

lemma vListInitialise_rep:
  assumes "\<And>i. pxContainer s i \<noteq> Some l"
  shows "list_rep (vListInitialise l s) l []"
  using assms by (simp add: list_rep_def vListInitialise_def)

subsection \<open>Insertion at a position\<close>

lemma list_rep_link:
  assumes rep: "list_rep s l (as @ bs)" and free: "pxContainer s i = None"
    and room: "Suc (length (as @ bs)) < 2 ^ 32"
    and nx: "pxNext s' = (pxNext s)(seg_last (ListEnd l) as := Item i, Item i := seg_first bs (ListEnd l))"
    and pv: "pxPrevious s' = (pxPrevious s)(seg_first bs (ListEnd l) := Item i, Item i := seg_last (ListEnd l) as)"
    and ct: "pxContainer s' = (pxContainer s)(i := Some l)"
    and cnt: "uxNumberOfItems s' l = uxNumberOfItems s l + 1"
    and val: "xItemValue s' = xItemValue s" and idx: "pxIndex s' = pxIndex s"
  shows "list_rep s' l (as @ i # bs)"
proof -
  have fresh: "i \<notin> set (as @ bs)" using list_rep_D(3) [OF rep, of i] free by auto
  have "seg s' (ListEnd l) (as @ i # bs) (ListEnd l)"
    using list_rep_D(1,2) [OF rep] fresh nx pv by (rule seg_link)
  moreover have "pxContainer s' j = Some l \<longleftrightarrow> j \<in> set (as @ i # bs)" for j
    using list_rep_D(3) [OF rep, of j] by (simp add: ct)
  moreover have "distinct (as @ i # bs)" using list_rep_D(2) [OF rep] fresh by auto
  ultimately show ?thesis
    using rep room cnt val idx by (auto simp: list_rep_def)
qed

text \<open>Another list is not touched: its nodes are none of the nodes that are relinked.\<close>

lemma list_rep_frame:
  assumes rep: "list_rep s l xs" and other: "list_rep s k ys" and ne: "k \<noteq> l"
    and nx: "\<And>n. pxNext s' n \<noteq> pxNext s n \<Longrightarrow> n = ListEnd l \<or> n \<in> Item ` (set xs \<union> F)"
    and pv: "\<And>n. pxPrevious s' n \<noteq> pxPrevious s n \<Longrightarrow> n = ListEnd l \<or> n \<in> Item ` (set xs \<union> F)"
    and fresh: "\<And>i. i \<in> F \<Longrightarrow> pxContainer s i \<noteq> Some k"
    and ct: "\<And>i. pxContainer s' i = Some k \<longleftrightarrow> pxContainer s i = Some k"
    and cnt: "uxNumberOfItems s' k = uxNumberOfItems s k"
    and val: "xItemValue s' (ListEnd k) = xItemValue s (ListEnd k)" and idx: "pxIndex s' k = pxIndex s k"
  shows "list_rep s' k ys"
proof -
  have disj: "n \<notin> set xs \<union> F" if "n \<in> set ys" for n
    using that list_rep_D(3) [OF rep, of n] list_rep_D(3) [OF other, of n] fresh [of n] ne by auto
  have "seg s' (ListEnd k) ys (ListEnd k) = seg s (ListEnd k) ys (ListEnd k)"
  proof (rule seg_cong)
    fix n assume n: "n = ListEnd k \<or> n \<in> Item ` set ys"
    then show "pxNext s' n = pxNext s n" using nx [of n] disj ne by auto
    from n show "pxPrevious s' n = pxPrevious s n" using pv [of n] disj ne by auto
  qed
  then show ?thesis using other ct cnt val idx by (auto simp: list_rep_def)
qed

lemma insert_at_index_split:
  assumes rep: "list_rep s l xs"
  obtains as bs where "xs = as @ bs" and "insert_at_index (pxIndex s l) i xs = as @ i # bs"
    and "seg_first bs (ListEnd l) = pxIndex s l"
proof (cases "pxIndex s l = ListEnd l")
  case True
  then show ?thesis by (intro that [of xs "[]"]) (auto simp: insert_at_index_def seg_first_def)
next
  case False
  with list_rep_D(4) [OF rep] obtain j where j: "pxIndex s l = Item j" "j \<in> set xs" by auto
  let ?as = "takeWhile ((\<noteq>) j) xs" and ?bs = "dropWhile ((\<noteq>) j) xs"
  have "?bs \<noteq> []" using j by auto
  then have "seg_first ?bs (ListEnd l) = Item j"
    using hd_dropWhile [of "(\<noteq>) j" xs] by (auto simp: seg_first_def)
  then show ?thesis using j by (intro that [of ?as ?bs]) (auto simp: insert_at_index_def)
qed

lemma vListInsertEnd_rep:
  assumes rep: "list_rep s l xs" and free: "pxContainer s i = None" and room: "Suc (length xs) < 2 ^ 32"
  shows "list_rep (vListInsertEnd l i s) l (insert_at_index (pxIndex s l) i xs)"
proof -
  obtain as bs where xs: "xs = as @ bs" and ins: "insert_at_index (pxIndex s l) i xs = as @ i # bs"
    and hd: "seg_first bs (ListEnd l) = pxIndex s l"
    using insert_at_index_split [OF rep] by blast
  have fresh: "i \<notin> set xs" using list_rep_D(3) [OF rep, of i] free by auto
  have idx: "pxIndex s l \<noteq> Item i" using list_rep_D(4) [OF rep] fresh by auto
  have prev: "pxPrevious s (pxIndex s l) = seg_last (ListEnd l) as"
    using seg_split [of s "ListEnd l" as bs] list_rep_D(1) [OF rep] xs seg_prev hd by metis
  have last: "seg_last (ListEnd l) as \<noteq> Item i" using fresh xs by (auto simp: seg_last_def)
  have nx: "pxNext (vListInsertEnd l i s) =
      (pxNext s)(seg_last (ListEnd l) as := Item i, Item i := seg_first bs (ListEnd l))"
    and pv: "pxPrevious (vListInsertEnd l i s) =
      (pxPrevious s)(seg_first bs (ListEnd l) := Item i, Item i := seg_last (ListEnd l) as)"
    using idx last by (auto simp: vListInsertEnd_def Let_def prev hd fun_eq_iff)
  have "list_rep s l (as @ bs)" using rep xs by simp
  then show ?thesis unfolding ins
    by (rule list_rep_link [OF _ free _ nx pv]) (use room xs in \<open>auto simp: vListInsertEnd_def Let_def\<close>)
qed

subsection \<open>Ordered insertion\<close>

text \<open>The search loop ends at the last item whose value is not above the inserted one.\<close>

lemma insert_position_Some:
  assumes "seg s p xs (ListEnd l)" and "xItemValue s (ListEnd l) = portMAX_DELAY" and "v \<noteq> portMAX_DELAY"
  shows "insert_position s v p = Some (seg_last p (takeWhile (\<lambda>x. item_key s x \<le> v) xs))"
  using assms
proof (induction xs arbitrary: p)
  case Nil
  then show ?case by (simp add: insert_position.simps seg_last_def)
next
  case (Cons x xs)
  show ?case
  proof (cases "item_key s x \<le> v")
    case True
    have "insert_position s v p = insert_position s v (Item x)"
      using Cons.prems(1) True by (subst insert_position.simps) simp
    also have "\<dots> = Some (seg_last (Item x) (takeWhile (\<lambda>x. item_key s x \<le> v) xs))"
      using Cons by simp
    finally show ?thesis using True by (simp add: seg_last_def)
  next
    case False
    then show ?thesis using Cons.prems(1) by (simp add: insert_position.simps seg_last_def)
  qed
qed

lemma vListInsert_position:
  fixes v :: u32
  assumes rep: "list_rep s l xs"
  shows "(if v = portMAX_DELAY then Some (pxPrevious s (ListEnd l)) else insert_position s v (ListEnd l))
     = Some (seg_last (ListEnd l) (takeWhile (\<lambda>x. item_key s x \<le> v) xs))"
  using insert_position_Some [of s "ListEnd l" xs l v] list_rep_D [OF rep] seg_prev
  by (auto simp: takeWhile_dropWhile_all)

lemma vListInsert_rep:
  assumes rep: "list_rep s l xs" and free: "pxContainer s i = None" and room: "Suc (length xs) < 2 ^ 32"
  shows "\<exists>s'. vListInsert l i s = Some s' \<and> list_rep s' l (ordered_insert (item_key s) i xs) \<and>
     xItemValue s' = xItemValue s \<and> pvOwner s' = pvOwner s \<and> pxIndex s' = pxIndex s \<and>
     pxContainer s' = (pxContainer s)(i := Some l) \<and>
     (\<forall>k ys. k \<noteq> l \<longrightarrow> list_rep s k ys \<longrightarrow> list_rep s' k ys)"
proof -
  let ?P = "\<lambda>x. item_key s x \<le> item_key s i"
  let ?as = "takeWhile ?P xs" and ?bs = "dropWhile ?P xs" and ?E = "ListEnd l"
  have fresh: "i \<notin> set xs" using list_rep_D(3) [OF rep, of i] free by auto
  have next_it: "pxNext s (seg_last ?E ?as) = seg_first ?bs ?E"
    using seg_split [of s ?E ?as ?bs ?E] list_rep_D(1) [OF rep] seg_next by auto
  have la: "seg_last ?E ?as \<noteq> Item i" and lb: "seg_first ?bs ?E \<noteq> Item i"
    using fresh seg_last_in [of ?E ?as] seg_first_in [of ?bs ?E]
    by (auto dest: set_takeWhileD set_dropWhileD)
  obtain s' where s': "vListInsert l i s = Some s'" by (simp add: vListInsert_def Let_def vListInsert_position [OF rep])
  note def = s' [unfolded vListInsert_def Let_def vListInsert_position [OF rep], simplified, symmetric]
  have nx: "pxNext s' = (pxNext s)(seg_last ?E ?as := Item i, Item i := seg_first ?bs ?E)"
    and pv: "pxPrevious s' = (pxPrevious s)(seg_first ?bs ?E := Item i, Item i := seg_last ?E ?as)"
    using la lb by (auto simp: def next_it fun_eq_iff)
  have fields: "pxContainer s' = (pxContainer s)(i := Some l)" "xItemValue s' = xItemValue s"
    "pxIndex s' = pxIndex s" "pvOwner s' = pvOwner s"
    "uxNumberOfItems s' = (uxNumberOfItems s)(l := uxNumberOfItems s l + 1)"
    by (simp_all add: def)
  have "list_rep s' l (?as @ i # ?bs)"
    by (rule list_rep_link [OF _ free _ nx pv]) (use rep room fields in auto)
  moreover have "list_rep s' k ys" if k: "k \<noteq> l" and other: "list_rep s k ys" for k ys
  proof (rule list_rep_frame [OF rep other k, where F = "{i}"])
    have nodes: "seg_last ?E ?as = ?E \<or> seg_last ?E ?as \<in> Item ` set xs"
      "seg_first ?bs ?E = ?E \<or> seg_first ?bs ?E \<in> Item ` set xs"
      using seg_last_in [of ?E ?as] seg_first_in [of ?bs ?E] by (auto dest: set_takeWhileD set_dropWhileD)
    fix n
    show "pxNext s' n \<noteq> pxNext s n \<Longrightarrow> n = ?E \<or> n \<in> Item ` (set xs \<union> {i})"
      and "pxPrevious s' n \<noteq> pxPrevious s n \<Longrightarrow> n = ?E \<or> n \<in> Item ` (set xs \<union> {i})"
      using nodes by (auto simp: nx pv split: if_splits)
  qed (use k free fields in auto)
  ultimately show ?thesis using s' fields by (auto simp: ordered_insert_def)
qed

subsection \<open>Removal\<close>

lemma uxListRemove_rep:
  assumes rep: "list_rep s l xs" and mem: "i \<in> set xs"
  shows "\<exists>s'. uxListRemove i s = Some (of_nat (length xs - 1), s') \<and> list_rep s' l (remove1 i xs) \<and>
     xItemValue s' = xItemValue s \<and> pvOwner s' = pvOwner s \<and>
     pxContainer s' = (pxContainer s)(i := None) \<and>
     (\<forall>k ys. k \<noteq> l \<longrightarrow> list_rep s k ys \<longrightarrow> list_rep s' k ys)"
proof -
  let ?E = "ListEnd l"
  obtain as bs where xs: "xs = as @ i # bs" and nas: "i \<notin> set as" using split_list_first_in [OF mem] .
  have ct: "pxContainer s i = Some l" using list_rep_D(3) [OF rep, of i] mem by simp
  from list_rep_D(1) [OF rep] have a: "seg s ?E as (Item i)" and b: "seg s (Item i) bs ?E"
    by (auto simp: xs seg_append)
  note prev = seg_prev [OF a] and nxt = seg_next [OF b]
  have dist: "distinct xs" using list_rep_D(2) [OF rep] .
  have la: "seg_last ?E as \<noteq> Item i" and lb: "seg_first bs ?E \<noteq> Item i"
    using dist by (auto simp: xs seg_last_def seg_first_def dest: last_in_set)
  have len: "uxNumberOfItems s l - 1 = of_nat (length xs - 1)"
    using rep by (simp add: list_rep_def xs)
  obtain s' where s': "uxListRemove i s = Some (of_nat (length xs - 1), s')"
    using len by (simp add: uxListRemove_def ct Let_def)
  note def = s' [unfolded uxListRemove_def ct Let_def, simplified, THEN conjunct2, symmetric]
  have nx: "pxNext s' = (pxNext s)(seg_last ?E as := seg_first bs ?E)"
    and pv: "pxPrevious s' = (pxPrevious s)(seg_first bs ?E := seg_last ?E as)"
    using la lb by (auto simp: def prev nxt)
  have fields: "pxContainer s' = (pxContainer s)(i := None)" "xItemValue s' = xItemValue s"
    "pvOwner s' = pvOwner s" "uxNumberOfItems s' = (uxNumberOfItems s)(l := of_nat (length xs - 1))"
    and idx: "pxIndex s' = (if pxIndex s l = Item i then (pxIndex s)(l := seg_last ?E as) else pxIndex s)"
    using la lb by (auto simp: def prev len)
  have "seg s' ?E (as @ bs) ?E"
    using list_rep_D(1) [OF rep] dist nx pv unfolding xs by (rule seg_unlink)
  moreover have "pxContainer s' j = Some l \<longleftrightarrow> j \<in> set (as @ bs)" for j
    using list_rep_D(3) [OF rep, of j] dist by (auto simp: fields xs)
  moreover have "pxIndex s' l = ?E \<or> pxIndex s' l \<in> Item ` set (as @ bs)"
    using list_rep_D(4) [OF rep] seg_last_in [of ?E as] by (auto simp: idx xs)
  moreover have "length (as @ bs) < 2 ^ 32" using rep by (simp add: list_rep_def xs)
  ultimately have "list_rep s' l (remove1 i xs)"
    unfolding list_rep_def
    using dist list_rep_D(5) [OF rep] by (auto simp: xs remove1_middle nas fields)
  moreover have "list_rep s' k ys" if k: "k \<noteq> l" and other: "list_rep s k ys" for k ys
  proof (rule list_rep_frame [OF rep other k, where F = "{}"])
    have nodes: "seg_last ?E as = ?E \<or> seg_last ?E as \<in> Item ` set xs"
      "seg_first bs ?E = ?E \<or> seg_first bs ?E \<in> Item ` set xs"
      using seg_last_in [of ?E as] seg_first_in [of bs ?E] by (auto simp: xs)
    fix n
    show "pxNext s' n \<noteq> pxNext s n \<Longrightarrow> n = ?E \<or> n \<in> Item ` (set xs \<union> {})"
      and "pxPrevious s' n \<noteq> pxPrevious s n \<Longrightarrow> n = ?E \<or> n \<in> Item ` (set xs \<union> {})"
      using nodes by (auto simp: nx pv split: if_splits)
  qed (use k ct fields idx in auto)
  ultimately show ?thesis using s' fields by auto
qed

subsection \<open>Walking a list\<close>

lemma seg_inner:
  assumes "seg s p (as @ b # bs) q"
  shows "pxNext s (seg_last p as) = Item b"
  using seg_split [OF assms] by simp

definition set_index :: "'l \<Rightarrow> ('l, 'i) item_ptr \<Rightarrow> ('l, 'i) list_store \<Rightarrow> ('l, 'i) list_store" where
  "set_index l n s = s\<lparr>pxIndex := (pxIndex s)(l := n)\<rparr>"

lemma set_index_simps [simp]:
  "pxIndex (set_index l n s) l = n"
  "set_index l n (set_index l m s) = set_index l n s"
  "pvOwner (set_index l n s) = pvOwner s"
  by (simp_all add: set_index_def)

lemma set_index_same: "pxIndex s l = n \<Longrightarrow> set_index l n s = s"
  by (simp add: set_index_def fun_upd_idem)

lemma list_rep_set_index:
  "list_rep s l xs \<Longrightarrow> n = ListEnd l \<or> n \<in> Item ` set xs \<Longrightarrow> list_rep (set_index l n s) l xs"
  unfolding list_rep_def by (simp add: set_index_def cong: seg_cong)

text \<open>One call of \<open>listGET_OWNER_OF_NEXT_ENTRY\<close>, from an index anywhere but at the last item.\<close>

lemma next_entry_step:
  assumes rep: "list_rep s l (as @ b # bs)" and idx: "pxIndex s l = seg_last (ListEnd l) as"
  shows "listGET_OWNER_OF_NEXT_ENTRY l s = Some (pvOwner s b, set_index l (Item b) s)"
  using seg_inner [OF list_rep_D(1) [OF rep]]
  by (simp add: listGET_OWNER_OF_NEXT_ENTRY_def idx set_index_def)

text \<open>From the last item the walk skips the end marker and returns to the first item.\<close>

lemma next_entry_wrap:
  assumes rep: "list_rep s l (b # bs)" and idx: "pxIndex s l = seg_last (ListEnd l) (b # bs)"
  shows "listGET_OWNER_OF_NEXT_ENTRY l s = Some (pvOwner s b, set_index l (Item b) s)"
  using seg_next_last [OF list_rep_D(1) [OF rep]] seg_next [OF list_rep_D(1) [OF rep]]
  by (simp add: listGET_OWNER_OF_NEXT_ENTRY_def idx seg_first_def set_index_def)

primrec next_entries :: "nat \<Rightarrow> 'l \<Rightarrow> ('l, 'i) list_store \<Rightarrow> (nat list \<times> ('l, 'i) list_store) option" where
  "next_entries 0 l s = Some ([], s)"
| "next_entries (Suc n) l s =
     Option.bind (listGET_OWNER_OF_NEXT_ENTRY l s) (\<lambda>(ow, s1).
       map_option (\<lambda>(ows, s2). (ow # ows, s2)) (next_entries n l s1))"

lemma next_entries_add:
  "next_entries m l s = Some (xs, s1) \<Longrightarrow> next_entries n l s1 = Some (ys, s2) \<Longrightarrow>
    next_entries (m + n) l s = Some (xs @ ys, s2)"
  by (induction m arbitrary: s xs) (auto simp: bind_eq_Some_conv)

lemma next_entries_forward:
  assumes "list_rep s l (as @ bs @ cs)" and "pxIndex s l = seg_last (ListEnd l) as"
  shows "next_entries (length bs) l s =
    Some (map (pvOwner s) bs, set_index l (seg_last (ListEnd l) (as @ bs)) s)"
  using assms
proof (induction bs arbitrary: as s)
  case Nil
  then show ?case by (simp add: set_index_same)
next
  case (Cons b bs)
  have "list_rep (set_index l (Item b) s) l ((as @ [b]) @ bs @ cs)"
    using Cons.prems(1) by (simp add: list_rep_set_index)
  from Cons.IH [OF this] show ?case
    using next_entry_step [of s l as b "bs @ cs"] Cons.prems by (simp add: seg_last_def)
qed

lemma next_entries_wrap:
  assumes rep: "list_rep s l (a # as @ bs)" and idx: "pxIndex s l = seg_last (ListEnd l) (a # as @ bs)"
  shows "next_entries (length (a # as)) l s =
    Some (map (pvOwner s) (a # as), set_index l (seg_last (ListEnd l) (a # as)) s)"
proof -
  have "list_rep (set_index l (Item a) s) l ([a] @ as @ bs)" using rep by (simp add: list_rep_set_index)
  from next_entries_forward [OF this] show ?thesis
    using next_entry_wrap [OF rep idx] by (simp add: seg_last_def)
qed

text \<open>
  A full round of the walk from any item visits every item of the list once, in list order
  starting after the current index, and brings the index back.
\<close>

lemma next_entries_round:
  assumes rep: "list_rep s l (as @ j # bs)" and idx: "pxIndex s l = Item j"
  shows "next_entries (length (as @ j # bs)) l s = Some (map (pvOwner s) (bs @ as @ [j]), s)"
proof -
  let ?e = "seg_last (ListEnd l) (as @ j # bs)"
  have fwd: "next_entries (length bs) l s = Some (map (pvOwner s) bs, set_index l ?e s)"
    using next_entries_forward [of s l "as @ [j]" bs "[]"] rep idx by (simp add: seg_last_def)
  obtain a as' where hd: "as @ [j] = a # as'" by (cases as) auto
  then have xs: "as @ j # bs = a # as' @ bs" by (metis append.assoc append_Cons append_Nil)
  have "list_rep (set_index l ?e s) l (a # as' @ bs)"
    using list_rep_set_index [OF rep seg_last_in] by (simp only: xs)
  then have "next_entries (length (a # as')) l (set_index l ?e s) =
      Some (map (pvOwner (set_index l ?e s)) (a # as'),
        set_index l (seg_last (ListEnd l) (a # as')) (set_index l ?e s))"
    by (rule next_entries_wrap) (simp only: xs set_index_simps)
  then have "next_entries (length (as @ [j])) l (set_index l ?e s) =
      Some (map (pvOwner s) (as @ [j]), set_index l (Item j) s)"
    by (simp only: set_index_simps flip: hd) (simp add: seg_last_def)
  from next_entries_add [OF fwd this] show ?thesis
    using idx by (simp add: set_index_same add.commute)
qed

section \<open>The interface the kernel relies on\<close>

text \<open>
  Delayed lists and event lists are used through ordered insertion, removal and inspection of the
  head. The contract: the list stays a sequence of distinct items sorted by item value, an inserted
  item goes behind the items of equal value, removal takes out exactly the item named, the item
  values do not change, and no other list is affected.
\<close>

lemma takeWhile_le_sorted:
  fixes f :: "'i \<Rightarrow> 'k::linorder"
  assumes "sorted (map f xs)"
  shows "\<forall>x \<in> set (dropWhile (\<lambda>x. f x \<le> v) xs). v < f x"
  using assms by (induction xs) (auto simp: not_le intro: less_le_trans)

lemma sorted_insert_middle:
  fixes f :: "'i \<Rightarrow> 'k::linorder"
  shows "sorted (map f (as @ bs)) \<Longrightarrow> \<forall>x \<in> set as. f x \<le> f i \<Longrightarrow> \<forall>x \<in> set bs. f i < f x \<Longrightarrow>
    sorted (map f (as @ i # bs))"
  by (auto simp: sorted_append)

lemma sorted_ordered_insert:
  fixes f :: "'i \<Rightarrow> 'k::linorder"
  assumes "sorted (map f xs)"
  shows "sorted (map f (takeWhile (\<lambda>x. f x \<le> f i) xs @ i # dropWhile (\<lambda>x. f x \<le> f i) xs))"
proof -
  let ?as = "takeWhile (\<lambda>x. f x \<le> f i) xs" and ?bs = "dropWhile (\<lambda>x. f x \<le> f i) xs"
  have "sorted (map f (?as @ ?bs))" using assms by simp
  moreover have "\<forall>x \<in> set ?as. f x \<le> f i" by (auto dest: set_takeWhileD)
  moreover have "\<forall>x \<in> set ?bs. f i < f x" using takeWhile_le_sorted [OF assms] .
  ultimately show ?thesis by (rule sorted_insert_middle)
qed

locale ordered_list_ops =
  fixes rep :: "'s \<Rightarrow> 'l \<Rightarrow> 'i list \<Rightarrow> bool"
    and key :: "'s \<Rightarrow> 'i \<Rightarrow> 'k::linorder"
    and free :: "'s \<Rightarrow> 'i \<Rightarrow> bool"
    and limit :: nat
    and insert :: "'l \<Rightarrow> 'i \<Rightarrow> 's \<Rightarrow> 's option"
    and remove :: "'i \<Rightarrow> 's \<Rightarrow> 's option"
  assumes rep_distinct: "rep s l xs \<Longrightarrow> distinct xs"
    and rep_not_free: "rep s l xs \<Longrightarrow> i \<in> set xs \<Longrightarrow> \<not> free s i"
    and insert_law: "rep s l xs \<Longrightarrow> free s i \<Longrightarrow> Suc (length xs) < limit \<Longrightarrow>
      \<exists>s'. insert l i s = Some s' \<and>
        rep s' l (takeWhile (\<lambda>x. key s x \<le> key s i) xs @ i # dropWhile (\<lambda>x. key s x \<le> key s i) xs) \<and>
        key s' = key s \<and> (\<forall>j. free s' j \<longleftrightarrow> free s j \<and> j \<noteq> i) \<and>
        (\<forall>k ys. k \<noteq> l \<longrightarrow> rep s k ys \<longrightarrow> rep s' k ys)"
    and remove_law: "rep s l xs \<Longrightarrow> i \<in> set xs \<Longrightarrow>
      \<exists>s'. remove i s = Some s' \<and> rep s' l (remove1 i xs) \<and>
        key s' = key s \<and> (\<forall>j. free s' j \<longleftrightarrow> free s j \<or> j = i) \<and>
        (\<forall>k ys. k \<noteq> l \<longrightarrow> rep s k ys \<longrightarrow> rep s' k ys)"
begin

text \<open>Insertion keeps a sorted list sorted, and removing the inserted item restores the list.\<close>

lemma insert_sorted:
  assumes "rep s l xs" and "free s i" and "Suc (length xs) < limit" and "sorted (map (key s) xs)"
  shows "\<exists>s' ys. insert l i s = Some s' \<and> rep s' l ys \<and> set ys = Set.insert i (set xs) \<and>
    length ys = Suc (length xs) \<and> sorted (map (key s') ys) \<and> key s' = key s \<and>
    (\<forall>j. free s' j \<longleftrightarrow> free s j \<and> j \<noteq> i)"
proof -
  let ?P = "\<lambda>x. key s x \<le> key s i"
  have "set (takeWhile ?P xs) \<union> set (dropWhile ?P xs) = set xs"
    by (metis set_append takeWhile_dropWhile_id)
  moreover have "length (takeWhile ?P xs) + length (dropWhile ?P xs) = length xs"
    by (metis length_append takeWhile_dropWhile_id)
  moreover have "sorted (map (key s) (takeWhile ?P xs @ i # dropWhile ?P xs))"
    using assms(4) by (rule sorted_ordered_insert)
  moreover obtain s' where "insert l i s = Some s'" and "rep s' l (takeWhile ?P xs @ i # dropWhile ?P xs)"
    and "key s' = key s" and "\<forall>j. free s' j \<longleftrightarrow> free s j \<and> j \<noteq> i"
    using insert_law [OF assms(1-3)] by blast
  ultimately show ?thesis
    by (intro exI [of _ s'] exI [of _ "takeWhile ?P xs @ i # dropWhile ?P xs"]) auto
qed

lemma insert_remove:
  assumes "rep s l xs" and "free s i" and "Suc (length xs) < limit" and "insert l i s = Some s1"
  shows "\<exists>s2. remove i s1 = Some s2 \<and> rep s2 l xs \<and> key s2 = key s \<and> (\<forall>j. free s2 j \<longleftrightarrow> free s j)"
proof -
  let ?P = "\<lambda>x. key s x \<le> key s i"
  have fresh: "i \<notin> set xs" using rep_not_free [OF assms(1)] assms(2) by blast
  have r: "rep s1 l (takeWhile ?P xs @ i # dropWhile ?P xs)" and k: "key s1 = key s"
    and f: "\<forall>j. free s1 j \<longleftrightarrow> free s j \<and> j \<noteq> i"
    using insert_law [OF assms(1-3)] assms(4) by auto
  have "remove1 i (takeWhile ?P xs @ i # dropWhile ?P xs) = xs"
    using fresh by (subst remove1_middle) (auto dest: set_takeWhileD)
  with remove_law [OF r, of i] k f assms(2) show ?thesis by auto
qed

text \<open>Inserting items one after the other into an empty list is a stable insertion sort.\<close>

primrec insert_all :: "'l \<Rightarrow> 'i list \<Rightarrow> 's \<Rightarrow> 's option" where
  "insert_all l [] s = Some s"
| "insert_all l (i # is) s = Option.bind (insert l i s) (insert_all l is)"

lemma insert_all_sorted:
  assumes "rep s l xs" and "sorted (map (key s) xs)" and "distinct is" and "\<forall>i \<in> set is. free s i"
    and "length xs + length is < limit"
  shows "\<exists>s' ys. insert_all l is s = Some s' \<and> rep s' l ys \<and> set ys = set xs \<union> set is \<and>
    sorted (map (key s') ys) \<and> key s' = key s"
  using assms
proof (induction "is" arbitrary: s xs)
  case Nil
  then show ?case by auto
next
  case (Cons i "is")
  from Cons.prems insert_sorted [of s l xs i] obtain s1 ys where
    s1: "insert l i s = Some s1" "rep s1 l ys" "set ys = Set.insert i (set xs)"
      "length ys = Suc (length xs)" "sorted (map (key s1) ys)" "key s1 = key s"
      "\<forall>j. free s1 j \<longleftrightarrow> free s j \<and> j \<noteq> i"
    by auto
  with Cons.IH [of s1 ys] Cons.prems show ?case by auto
qed

end

text \<open>\<open>vListInsert\<close> and \<open>uxListRemove\<close> keep the contract.\<close>

interpretation kl: ordered_list_ops list_rep item_key "\<lambda>s i. pxContainer s i = None" "2 ^ 32"
  vListInsert "\<lambda>i s. map_option snd (uxListRemove i s)"
proof (unfold_locales, goal_cases)
  case (1 s l xs)
  then show ?case by (rule list_rep_D(2))
next
  case (2 s l xs i)
  then show ?case using list_rep_D(3) [of s l xs i] by auto
next
  case (3 s l xs i)
  from vListInsert_rep [OF 3] show ?case by (auto simp: ordered_insert_def)
next
  case (4 s l xs i)
  from uxListRemove_rep [OF 4] show ?case by auto
qed

section \<open>Properties\<close>

definition blank_store :: "(nat, nat) list_store" where
  "blank_store = \<lparr>xItemValue = (\<lambda>_. 7), pxNext = (\<lambda>p. p), pxPrevious = (\<lambda>p. p),
     pvOwner = (\<lambda>i. 100 + i), pxContainer = (\<lambda>_. None), uxNumberOfItems = (\<lambda>_. 0), pxIndex = ListEnd\<rparr>"

definition one_item_store :: "(nat, nat) list_store" where
  "one_item_store = set_index 0 (Item 1) (vListInsertEnd 0 1 (vListInitialise 0 blank_store))"

lemmas example_store_simps = one_item_store_def blank_store_def vListInsertEnd_def vListInitialise_def
  set_index_def Let_def

lemma one_item_store_rep: "list_rep one_item_store 0 [1]"
  by (simp add: list_rep_def example_store_simps)

lemma one_item_store_fields:
  "pxIndex one_item_store 0 = Item 1" "pxContainer one_item_store 2 = None"
  "pvOwner one_item_store 1 = 101" "pvOwner one_item_store 2 = 102"
  by (simp_all add: example_store_simps)

text \<open>
  Ordered insertion returns on every well-formed list (the search loop ends), and the list it
  leaves holds the old items and the new one, sorted when it was sorted, with the new item behind
  every item whose value is not larger; item values and every other list are unchanged.
\<close>

theorem vListInsert_ordered:
  assumes "list_rep s l xs" and "pxContainer s i = None" and "Suc (length xs) < 2 ^ 32"
    and "sorted (map (item_key s) xs)"
  shows "\<exists>s' as bs. vListInsert l i s = Some s' \<and> xs = as @ bs \<and> list_rep s' l (as @ i # bs) \<and>
    (\<forall>x \<in> set as. item_key s x \<le> item_key s i) \<and> (\<forall>x \<in> set bs. item_key s i < item_key s x) \<and>
    sorted (map (item_key s') (as @ i # bs)) \<and> xItemValue s' = xItemValue s \<and>
    (\<forall>k ys. k \<noteq> l \<longrightarrow> list_rep s k ys \<longrightarrow> list_rep s' k ys)"
proof -
  let ?P = "\<lambda>x. item_key s x \<le> item_key s i"
  obtain s' where s': "vListInsert l i s = Some s'" "list_rep s' l (ordered_insert (item_key s) i xs)"
    "xItemValue s' = xItemValue s" "\<forall>k ys. k \<noteq> l \<longrightarrow> list_rep s k ys \<longrightarrow> list_rep s' k ys"
    using vListInsert_rep [OF assms(1-3)] by blast
  show ?thesis
    using s' sorted_ordered_insert [OF assms(4), of i] takeWhile_le_sorted [OF assms(4)]
    by (intro exI [of _ s'] exI [of _ "takeWhile ?P xs"] exI [of _ "dropWhile ?P xs"])
      (auto simp: ordered_insert_def dest: set_takeWhileD)
qed

theorem vListInsert_ordered_witness:
  "\<exists>s' as bs. vListInsert 0 2 one_item_store = Some s' \<and> [1] = as @ bs \<and> list_rep s' 0 (as @ 2 # bs)"
proof -
  from vListInsert_ordered [OF one_item_store_rep one_item_store_fields(2)] show ?thesis by fastforce
qed

text \<open>
  C12: Inserting an item in order and removing it again is the identity on the list contents: the
  removal returns, the list holds the same items in the same order, and the item is on no list.
\<close>

theorem vListInsert_uxListRemove_roundtrip:
  assumes "list_rep s l xs" and "pxContainer s i = None" and "Suc (length xs) < 2 ^ 32"
  shows "\<exists>s1 s2. vListInsert l i s = Some s1 \<and> uxListRemove i s1 = Some (of_nat (length xs), s2) \<and>
    list_rep s2 l xs \<and> (\<forall>j. pxContainer s2 j = None \<longleftrightarrow> pxContainer s j = None)"
proof -
  obtain s1 where s1: "vListInsert l i s = Some s1" "list_rep s1 l (ordered_insert (item_key s) i xs)"
    using vListInsert_rep [OF assms] by blast
  have "map_option fst (uxListRemove i s1) = Some (of_nat (length xs))"
    using uxListRemove_rep [OF s1(2) ordered_insert_in] by auto
  with kl.insert_remove [OF assms s1(1)] s1(1) show ?thesis by auto
qed

theorem vListInsert_uxListRemove_witness:
  "\<exists>s1 s2. vListInsert 0 2 one_item_store = Some s1 \<and> uxListRemove 2 s1 = Some (1, s2) \<and> list_rep s2 0 [1]"
proof -
  from vListInsert_uxListRemove_roundtrip [OF one_item_store_rep one_item_store_fields(2)] show ?thesis by auto
qed

text \<open>
  Round-robin service. After \<open>vListInsertEnd\<close> a full round of
  \<open>listGET_OWNER_OF_NEXT_ENTRY\<close> calls serves each item exactly once: first the items after the
  walk index, then those before it, then the inserted item, and last the item the index pointed to;
  the walk ends where it began.
\<close>

theorem vListInsertEnd_round_robin:
  assumes "list_rep s l (as @ j # bs)" and "pxIndex s l = Item j" and "pxContainer s i = None"
    and "Suc (length (as @ j # bs)) < 2 ^ 32"
  shows "next_entries (length as + length bs + 2) l (vListInsertEnd l i s) =
    Some (map (pvOwner s) (bs @ as @ [i, j]), vListInsertEnd l i s)"
proof -
  have "j \<notin> set as" using list_rep_D(2) [OF assms(1)] by simp
  with vListInsertEnd_rep [OF assms(1,3,4)] assms(2)
  have "list_rep (vListInsertEnd l i s) l ((as @ [i]) @ j # bs)" by (simp add: insert_at_index_Item)
  from next_entries_round [OF this] assms(2) show ?thesis
    by (simp add: vListInsertEnd_def Let_def)
qed

theorem vListInsertEnd_round_robin_witness:
  "next_entries 2 0 (vListInsertEnd 0 2 one_item_store) = Some ([102, 101], vListInsertEnd 0 2 one_item_store)"
  using vListInsertEnd_round_robin [of one_item_store 0 "[]" 1 "[]" 2] one_item_store_rep
  by (simp add: one_item_store_fields one_item_store_fields [simplified] numeral_2_eq_2 [symmetric] del: next_entries.simps)

end
