(* ===== verification/Memory_Interface.thy ===== *)
theory Memory_Interface
  imports Prelude
begin

text \<open>
  The contract between a memory allocator and its clients, stated once for the two heaps of the
  program: \<open>heap_4.c\<close> of the kernel (\<open>Heap4\<close>) and \<open>mem.c\<close> of the network stack (\<open>Lwip_Mem\<close>). The
  theorem of the interface is that every sequence of requests is served and never hands out memory
  that is in use.
\<close>

text \<open>Two areas, given by address and size, do not overlap.\<close>

definition apart :: "nat \<times> nat \<Rightarrow> nat \<times> nat \<Rightarrow> bool" where
  "apart = (\<lambda>(a, n) (b, m). a + n \<le> b \<or> b + m \<le> a)"

lemma apart_iff: "apart x y \<longleftrightarrow> fst x + snd x \<le> fst y \<or> fst y + snd y \<le> fst x"
  by (simp add: apart_def split: prod.splits)

subsection \<open>The allocator interface\<close>

text \<open>
  What the clients of a heap rely on: a request returns, either with no area or with a new one that is
  large enough; an area that was handed out can be given back; the areas in use do not overlap.
\<close>

locale allocator =
  fixes malloc :: "'w::len word \<Rightarrow> 's \<Rightarrow> (nat \<times> 's) option"
    and free :: "nat \<Rightarrow> 's \<Rightarrow> 's option"
    and live :: "'s \<Rightarrow> (nat \<times> nat) list \<Rightarrow> bool"
    and alignment :: nat
  assumes malloc_live: "live s A \<Longrightarrow> \<exists>p s'. malloc w s = Some (p, s') \<and>
      (p = 0 \<and> live s' A \<or> p \<noteq> 0 \<and> (\<exists>n \<ge> unat w. live s' ((p, n) # A)))"
    and free_live: "live s (A @ (p, n) # B) \<Longrightarrow> \<exists>s'. free p s = Some s' \<and> live s' (A @ B)"
    and live_apart: "live s A \<Longrightarrow> sorted_wrt apart A"
    and live_aligned: "live s A \<Longrightarrow> (p, n) \<in> set A \<Longrightarrow> p mod alignment = 0"

text \<open>
  A client's calls: \<open>Free i\<close> gives back the \<open>i\<close>-th area it holds. The areas it holds are kept with
  the sizes it asked for.
\<close>

datatype 'w heap_request = Malloc 'w | Free nat

fun serve :: "('w::len word \<Rightarrow> 's \<Rightarrow> (nat \<times> 's) option) \<Rightarrow> (nat \<Rightarrow> 's \<Rightarrow> 's option) \<Rightarrow>
    'w word heap_request list \<Rightarrow> (nat \<times> nat) list \<Rightarrow> 's \<Rightarrow> ((nat \<times> nat) list \<times> 's) option" where
  "serve m f [] A s = Some (A, s)"
| "serve m f (Malloc w # rs) A s =
     Option.bind (m w s) (\<lambda>(p, s'). serve m f rs (if p = 0 then A else (p, unat w) # A) s')"
| "serve m f (Free i # rs) A s =
     (if i < length A
      then Option.bind (f (fst (A ! i)) s) (\<lambda>s'. serve m f rs (take i A @ drop (Suc i) A) s')
      else serve m f rs A s)"

abbreviation (input) within :: "nat \<times> nat \<Rightarrow> nat \<times> nat \<Rightarrow> bool" where
  "within \<equiv> \<lambda>x y. fst x = fst y \<and> snd x \<le> snd y"

lemma within_apart: "list_all2 within A B \<Longrightarrow> sorted_wrt apart B \<Longrightarrow> sorted_wrt apart A"
proof (induction rule: list_all2_induct)
  case (Cons x xs y ys)
  have "apart x z" if z: "z \<in> set xs" for z
  proof -
    obtain i where i: "i < length xs" "z = xs ! i" using z by (auto simp: in_set_conv_nth)
    then have "within z (ys ! i)" and "ys ! i \<in> set ys" using Cons.hyps(2) by (auto simp: list_all2_conv_all_nth)
    then show ?thesis using Cons.prems Cons.hyps(1) by (fastforce simp: apart_iff)
  qed
  then show ?case using Cons by simp
qed simp

context allocator
begin

lemma serve_live:
  assumes "list_all2 within A B" and "live s B"
  shows "\<exists>A' B' s'. serve malloc free rs A s = Some (A', s') \<and> list_all2 within A' B' \<and> live s' B'"
  using assms
proof (induction rs arbitrary: A B s)
  case Nil
  then show ?case by auto
next
  case (Cons r rs)
  show ?case
  proof (cases r)
    case (Malloc w)
    obtain p s' where p: "malloc w s = Some (p, s')"
        "p = 0 \<and> live s' B \<or> p \<noteq> 0 \<and> (\<exists>n \<ge> unat w. live s' ((p, n) # B))"
      using malloc_live [OF Cons.prems(2), of w] by blast
    then obtain B' where "live s' B'" "list_all2 within (if p = 0 then A else (p, unat w) # A) B'"
      using Cons.prems(1) by (auto intro: that)
    then show ?thesis using Cons.IH p(1) Malloc by simp
  next
    case (Free i)
    show ?thesis
    proof (cases "i < length A")
      case True
      have len: "i < length B" and ad: "fst (A ! i) = fst (B ! i)"
        using True Cons.prems(1) by (auto simp: list_all2_conv_all_nth)
      have "B = take i B @ (fst (B ! i), snd (B ! i)) # drop (Suc i) B"
        using len by (simp add: id_take_nth_drop)
      then obtain s' where s': "free (fst (B ! i)) s = Some s'" "live s' (take i B @ drop (Suc i) B)"
        using free_live Cons.prems(2) by metis
      have "list_all2 within (take i A @ drop (Suc i) A) (take i B @ drop (Suc i) B)"
        using Cons.prems(1) by (intro list_all2_appendI list_all2_takeI list_all2_dropI)
      then show ?thesis using Cons.IH [OF _ s'(2)] s'(1) ad True Free by simp
    next
      case False
      then show ?thesis using Cons Free by simp
    qed
  qed
qed

lemma serve_safe:
  assumes "live s []"
  shows "\<exists>A s'. serve malloc free rs [] s = Some (A, s') \<and> sorted_wrt apart A \<and> (\<forall>x \<in> set A. fst x mod alignment = 0)"
proof -
  obtain A B s' where r: "serve malloc free rs [] s = Some (A, s')" "list_all2 within A B" "live s' B"
    using serve_live [OF list_all2_Nil2 [THEN iffD2, OF refl] assms] by blast
  have "fst x mod alignment = 0" if x: "x \<in> set A" for x
  proof -
    obtain y where "y \<in> set B" "fst x = fst y"
      using r(2) x by (metis (mono_tags, lifting) in_set_conv_nth list_all2_conv_all_nth)
    then show ?thesis using live_aligned [OF r(3), of "fst y" "snd y"] by simp
  qed
  then show ?thesis using r within_apart live_apart by blast
qed

end

text \<open>
  An allocator that merges what is given back: when nothing is in use the state is as good as new.
\<close>

locale reclaiming_allocator = allocator +
  fixes fresh :: "'b \<Rightarrow> bool"
  assumes live_none: "live s [] \<Longrightarrow> fresh s"
begin

lemma serve_reclaims:
  assumes "live s []"
  shows "\<exists>A s'. serve malloc free rs [] s = Some (A, s') \<and> sorted_wrt apart A \<and> (\<forall>x \<in> set A. fst x mod alignment = 0) \<and>
    (A = [] \<longrightarrow> fresh s')"
proof -
  obtain A B s' where r: "serve malloc free rs [] s = Some (A, s')" "list_all2 within A B" "live s' B"
    using serve_live [OF list_all2_Nil2 [THEN iffD2, OF refl] assms] by blast
  have "fresh s'" if "A = []" using that r(2,3) live_none by simp
  then show ?thesis using r(1) serve_safe [OF assms, of rs] by auto
qed

end

end
