(* ===== verification/Heap4.thy ===== *)
theory Heap4
  imports Memory_Interface
begin

text \<open>
  \<open>FreeRTOS/portable/MemMang/heap_4.c\<close>: the first-fit allocator with coalescing that serves every
  task, queue and timer. The store keeps the two fields of the \<open>BlockLink_t\<close> header at each address;
  addresses and sizes are natural numbers with the 32-bit wrap-around written out, \<open>0\<close> is \<open>NULL\<close>.
  The link addresses of \<open>ucHeap\<close> and \<open>xStart\<close> are fields of the state. A result \<open>None\<close> means that
  the call does not return: a \<open>configASSERT\<close> stopped the system, a null pointer was followed or a
  list walk does not end. The calls of \<open>vTaskSuspendAll\<close> and \<open>xTaskResumeAll\<close> make each operation
  atomic, which is how the model takes it. \<open>heap_rep\<close> relates a store to its list of free blocks and
  its allocated blocks.
\<close>

section \<open>Configuration and state\<close>

abbreviation (input) configTOTAL_HEAP_SIZE :: nat where "configTOTAL_HEAP_SIZE \<equiv> 16 * 1024"
abbreviation (input) portBYTE_ALIGNMENT :: nat where "portBYTE_ALIGNMENT \<equiv> 16"
abbreviation (input) portBYTE_ALIGNMENT_MASK :: nat where "portBYTE_ALIGNMENT_MASK \<equiv> 15"

text \<open>\<open>x & ~m\<close>.\<close>

definition clear_bits :: "nat \<Rightarrow> nat \<Rightarrow> nat" where
  "clear_bits x m = x - (x AND m)"

text \<open>\<open>sizeof( BlockLink_t )\<close> is 8 on RV32.\<close>

definition xHeapStructSize :: nat where
  "xHeapStructSize = clear_bits (8 + (portBYTE_ALIGNMENT - 1)) portBYTE_ALIGNMENT_MASK"

definition heapMINIMUM_BLOCK_SIZE :: nat where
  "heapMINIMUM_BLOCK_SIZE = push_bit 1 xHeapStructSize"

record heap4 =
  pxNextFreeBlock :: "nat \<Rightarrow> nat"
  xBlockSize :: "nat \<Rightarrow> nat"
  pxEnd :: nat
  xFreeBytesRemaining :: nat
  xMinimumEverFreeBytesRemaining :: nat
  xNumberOfSuccessfulAllocations :: nat
  xNumberOfSuccessfulFrees :: nat
  xBlockAllocatedBit :: nat
  ucHeap :: nat
  xStart :: nat

abbreviation set_next :: "nat \<Rightarrow> nat \<Rightarrow> heap4 \<Rightarrow> heap4" where
  "set_next p q h \<equiv> h\<lparr>pxNextFreeBlock := (pxNextFreeBlock h)(p := q)\<rparr>"

abbreviation set_size :: "nat \<Rightarrow> nat \<Rightarrow> heap4 \<Rightarrow> heap4" where
  "set_size p n h \<equiv> h\<lparr>xBlockSize := (xBlockSize h)(p := n)\<rparr>"

section \<open>The operations of heap_4.c\<close>

definition prvHeapInit :: "heap4 \<Rightarrow> heap4" where
  "prvHeapInit h =
     (let (uxAddress, xTotalHeapSize) =
            (if ucHeap h AND portBYTE_ALIGNMENT_MASK \<noteq> 0
             then (let ux = clear_bits (u32_add (ucHeap h) (portBYTE_ALIGNMENT - 1)) portBYTE_ALIGNMENT_MASK
                   in (ux, u32_sub configTOTAL_HEAP_SIZE (u32_sub ux (ucHeap h))))
             else (ucHeap h, configTOTAL_HEAP_SIZE));
          pucAlignedHeap = uxAddress;
          h1 = set_size (xStart h) 0 (set_next (xStart h) pucAlignedHeap h);
          uxEnd = clear_bits (u32_sub (u32_add pucAlignedHeap xTotalHeapSize) xHeapStructSize)
                    portBYTE_ALIGNMENT_MASK;
          h2 = set_next uxEnd 0 (set_size uxEnd 0 (h1\<lparr>pxEnd := uxEnd\<rparr>));
          xFirst = u32_sub uxEnd pucAlignedHeap;
          h3 = set_next pucAlignedHeap (pxEnd h2) (set_size pucAlignedHeap xFirst h2)
      in h3\<lparr>xMinimumEverFreeBytesRemaining := xFirst, xFreeBytesRemaining := xFirst,
            xBlockAllocatedBit := push_bit (4 * 8 - 1) 1\<rparr>)"

text \<open>The two list walks: the insertion point by address, and the first block that is large enough.\<close>

partial_function (option) free_insert_point :: "heap4 \<Rightarrow> nat \<Rightarrow> nat \<Rightarrow> nat option" where
  "free_insert_point h blk it =
     (if it = 0 then None
      else if pxNextFreeBlock h it < blk then free_insert_point h blk (pxNextFreeBlock h it)
      else Some it)"

partial_function (option) first_fit :: "heap4 \<Rightarrow> nat \<Rightarrow> nat \<Rightarrow> nat \<Rightarrow> (nat \<times> nat) option" where
  "first_fit h want prev blk =
     (if blk = 0 then None
      else if xBlockSize h blk < want \<and> pxNextFreeBlock h blk \<noteq> 0
      then first_fit h want blk (pxNextFreeBlock h blk)
      else Some (prev, blk))"

definition prvInsertBlockIntoFreeList :: "nat \<Rightarrow> heap4 \<Rightarrow> heap4 option" where
  "prvInsertBlockIntoFreeList pxBlockToInsert h =
     map_option (\<lambda>pxIterator.
       let (h1, blk) =
             (if u32_add pxIterator (xBlockSize h pxIterator) = pxBlockToInsert
              then (set_size pxIterator (u32_add (xBlockSize h pxIterator) (xBlockSize h pxBlockToInsert)) h,
                    pxIterator)
              else (h, pxBlockToInsert));
           nxt = pxNextFreeBlock h1 pxIterator;
           h2 = (if u32_add blk (xBlockSize h1 blk) = nxt
                 then (if nxt \<noteq> pxEnd h1
                       then set_next blk (pxNextFreeBlock h1 nxt)
                              (set_size blk (u32_add (xBlockSize h1 blk) (xBlockSize h1 nxt)) h1)
                       else set_next blk (pxEnd h1) h1)
                 else set_next blk nxt h1)
       in if pxIterator \<noteq> blk then set_next pxIterator blk h2 else h2)
     (free_insert_point h pxBlockToInsert (xStart h))"

text \<open>
  The size computation at the start of \<open>pvPortMalloc\<close>: \<open>0\<close> when the request is empty or the
  addition overflows.
\<close>

definition adjusted_size :: "nat \<Rightarrow> nat" where
  "adjusted_size xWantedSize =
     (if xWantedSize > 0 \<and> u32_add xWantedSize xHeapStructSize > xWantedSize
      then (let w = u32_add xWantedSize xHeapStructSize
            in if w AND portBYTE_ALIGNMENT_MASK \<noteq> 0
               then (let w' = u32_add w (portBYTE_ALIGNMENT - (w AND portBYTE_ALIGNMENT_MASK))
                     in if w' > w then w' else 0)
               else w)
      else 0)"

text \<open>
  The parts of \<open>pvPortMalloc\<close> once a block is found: the surplus of the block goes back to the
  free list when it is larger than the minimum block size; the block is unlinked and marked.
\<close>

definition split_block :: "nat \<Rightarrow> nat \<Rightarrow> heap4 \<Rightarrow> heap4 option" where
  "split_block want pxBlock h =
     (if u32_sub (xBlockSize h pxBlock) want > heapMINIMUM_BLOCK_SIZE
      then (let pxNewBlockLink = u32_add pxBlock want;
                h2 = set_size pxNewBlockLink (u32_sub (xBlockSize h pxBlock) want) h;
                h3 = set_size pxBlock want h2
            in if pxNewBlockLink AND portBYTE_ALIGNMENT_MASK = 0
               then prvInsertBlockIntoFreeList pxNewBlockLink h3 else None)
      else Some h)"

definition take_block :: "nat \<Rightarrow> nat \<Rightarrow> nat \<Rightarrow> heap4 \<Rightarrow> (nat \<times> heap4) option" where
  "take_block want pxPreviousBlock pxBlock h =
     (let pvReturn = u32_add (pxNextFreeBlock h pxPreviousBlock) xHeapStructSize;
          h1 = set_next pxPreviousBlock (pxNextFreeBlock h pxBlock) h
      in map_option (\<lambda>h4.
           let remaining = u32_sub (xFreeBytesRemaining h4) (xBlockSize h4 pxBlock);
               h5 = h4\<lparr>xFreeBytesRemaining := remaining\<rparr>;
               h6 = (if remaining < xMinimumEverFreeBytesRemaining h5
                     then h5\<lparr>xMinimumEverFreeBytesRemaining := remaining\<rparr> else h5);
               h7 = set_size pxBlock (xBlockSize h6 pxBlock OR xBlockAllocatedBit h6) h6;
               h8 = set_next pxBlock 0 h7
           in (pvReturn, h8\<lparr>xNumberOfSuccessfulAllocations := u32_add (xNumberOfSuccessfulAllocations h8) 1\<rparr>))
         (split_block want pxBlock h1))"

definition pvPortMalloc :: "nat \<Rightarrow> heap4 \<Rightarrow> (nat \<times> heap4) option" where
  "pvPortMalloc xWantedSize h0 =
     (let h = (if pxEnd h0 = 0 then prvHeapInit h0 else h0);
          result =
            (if xWantedSize AND xBlockAllocatedBit h = 0
             then (let want = adjusted_size xWantedSize
                   in if want > 0 \<and> want \<le> xFreeBytesRemaining h
                      then Option.bind (first_fit h want (xStart h) (pxNextFreeBlock h (xStart h)))
                             (\<lambda>(pxPreviousBlock, pxBlock).
                               if pxBlock \<noteq> pxEnd h then take_block want pxPreviousBlock pxBlock h
                               else Some (0, h))
                      else Some (0, h))
             else Some (0, h))
      in Option.bind result (\<lambda>(pv, h').
           if pv AND portBYTE_ALIGNMENT_MASK = 0 then Some (pv, h') else None))"

definition vPortFree :: "nat \<Rightarrow> heap4 \<Rightarrow> heap4 option" where
  "vPortFree pv h =
     (if pv \<noteq> 0
      then (let pxLink = u32_sub pv xHeapStructSize
            in if xBlockSize h pxLink AND xBlockAllocatedBit h \<noteq> 0 \<and> pxNextFreeBlock h pxLink = 0
               then (let h1 = set_size pxLink (clear_bits (xBlockSize h pxLink) (xBlockAllocatedBit h)) h;
                         h2 = h1\<lparr>xFreeBytesRemaining :=
                                  u32_add (xFreeBytesRemaining h1) (xBlockSize h1 pxLink)\<rparr>
                     in map_option (\<lambda>h3. h3\<lparr>xNumberOfSuccessfulFrees :=
                            u32_add (xNumberOfSuccessfulFrees h3) 1\<rparr>)
                          (prvInsertBlockIntoFreeList pxLink h2))
               else None)
      else Some h)"

definition xPortGetFreeHeapSize :: "heap4 \<Rightarrow> nat" where
  "xPortGetFreeHeapSize h = xFreeBytesRemaining h"

definition xPortGetMinimumEverFreeHeapSize :: "heap4 \<Rightarrow> nat" where
  "xPortGetMinimumEverFreeHeapSize h = xMinimumEverFreeBytesRemaining h"

record HeapStats_t =
  xAvailableHeapSpaceInBytes :: nat
  xSizeOfLargestFreeBlockInBytes :: nat
  xSizeOfSmallestFreeBlockInBytes :: nat
  xNumberOfFreeBlocks :: nat
  hs_xMinimumEverFreeBytesRemaining :: nat
  hs_xNumberOfSuccessfulAllocations :: nat
  hs_xNumberOfSuccessfulFrees :: nat

text \<open>The \<open>do .. while\<close> loop of \<open>vPortGetHeapStats\<close>, over the count, the largest and the smallest size.\<close>

partial_function (option) heap_stats_loop ::
  "heap4 \<Rightarrow> nat \<Rightarrow> nat \<Rightarrow> nat \<Rightarrow> nat \<Rightarrow> (nat \<times> nat \<times> nat) option" where
  "heap_stats_loop h pxBlock xBlocks xMaxSize xMinSize =
     (if pxBlock = 0 then None
      else let xBlocks' = u32_add xBlocks 1;
               xMaxSize' = (if xBlockSize h pxBlock > xMaxSize then xBlockSize h pxBlock else xMaxSize);
               xMinSize' = (if xBlockSize h pxBlock < xMinSize then xBlockSize h pxBlock else xMinSize);
               nxt = pxNextFreeBlock h pxBlock
           in if nxt \<noteq> pxEnd h then heap_stats_loop h nxt xBlocks' xMaxSize' xMinSize'
              else Some (xBlocks', xMaxSize', xMinSize'))"

definition vPortGetHeapStats :: "heap4 \<Rightarrow> HeapStats_t option" where
  "vPortGetHeapStats h =
     map_option (\<lambda>(xBlocks, xMaxSize, xMinSize).
       \<lparr>xAvailableHeapSpaceInBytes = xFreeBytesRemaining h,
        xSizeOfLargestFreeBlockInBytes = xMaxSize,
        xSizeOfSmallestFreeBlockInBytes = xMinSize,
        xNumberOfFreeBlocks = xBlocks,
        hs_xMinimumEverFreeBytesRemaining = xMinimumEverFreeBytesRemaining h,
        hs_xNumberOfSuccessfulAllocations = xNumberOfSuccessfulAllocations h,
        hs_xNumberOfSuccessfulFrees = xNumberOfSuccessfulFrees h\<rparr>)
     (if pxNextFreeBlock h (xStart h) \<noteq> 0
      then heap_stats_loop h (pxNextFreeBlock h (xStart h)) 0 0 (2 ^ 32 - 1)
      else Some (0, 0, 2 ^ 32 - 1))"

section \<open>Arithmetic of the alignment masks and of the allocated bit\<close>

lemma and_15 [simp]: "(n::nat) AND 15 = n mod 16"
proof -
  have "(15::nat) = mask 4" by (simp add: mask_eq_exp_minus_1)
  then have "n AND 15 = take_bit 4 n" by (simp only: take_bit_eq_mask)
  then show ?thesis by (simp add: take_bit_eq_mod)
qed

lemma clear_bits_15 [simp]: "clear_bits n 15 = n - n mod 16"
  by (simp add: clear_bits_def)

lemma align_dvd [simp]: "(16::nat) dvd n - n mod 16"
  by (metis dvd_minus_mod)

lemma heap_struct_size [simp]: "xHeapStructSize = 16" "heapMINIMUM_BLOCK_SIZE = 32"
  by (simp_all add: xHeapStructSize_def heapMINIMUM_BLOCK_SIZE_def push_bit_eq_mult)

lemma small_not_bit_31: "n < 2 ^ 31 \<Longrightarrow> \<not> bit (n::nat) 31"
  by (simp add: bit_iff_odd)

lemma and_bit_31: "n < 2 ^ 31 \<Longrightarrow> (n::nat) AND 2 ^ 31 = 0"
  by (subst and_exp_eq_0_iff_not_bit) (rule small_not_bit_31)

lemma or_bit_31: "n < 2 ^ 31 \<Longrightarrow> (n::nat) OR 2 ^ 31 = n + 2 ^ 31"
  by (rule disjunctive_add_eq_or [symmetric]) (rule and_bit_31)

lemma add_bit_31_and:
  assumes "n < 2 ^ 31"
  shows "(n + 2 ^ 31 :: nat) AND 2 ^ 31 = 2 ^ 31"
proof -
  have "(n OR 2 ^ 31) AND 2 ^ 31 = (2 ^ 31 :: nat)"
    by (simp add: bit_eq_iff bit_simps) blast
  then show ?thesis using or_bit_31 [OF assms] by simp
qed

lemma clear_bit_31: "n < 2 ^ 31 \<Longrightarrow> clear_bits (n + 2 ^ 31) (2 ^ 31) = n"
  by (simp only: clear_bits_def add_bit_31_and diff_add_inverse2)

lemma round_up_16: "(w + 31) div 16 * 16 = (if w mod 16 = 0 then w + 16 else w + 32 - w mod 16)" for w :: nat
proof -
  define k r where "k = w div 16" and "r = w mod 16"
  then have w: "w = 16 * k + r" and r: "r < 16" by simp_all
  have "(16 * k + r + 31) div 16 = (if r = 0 then k + 1 else k + 2)" using r by auto
  then show ?thesis using r by (simp add: w)
qed

text \<open>The wanted size: a multiple of the alignment that covers the request and the header.\<close>

lemma adjusted_size_eq:
  assumes "0 < w" and "w < 2 ^ 31"
  shows "adjusted_size w = (w + 31) div 16 * 16"
proof -
  have a: "u32_add w 16 = w + 16" using assms by (simp add: u32_add_small)
  have b: "u32_add (w + 16) (16 - (w + 16) mod 16) = w + 16 + (16 - (w + 16) mod 16)"
  proof (rule u32_add_small)
    have "16 - (w + 16) mod 16 \<le> (16::nat)" by (rule diff_le_self)
    moreover have "w < 2147483648" using assms(2) by simp
    ultimately have "w + 16 + (16 - (w + 16) mod 16) < 4294967296" by linarith
    then show "w + 16 + (16 - (w + 16) mod 16) < 2 ^ 32" by simp
  qed
  have r: "(w + 16) mod 16 = w mod 16" by simp
  show ?thesis
    using assms(1) round_up_16 [of w] mod_less_divisor [of 16 w]
    by (simp add: adjusted_size_def Let_def a b [unfolded r] add.commute)
qed

lemma adjusted_size_props:
  assumes "0 < w" and "w < 2 ^ 31"
  shows "16 dvd adjusted_size w" and "w + 16 \<le> adjusted_size w" and "adjusted_size w < w + 32"
proof -
  show "16 dvd adjusted_size w" by (simp add: adjusted_size_eq [OF assms])
  show "w + 16 \<le> adjusted_size w" and "adjusted_size w < w + 32"
    using round_up_16 [of w] mod_less_divisor [of 16 w] assms(1)
    by (auto simp: adjusted_size_eq [OF assms])
qed

section \<open>Free lists in the store\<close>

text \<open>\<open>chain f p xs e\<close>: following \<open>f\<close> from \<open>p\<close> visits \<open>xs\<close> and then \<open>e\<close>.\<close>

fun chain :: "(nat \<Rightarrow> nat) \<Rightarrow> nat \<Rightarrow> nat list \<Rightarrow> nat \<Rightarrow> bool" where
  "chain f p [] e \<longleftrightarrow> f p = e"
| "chain f p (x # xs) e \<longleftrightarrow> f p = x \<and> chain f x xs e"

lemma chain_append [link_simps]: "chain f p (xs @ y # ys) e \<longleftrightarrow> chain f p xs y \<and> chain f y ys e"
  by (induction xs arbitrary: p) auto

lemma chain_cong:
  "(\<And>q. q \<in> insert p (set xs) \<Longrightarrow> g q = f q) \<Longrightarrow> chain g p xs e = chain f p xs e"
  by (induction xs arbitrary: p) auto

lemma chain_next: "chain f p xs e \<Longrightarrow> f p = hd (xs @ [e])"
  by (cases xs) auto

lemma chain_retarget:
  assumes "chain f p xs e" and "distinct (p # xs)" and "g (last (p # xs)) = e'"
    and "\<And>q. q \<in> insert p (set xs) \<Longrightarrow> q \<noteq> last (p # xs) \<Longrightarrow> g q = f q"
  shows "chain g p xs e'"
  using assms
proof (induction xs arbitrary: p)
  case Nil
  then show ?case by simp
next
  case (Cons x xs)
  have "p \<noteq> last (x # xs)" using Cons.prems(2) last_in_set [of "x # xs"] by (metis distinct.simps(2) list.distinct(1))
  then have "g p = x" using Cons.prems by auto
  moreover have "chain g x xs e'" using Cons.prems by (intro Cons.IH) auto
  ultimately show ?case by simp
qed

lemma chain_restart:
  "chain f p xs e \<Longrightarrow> g q = hd (xs @ [e]) \<Longrightarrow> (\<And>x. x \<in> set xs \<Longrightarrow> g x = f x) \<Longrightarrow> chain g q xs e"
  using chain_cong [of "hd xs" "tl xs" g f e] by (cases xs) auto

lemma chain_split:
  "chain f p (xs @ ys) e \<Longrightarrow> chain f p xs (hd (ys @ [e])) \<and> chain f (last (p # xs)) ys e"
proof (induction xs arbitrary: p)
  case Nil
  then show ?case by (cases ys) auto
qed auto

lemma chain_join:
  "chain f p xs (hd (ys @ [e])) \<Longrightarrow> chain f (last (p # xs)) ys e \<Longrightarrow> chain f p (xs @ ys) e"
  by (induction xs arbitrary: p) auto

lemma free_insert_point_Some:
  assumes "chain (pxNextFreeBlock h) p xs e" and "p \<noteq> 0" and "0 \<notin> set xs"
    and "\<forall>x \<in> set xs. x < blk" and "\<not> e < blk"
  shows "free_insert_point h blk p = Some (last (p # xs))"
  using assms
proof (induction xs arbitrary: p)
  case Nil
  then show ?case by (simp add: free_insert_point.simps)
next
  case (Cons x xs)
  then have "free_insert_point h blk p = free_insert_point h blk x"
    by (subst free_insert_point.simps) simp
  then show ?case using Cons by simp
qed

text \<open>The first-fit search stops at the first block that is large enough, or at the end marker.\<close>

lemma first_fit_skip:
  assumes "chain (pxNextFreeBlock h) p (xs @ y # ys) e" and "\<forall>x \<in> set xs. xBlockSize h x < w"
    and "0 \<notin> set (xs @ y # ys)" and "w \<le> xBlockSize h y \<or> pxNextFreeBlock h y = 0"
  shows "first_fit h w p (pxNextFreeBlock h p) = Some (last (p # xs), y)"
  using assms
proof (induction xs arbitrary: p)
  case Nil
  then show ?case by (subst first_fit.simps) auto
next
  case (Cons x xs)
  have "pxNextFreeBlock h x \<noteq> 0" using Cons.prems by (cases xs) auto
  then have "first_fit h w p (pxNextFreeBlock h p) = first_fit h w x (pxNextFreeBlock h x)"
    using Cons.prems by (subst first_fit.simps) simp
  then show ?case using Cons by simp
qed

section \<open>What a heap store represents\<close>

text \<open>The first aligned address of \<open>ucHeap\<close>.\<close>

definition heap_lo :: "heap4 \<Rightarrow> nat" where
  "heap_lo h = ucHeap h + 15 - (ucHeap h + 15) mod 16"

text \<open>
  The part of the state that is fixed by the linker and by \<open>prvHeapInit\<close>: the heap array lies in the
  address space, \<open>xStart\<close> lies outside it, the end marker is the last aligned header of the array.
\<close>

definition placed :: "heap4 \<Rightarrow> bool" where
  "placed h \<longleftrightarrow> 0 < ucHeap h \<and> ucHeap h + configTOTAL_HEAP_SIZE < 2 ^ 32 \<and>
     0 < xStart h \<and> xStart h < 2 ^ 32 \<and>
     (xStart h < ucHeap h \<or> ucHeap h + configTOTAL_HEAP_SIZE \<le> xStart h)"

definition heap_frame :: "heap4 \<Rightarrow> bool" where
  "heap_frame h \<longleftrightarrow> placed h \<and> 16 dvd pxEnd h \<and> heap_lo h < pxEnd h \<and>
     pxEnd h + 16 \<le> ucHeap h + configTOTAL_HEAP_SIZE \<and> xBlockAllocatedBit h = 2 ^ 31"

definition block_ok :: "heap4 \<Rightarrow> nat \<times> nat \<Rightarrow> bool" where
  "block_ok h = (\<lambda>(a, n). heap_lo h \<le> a \<and> a + n \<le> pxEnd h \<and> 16 dvd a \<and> 16 dvd n \<and> 0 < n)"

definition gap :: "nat \<times> nat \<Rightarrow> nat \<times> nat \<Rightarrow> bool" where
  "gap = (\<lambda>(a, n) (b, m). a + n < b)"

abbreviation bytes :: "(nat \<times> nat) list \<Rightarrow> nat" where
  "bytes bs \<equiv> sum_list (map snd bs)"

text \<open>
  \<open>heap_rep h fl al\<close>: the free blocks \<open>fl\<close> are linked from \<open>xStart\<close> to \<open>pxEnd\<close> in address order with
  no two of them touching, the allocated blocks \<open>al\<close> carry the allocated bit, all blocks are aligned,
  lie in the heap and are pairwise disjoint, together they fill it, and the byte counters are exact.
\<close>

definition heap_body :: "heap4 \<Rightarrow> (nat \<times> nat) list \<Rightarrow> (nat \<times> nat) list \<Rightarrow> bool" where
  "heap_body h fl al \<longleftrightarrow> heap_frame h \<and>
     (\<forall>b \<in> set fl \<union> set al. block_ok h b) \<and>
     sorted_wrt gap fl \<and> sorted_wrt apart al \<and> (\<forall>x \<in> set fl. \<forall>y \<in> set al. apart x y) \<and>
     chain (pxNextFreeBlock h) (xStart h) (map fst fl) (pxEnd h) \<and>
     pxNextFreeBlock h (pxEnd h) = 0 \<and> xBlockSize h (pxEnd h) = 0 \<and> xBlockSize h (xStart h) = 0 \<and>
     (\<forall>b \<in> set fl. xBlockSize h (fst b) = snd b) \<and>
     (\<forall>b \<in> set al. xBlockSize h (fst b) = snd b + 2 ^ 31 \<and> pxNextFreeBlock h (fst b) = 0)"

definition heap_rep :: "heap4 \<Rightarrow> (nat \<times> nat) list \<Rightarrow> (nat \<times> nat) list \<Rightarrow> bool" where
  "heap_rep h fl al \<longleftrightarrow> heap_body h fl al \<and>
     xFreeBytesRemaining h = bytes fl \<and> bytes fl + bytes al = pxEnd h - heap_lo h \<and>
     xMinimumEverFreeBytesRemaining h \<le> xFreeBytesRemaining h"

lemma placed_lo: "placed h \<Longrightarrow> ucHeap h \<le> heap_lo h \<and> heap_lo h < ucHeap h + 16 \<and> 16 dvd heap_lo h \<and> 0 < heap_lo h"
  unfolding placed_def heap_lo_def using mod_less_divisor [of 16 "ucHeap h + 15"] by auto

lemma block_bounds:
  assumes "heap_frame h" and "block_ok h (a, n)"
  shows "0 < a" "a < pxEnd h" "a + n < 2 ^ 32" "a \<noteq> xStart h" "n < 2 ^ 31" "pxEnd h + 16 < 2 ^ 32"
    "0 < n" "16 dvd a" "16 dvd n" "a + n \<le> pxEnd h" "heap_lo h \<le> a"
  using assms placed_lo [of h] by (auto simp: heap_frame_def block_ok_def placed_def)

section \<open>Inserting a block into the free list\<close>

definition merge_left :: "(nat \<times> nat) list \<Rightarrow> nat \<Rightarrow> nat \<Rightarrow> (nat \<times> nat) list \<times> nat \<times> nat" where
  "merge_left L a n =
     (if L \<noteq> [] \<and> fst (last L) + snd (last L) = a
      then (butlast L, fst (last L), snd (last L) + n) else (L, a, n))"

definition merge_right :: "nat \<Rightarrow> nat \<Rightarrow> (nat \<times> nat) list \<Rightarrow> nat \<times> (nat \<times> nat) list" where
  "merge_right a n R =
     (if R \<noteq> [] \<and> fst (hd R) = a + n then (n + snd (hd R), tl R) else (n, R))"

text \<open>The free list after the block \<open>(a, n)\<close> is added between \<open>L\<close> and \<open>R\<close> and coalesced.\<close>

definition merge_in :: "(nat \<times> nat) list \<Rightarrow> nat \<times> nat \<Rightarrow> (nat \<times> nat) list \<Rightarrow> (nat \<times> nat) list" where
  "merge_in L b R =
     (case merge_left L (fst b) (snd b) of (L', a', n') \<Rightarrow>
        case merge_right a' n' R of (n'', R') \<Rightarrow> L' @ (a', n'') # R')"

lemmas merge_defs = merge_in_def merge_left_def merge_right_def

lemma merge_in_total: "bytes (merge_in L (a, n) R) = bytes L + n + bytes R"
  by (cases L rule: rev_cases; cases R) (auto simp: merge_defs)

lemma merge_in_gap:
  assumes "sorted_wrt gap (L @ R)" and "\<forall>(b, m) \<in> set L. b + m \<le> a \<and> 0 < m"
    and "\<forall>(c, k) \<in> set R. a + n \<le> c \<and> 0 < k" and "0 < n"
  shows "sorted_wrt gap (merge_in L (a, n) R)"
proof -
  have "\<And>b m. (b, m) \<in> set L \<Longrightarrow> (b, m) \<noteq> last L \<Longrightarrow> b + m < fst (last L)"
    using assms(1) by (cases L rule: rev_cases) (auto simp: sorted_wrt_append gap_def)
  then show ?thesis
    using assms
    by (cases L rule: rev_cases; cases R) (fastforce simp: merge_defs sorted_wrt_append gap_def)+
qed

lemma merge_in_ok:
  assumes "\<forall>b \<in> set (L @ (a, n) # R). block_ok h b"
  shows "\<forall>b \<in> set (merge_in L (a, n) R). block_ok h b"
  using assms
  by (cases L rule: rev_cases; cases R) (auto simp: merge_defs block_ok_def split: if_splits)

lemma merge_in_apart:
  assumes "\<forall>b \<in> set (L @ (a, n) # R). apart b y" and "0 < snd y"
  shows "\<forall>b \<in> set (merge_in L (a, n) R). apart b y"
  using assms
  by (cases L rule: rev_cases; cases R; cases y) (auto simp: merge_defs apart_def split: if_splits)

text \<open>
  The situation in which \<open>prvInsertBlockIntoFreeList\<close> is called: a well-formed free list
  \<open>L @ R\<close> and a block \<open>(a, n)\<close> that is not on it and lies between the two parts.
\<close>

definition insertable :: "heap4 \<Rightarrow> (nat \<times> nat) list \<Rightarrow> nat \<Rightarrow> nat \<Rightarrow> (nat \<times> nat) list \<Rightarrow> bool" where
  "insertable h L a n R \<longleftrightarrow> heap_frame h \<and> (\<forall>b \<in> set (L @ (a, n) # R). block_ok h b) \<and>
     (\<forall>b \<in> set L. fst b + snd b \<le> a) \<and> (\<forall>b \<in> set R. a + n \<le> fst b) \<and> sorted_wrt gap (L @ R) \<and>
     chain (pxNextFreeBlock h) (xStart h) (map fst (L @ R)) (pxEnd h) \<and>
     (\<forall>b \<in> set (L @ R). xBlockSize h (fst b) = snd b) \<and> xBlockSize h a = n \<and> xBlockSize h (xStart h) = 0"

lemma gap_distinct:
  assumes "sorted_wrt gap fl" and "\<And>a n. (a, n) \<in> set fl \<Longrightarrow> 0 < n"
  shows "distinct (map fst fl)"
  using assms by (induction fl) (fastforce simp: gap_def)+

lemma insertable_D:
  assumes "insertable h L a n R"
  shows "heap_frame h" "sorted_wrt gap (L @ R)" "xBlockSize h a = n" "xBlockSize h (xStart h) = 0"
    "chain (pxNextFreeBlock h) (xStart h) (map fst (L @ R)) (pxEnd h)"
    "\<forall>b \<in> set (L @ (a, n) # R). block_ok h b" "block_ok h (a, n)"
  using assms by (simp_all add: insertable_def)

lemma insertable_left:
  assumes "insertable h L a n R" and "(b, m) \<in> set L"
  shows "b + m \<le> a \<and> xBlockSize h b = m \<and> block_ok h (b, m)"
proof -
  have "\<forall>x \<in> set L. fst x + snd x \<le> a" and "\<forall>x \<in> set (L @ R). xBlockSize h (fst x) = snd x"
    and "\<forall>x \<in> set (L @ (a, n) # R). block_ok h x"
    using assms(1) by (simp_all add: insertable_def)
  from bspec [OF this(1), of "(b, m)"] bspec [OF this(2), of "(b, m)"] bspec [OF this(3), of "(b, m)"] assms(2)
  show ?thesis by simp
qed

lemma insertable_right:
  assumes "insertable h L a n R" and "(b, m) \<in> set R"
  shows "a + n \<le> b \<and> xBlockSize h b = m \<and> block_ok h (b, m)"
proof -
  have "\<forall>x \<in> set R. a + n \<le> fst x" and "\<forall>x \<in> set (L @ R). xBlockSize h (fst x) = snd x"
    and "\<forall>x \<in> set (L @ (a, n) # R). block_ok h x"
    using assms(1) by (simp_all add: insertable_def)
  from bspec [OF this(1), of "(b, m)"] bspec [OF this(2), of "(b, m)"] bspec [OF this(3), of "(b, m)"] assms(2)
  show ?thesis by simp
qed

lemma heap_frame_start:
  "heap_frame h \<Longrightarrow> xStart h \<noteq> pxEnd h \<and> 0 < xStart h \<and> xStart h < 2 ^ 32 \<and> 0 < pxEnd h"
  using placed_lo [of h] by (auto simp: heap_frame_def placed_def)

lemma insertable_nodes:
  assumes ins: "insertable h L a n R"
  shows "distinct (xStart h # map fst L @ a # map fst R)"
    and "pxEnd h \<notin> set (xStart h # map fst L @ a # map fst R)" and "0 \<notin> set (xStart h # map fst L @ a # map fst R)"
proof -
  note D = insertable_D [OF ins]
  note bnd = block_bounds [OF D(1)]
  have L: "0 < b \<and> b < pxEnd h \<and> b \<noteq> xStart h \<and> b < a \<and> 0 < m" if "(b, m) \<in> set L" for b m
    using insertable_left [OF ins that] bnd [of b m] by auto
  have R: "0 < b \<and> b < pxEnd h \<and> b \<noteq> xStart h \<and> a < b \<and> 0 < m" if "(b, m) \<in> set R" for b m
    using insertable_right [OF ins that] bnd [of b m] bnd(7) [OF D(7)] by auto
  have "distinct (map fst (L @ R))" using D(2) L R by (intro gap_distinct) auto
  then show "distinct (xStart h # map fst L @ a # map fst R)"
    using bnd(4) [OF D(7)] by (auto dest: L R)
  show "pxEnd h \<notin> set (xStart h # map fst L @ a # map fst R)"
    and "0 \<notin> set (xStart h # map fst L @ a # map fst R)"
    using bnd(1,2) [OF D(7)] heap_frame_start [OF D(1)] by (auto dest: L R)
qed

lemma insert_point:
  assumes ins: "insertable h L a n R"
  shows "free_insert_point h a (xStart h) = Some (last (xStart h # map fst L))"
proof -
  note D = insertable_D [OF ins]
  note bnd = block_bounds [OF D(1)]
  have "chain (pxNextFreeBlock h) (xStart h) (map fst L) (hd (map fst R @ [pxEnd h]))"
    using D(5) chain_split [of "pxNextFreeBlock h" "xStart h" "map fst L" "map fst R"] by auto
  moreover have "\<forall>x \<in> set (map fst L). x < a"
    using insertable_left [OF ins] bnd(7) by fastforce
  moreover have "\<not> hd (map fst R @ [pxEnd h]) < a"
  proof (cases R)
    case Nil
    then show ?thesis using bnd(2) [OF D(7)] by simp
  next
    case (Cons r R')
    then show ?thesis using insertable_right [OF ins, of "fst r" "snd r"] by simp
  qed
  ultimately show ?thesis using insertable_nodes(3) [OF ins] by (intro free_insert_point_Some) auto
qed

text \<open>Which of the two merges happen is decided by the addresses, as \<open>merge_in\<close> says.\<close>

lemma merge_left_address:
  assumes ins: "insertable h L a n R"
  defines "it \<equiv> last (xStart h # map fst L)"
  shows "u32_add it (xBlockSize h it) = a \<longleftrightarrow> L \<noteq> [] \<and> fst (last L) + snd (last L) = a"
    and "L \<noteq> [] \<Longrightarrow> it = fst (last L) \<and> xBlockSize h (fst (last L)) = snd (last L)"
    and "it \<noteq> a"
proof -
  note D = insertable_D [OF ins]
  note bnd = block_bounds [OF D(1)]
  show it: "L \<noteq> [] \<Longrightarrow> it = fst (last L) \<and> xBlockSize h (fst (last L)) = snd (last L)"
    using insertable_left [OF ins, of "fst (last L)" "snd (last L)"] by (simp add: it_def last_map)
  show "it \<noteq> a"
    using insertable_nodes(1) [OF ins] last_in_set [of "map fst L"] by (auto simp: it_def simp del: last_in_set)
  show "u32_add it (xBlockSize h it) = a \<longleftrightarrow> L \<noteq> [] \<and> fst (last L) + snd (last L) = a"
  proof (cases "L = []")
    case True
    then show ?thesis
      using bnd(4) [OF D(7)] D(4) heap_frame_start [OF D(1)] by (simp add: it_def u32_add_def)
  next
    case False
    then have "fst (last L) + snd (last L) < 2 ^ 32"
      using insertable_left [OF ins, of "fst (last L)" "snd (last L)"] bnd(3) by fastforce
    then show ?thesis using it [OF False] False by (simp add: u32_add_small)
  qed
qed

lemma merge_left_cases:
  assumes ins: "insertable h L a n R" and m: "merge_left L a n = (L', a', n')"
  defines "it \<equiv> last (xStart h # map fst L)"
  obtains (apart) "u32_add it (xBlockSize h it) \<noteq> a" "L' = L" "a' = a" "n' = n"
  | (merged) "u32_add it (xBlockSize h it) = a" "a' = it" "it \<noteq> a" "L \<noteq> []"
      "map fst L = map fst L' @ [it]" "u32_add (xBlockSize h it) (xBlockSize h a) = n'" "a' + n' = a + n"
proof (cases "u32_add it (xBlockSize h it) = a")
  case False
  then show ?thesis using apart m merge_left_address(1) [OF ins] by (auto simp: it_def merge_left_def split: if_splits)
next
  case True
  note D = insertable_D [OF ins]
  have L: "L \<noteq> []" and e: "fst (last L) + snd (last L) = a"
    using True merge_left_address(1) [OF ins] by (auto simp: it_def)
  note itL = merge_left_address(2) [OF ins L, folded it_def]
  have m': "L' = butlast L" "a' = it" "n' = xBlockSize h it + n"
    using m L e itL by (auto simp: merge_left_def)
  have "xBlockSize h it + n < 2 ^ 32"
    using e itL block_bounds(3) [OF D(1,7)] by simp
  then have "u32_add (xBlockSize h it) (xBlockSize h a) = n'" using m' D(3) by (simp add: u32_add_small)
  moreover have "map fst L = map fst L' @ [it]"
    using L itL m'(1) by (metis append_butlast_last_id map_butlast last_map map_is_Nil_conv)
  moreover have "a' + n' = a + n" using m' e itL by simp
  ultimately show ?thesis
    using merged True m' L merge_left_address(3) [OF ins, folded it_def] by blast
qed

lemma prvInsertBlockIntoFreeList_eq:
  assumes ins: "insertable h L a n R" and ml: "merge_left L a n = (L', a', n')"
    and mr: "merge_right a' n' R = (n'', R')"
  defines "it \<equiv> last (xStart h # map fst L)" and "nx \<equiv> hd (map fst R' @ [pxEnd h])"
  shows "prvInsertBlockIntoFreeList a h =
    Some (h\<lparr>pxNextFreeBlock := (if a' = it then (pxNextFreeBlock h)(it := nx)
                                else (pxNextFreeBlock h)(a' := nx, it := a')),
            xBlockSize := (xBlockSize h)(a' := n'')\<rparr>)"
proof -
  note D = insertable_D [OF ins]
  note nodes = insertable_nodes [OF ins]
  let ?S1 = "(xBlockSize h)(a' := n')"
  have chR: "chain (pxNextFreeBlock h) it (map fst R) (pxEnd h)"
    using chain_split [of "pxNextFreeBlock h" "xStart h" "map fst L" "map fst R"] D(5) by (simp add: it_def)
  note nxt = chain_next [OF chR]
  have "a' + n' = a + n \<and> (if u32_add it (xBlockSize h it) = a
      then (set_size it (u32_add (xBlockSize h it) (xBlockSize h a)) h, it) else (h, a)) =
      (h\<lparr>xBlockSize := ?S1\<rparr>, a')"
    using ins ml
  proof (cases rule: merge_left_cases)
    case apart
    then show ?thesis using D(3) by (simp add: it_def fun_upd_idem)
  next
    case merged
    then show ?thesis by (simp add: it_def)
  qed
  then have left: "(if u32_add it (xBlockSize h it) = a
      then (set_size it (u32_add (xBlockSize h it) (xBlockSize h a)) h, it) else (h, a)) =
      (h\<lparr>xBlockSize := ?S1\<rparr>, a')" and e: "a' + n' = a + n" by blast+
  have sum: "u32_add a' n' = a + n"
    using block_bounds(3) [OF D(1,7)] e by (simp add: u32_add_small)
  have ita: "a' = it \<or> a' = a" using merge_left_cases [OF ins ml] by (metis it_def)
  have inR: "xBlockSize h c = k \<and> c \<noteq> pxEnd h \<and> c \<noteq> a' \<and> c \<noteq> it \<and> pxNextFreeBlock h c = hd (map fst R0 @ [pxEnd h])
      \<and> (c = a + n \<longrightarrow> u32_add n' k = n' + k)" if R: "R = (c, k) # R0" for c k R0
  proof -
    have "c \<noteq> a" and "c \<noteq> it" and "c \<noteq> pxEnd h"
      using nodes R last_in_set [of "map fst L"] by (auto simp: it_def simp del: last_in_set)
    moreover have "c + k < 2 ^ 32" and "xBlockSize h c = k"
      using insertable_right [OF ins, of c k] R block_bounds(3) [OF D(1), of c k] by auto
    moreover have "chain (pxNextFreeBlock h) c (map fst R0) (pxEnd h)" using chR R by simp
    moreover have "u32_add n' k = n' + k" if "c = a + n"
      using \<open>c + k < 2 ^ 32\<close> that e by (intro u32_add_small) linarith
    ultimately show ?thesis using ita chain_next by metis
  qed
  show ?thesis
  proof (cases R)
    case Nil
    then have "n'' = n'" "R' = []" using mr by (auto simp: merge_right_def)
    then show ?thesis using nxt Nil ita
      by (auto simp: prvInsertBlockIntoFreeList_def insert_point [OF ins, folded it_def] left sum nx_def Let_def fun_upd_idem)
  next
    case (Cons r R0)
    obtain c k where r: "r = (c, k)" by fastforce
    note cR = inR [OF Cons [unfolded r]]
    have n'': "n'' = (if c = a + n then n' + k else n')" and R': "R' = (if c = a + n then R0 else R)"
      using mr Cons r e by (auto simp: merge_right_def)
    show ?thesis using nxt Cons r ita cR n'' R'
      by (auto simp: prvInsertBlockIntoFreeList_def insert_point [OF ins, folded it_def] left sum nx_def Let_def)
  qed
qed

lemma prvInsertBlockIntoFreeList_rep:
  assumes ins: "insertable h L a n R"
  shows "\<exists>f g. prvInsertBlockIntoFreeList a h = Some (h\<lparr>pxNextFreeBlock := f, xBlockSize := g\<rparr>) \<and>
    chain f (xStart h) (map fst (merge_in L (a, n) R)) (pxEnd h) \<and>
    (\<forall>b \<in> set (merge_in L (a, n) R). g (fst b) = snd b) \<and>
    (\<forall>q. q \<notin> insert a (fst ` set (L @ R)) \<longrightarrow> g q = xBlockSize h q) \<and>
    (\<forall>q. q \<notin> insert (xStart h) (insert a (fst ` set (L @ R))) \<longrightarrow> f q = pxNextFreeBlock h q) \<and>
    (g a = n \<or> a \<in> fst ` set (merge_in L (a, n) R))"
proof -
  obtain L' a' n' n'' R' where ml: "merge_left L a n = (L', a', n')" and mr: "merge_right a' n' R = (n'', R')"
    by (metis prod_cases3 old.prod.exhaust)
  let ?it = "last (xStart h # map fst L)" and ?nx = "hd (map fst R' @ [pxEnd h])" and ?N = "pxNextFreeBlock h"
  let ?f = "if a' = ?it then ?N(?it := ?nx) else ?N(a' := ?nx, ?it := a')"
  let ?g = "(xBlockSize h)(a' := n'')"
  note D = insertable_D [OF ins] and nodes = insertable_nodes [OF ins]
  have m: "merge_in L (a, n) R = L' @ (a', n'') # R'" by (simp add: merge_in_def ml mr)
  have R': "\<exists>P. R = P @ R'" using mr by (cases R) (auto simp: merge_right_def split: if_splits)
  then obtain P where P: "R = P @ R'" ..
  have ch: "chain ?N (xStart h) (map fst L) (hd (map fst R @ [pxEnd h]))"
    and chR: "chain ?N ?it (map fst R) (pxEnd h)"
    using chain_split [of ?N "xStart h" "map fst L" "map fst R"] D(5) by auto
  have itL: "?it \<in> insert (xStart h) (set (map fst L))" using last_in_set [of "xStart h # map fst L"] by simp
  have dist: "distinct (xStart h # map fst L)" and disj: "set (map fst R) \<inter> insert a (insert (xStart h) (set (map fst L))) = {}"
    and na: "a \<notin> insert (xStart h) (set (map fst L))"
    using nodes(1) unfolding distinct.simps distinct_append set_append list.set by blast+
  have ita: "a' = ?it \<or> a' = a" using merge_left_cases [OF ins ml] by metis
  have notR: "x \<noteq> ?it \<and> x \<noteq> a'" if "x \<in> set (map fst R)" for x
    using that disj itL ita by blast
  have fR: "?f x = ?N x" if "x \<in> set (map fst R')" for x
    using notR [of x] that P by simp
  have "chain ?N (last (?it # map fst P)) (map fst R') (pxEnd h)"
    using chR P chain_split [of ?N ?it "map fst P" "map fst R'" "pxEnd h"] by simp
  then have chR': "chain ?f a' (map fst R') (pxEnd h)"
    by (rule chain_restart [OF _ _ fR]) simp_all
  have left: "chain ?f (xStart h) (map fst L') a' \<and> set L' \<subseteq> set L \<and> a' \<notin> set (map fst L')"
    using ins ml
  proof (cases rule: merge_left_cases)
    case apart
    have neq: "a' \<noteq> ?it" using na itL apart(3) by metis
    have "chain ?f (xStart h) (map fst L) a"
    proof (rule chain_retarget [OF ch dist])
      show "?f ?it = a" using neq apart(3) by simp
      fix q assume q: "q \<in> insert (xStart h) (set (map fst L))" and "q \<noteq> ?it"
      moreover have "q \<noteq> a'" using q na apart(3) by metis
      ultimately show "?f q = ?N q" by simp
    qed
    then show ?thesis using apart na by simp
  next
    case merged
    have "chain ?N (xStart h) (map fst L') ?it"
      using ch merged(5) chain_append [of ?N "xStart h" "map fst L'" ?it "[]"] by metis
    moreover have itn: "?it \<notin> insert (xStart h) (set (map fst L'))"
      using dist merged(5) by (metis distinct.simps(2) distinct_append insert_iff list.set_intros(1)
          not_distinct_conv_prefix set_append Un_iff append_Cons)
    moreover have "chain ?f (xStart h) (map fst L') ?it = chain ?N (xStart h) (map fst L') ?it"
    proof (rule chain_cong)
      fix q assume "q \<in> insert (xStart h) (set (map fst L'))"
      then have "q \<noteq> ?it" using itn by metis
      then show "?f q = ?N q" using merged(2) by simp
    qed
    moreover have "set L' \<subseteq> set L" using ml by (auto simp: merge_left_def dest: in_set_butlastD split: if_splits)
    ultimately show ?thesis using merged(2) by (metis insertCI)
  qed
  have "chain ?f (xStart h) (map fst (merge_in L (a, n) R)) (pxEnd h)"
    using left chR' by (simp add: m chain_append)
  moreover have "\<forall>b \<in> set (merge_in L (a, n) R). ?g (fst b) = snd b"
  proof -
    have "?g b = k" if "(b, k) \<in> set L'" for b k
    proof -
      have "b \<noteq> a'" using left that by (metis fst_conv image_eqI set_map)
      then show ?thesis using insertable_left [OF ins, of b k] left that by auto
    qed
    moreover have "?g b = k" if "(b, k) \<in> set R'" for b k
    proof -
      have "b \<in> set (map fst R)" using that P by force
      then show ?thesis using notR [of b] insertable_right [OF ins, of b k] that P by auto
    qed
    ultimately have "?g (fst b) = snd b" if "b \<in> set L' \<union> set R'" for b
      using that by (metis Un_iff prod.collapse)
    then show ?thesis by (simp add: m)
  qed
  moreover have "prvInsertBlockIntoFreeList a h = Some (h\<lparr>pxNextFreeBlock := ?f, xBlockSize := ?g\<rparr>)"
    using prvInsertBlockIntoFreeList_eq [OF ins ml mr] by simp
  moreover have "\<forall>q. q \<notin> insert (xStart h) (insert a (fst ` set (L @ R))) \<longrightarrow> ?f q = ?N q"
  proof (intro allI impI)
    fix q assume "q \<notin> insert (xStart h) (insert a (fst ` set (L @ R)))"
    then have "q \<noteq> ?it" and "q \<noteq> a" using itL by (metis Un_iff image_Un insertCI insertE set_append set_map)+
    then show "?f q = ?N q" using ita by auto
  qed
  moreover have "\<forall>q. q \<notin> insert a (fst ` set (L @ R)) \<longrightarrow> ?g q = xBlockSize h q"
  proof -
    have "a' = a \<or> a' \<in> set (map fst L)"
      using ins ml
    proof (cases rule: merge_left_cases)
      case merged
      then have "a' = last (map fst L)" and "map fst L \<noteq> []" by simp_all
      then show ?thesis using last_in_set by metis
    qed simp
    then show ?thesis by auto
  qed
  moreover have "?g a = n \<or> a \<in> fst ` set (merge_in L (a, n) R)"
    using D(3) by (cases "a' = a") (auto simp: m)
  ultimately show ?thesis by blast
qed

section \<open>The operations on represented heaps\<close>

lemma heap_body_cong:
  assumes "heap_body h fl al"
    and "\<And>q. q \<in> fst ` (set fl \<union> set al) \<or> q = xStart h \<or> q = pxEnd h \<Longrightarrow>
      pxNextFreeBlock h' q = pxNextFreeBlock h q \<and> xBlockSize h' q = xBlockSize h q"
    and "pxEnd h' = pxEnd h" "ucHeap h' = ucHeap h" "xStart h' = xStart h"
      "xBlockAllocatedBit h' = xBlockAllocatedBit h"
  shows "heap_body h' fl al"
proof -
  have lo: "heap_lo h' = heap_lo h" using assms(4) by (simp add: heap_lo_def)
  have fr: "heap_frame h' = heap_frame h" using assms(3-6) lo by (simp add: heap_frame_def placed_def)
  have ok: "block_ok h' = block_ok h" using assms(3) lo by (simp add: block_ok_def fun_eq_iff)
  have ch: "chain (pxNextFreeBlock h') (xStart h) (map fst fl) (pxEnd h)
      = chain (pxNextFreeBlock h) (xStart h) (map fst fl) (pxEnd h)"
    using assms(2) by (intro chain_cong) auto
  have same: "pxNextFreeBlock h' (fst b) = pxNextFreeBlock h (fst b) \<and> xBlockSize h' (fst b) = xBlockSize h (fst b)"
    if "b \<in> set fl \<union> set al" for b
    using assms(2) that by blast
  have sz: "\<forall>b \<in> set fl. xBlockSize h' (fst b) = snd b"
    and al: "\<forall>b \<in> set al. xBlockSize h' (fst b) = snd b + 2 ^ 31 \<and> pxNextFreeBlock h' (fst b) = 0"
    using assms(1) same by (simp_all add: heap_body_def)
  show ?thesis
    using assms(1) sz al assms(2) [of "xStart h"] assms(2) [of "pxEnd h"]
    unfolding heap_body_def fr ok assms(3,5) ch by simp
qed

lemma heap_body_ok: "heap_body h fl al \<Longrightarrow> b \<in> set fl \<union> set al \<Longrightarrow> block_ok h b"
  by (simp add: heap_body_def)

lemma heap_body_frame: "heap_body h fl al \<Longrightarrow> heap_frame h"
  by (simp add: heap_body_def)

lemma block_ok_pos: "block_ok h b \<Longrightarrow> 0 < snd b"
  by (auto simp: block_ok_def)

text \<open>A block that is apart from all others shares no header address with them.\<close>

lemma apart_address:
  assumes "apart (a, n) (b, m)" and "0 < n" and "0 < m"
  shows "a \<noteq> b"
  using assms by (auto simp: apart_def)

lemma body_insert:
  assumes body: "heap_body h (L @ R) al" and ok: "block_ok h (a, n)" and sz: "xBlockSize h a = n"
    and left: "\<forall>b \<in> set L. fst b + snd b \<le> a" and right: "\<forall>b \<in> set R. a + n \<le> fst b"
    and free: "\<forall>y \<in> set al. apart (a, n) y"
  shows "\<exists>f g. prvInsertBlockIntoFreeList a h = Some (h\<lparr>pxNextFreeBlock := f, xBlockSize := g\<rparr>) \<and>
    heap_body (h\<lparr>pxNextFreeBlock := f, xBlockSize := g\<rparr>) (merge_in L (a, n) R) al \<and>
    (\<forall>q. q \<notin> insert a (fst ` set (L @ R)) \<longrightarrow> g q = xBlockSize h q) \<and>
    (\<forall>q. q \<notin> insert (xStart h) (insert a (fst ` set (L @ R))) \<longrightarrow> f q = pxNextFreeBlock h q) \<and> g a < 2 ^ 31"
proof -
  note fr = heap_body_frame [OF body]
  have ins: "insertable h L a n R"
    using body ok sz left right by (auto simp: insertable_def heap_body_def)
  note nodes = insertable_nodes [OF ins]
  obtain f g where fg: "prvInsertBlockIntoFreeList a h = Some (h\<lparr>pxNextFreeBlock := f, xBlockSize := g\<rparr>)"
    "chain f (xStart h) (map fst (merge_in L (a, n) R)) (pxEnd h)"
    "\<forall>b \<in> set (merge_in L (a, n) R). g (fst b) = snd b"
    "\<forall>q. q \<notin> insert a (fst ` set (L @ R)) \<longrightarrow> g q = xBlockSize h q"
    "\<forall>q. q \<notin> insert (xStart h) (insert a (fst ` set (L @ R))) \<longrightarrow> f q = pxNextFreeBlock h q"
    "g a = n \<or> a \<in> fst ` set (merge_in L (a, n) R)"
    using prvInsertBlockIntoFreeList_rep [OF ins] by blast
  let ?h = "h\<lparr>pxNextFreeBlock := f, xBlockSize := g\<rparr>"
  have al: "fst y \<notin> insert (xStart h) (insert a (fst ` set (L @ R)))" if y: "y \<in> set al" for y
  proof -
    have pos: "0 < snd b" if "block_ok h b" for b using that by (auto simp: block_ok_def)
    have "fst b \<noteq> fst y" if "b \<in> set (L @ R)" for b
      using body y that pos apart_address [of "fst b" "snd b" "fst y" "snd y"] by (auto simp: heap_body_def)
    moreover have "a \<noteq> fst y"
      using free y apart_address [of a n "fst y" "snd y"] pos [OF ok] pos heap_body_ok [OF body, of y] by auto
    moreover have "xStart h \<noteq> fst y"
      using block_bounds(4) [OF fr, of "fst y" "snd y"] heap_body_ok [OF body, of y] y by auto
    ultimately show ?thesis by (metis imageE insertE)
  qed
  have same: "heap_lo ?h = heap_lo h" "heap_frame ?h = heap_frame h" "block_ok ?h = block_ok h"
    by (simp_all add: heap_lo_def heap_frame_def placed_def block_ok_def fun_eq_iff)
  have "heap_body ?h (merge_in L (a, n) R) al"
    unfolding heap_body_def same
  proof (intro conjI)
    show "heap_frame h" by (rule fr)
    show "\<forall>b\<in>set (merge_in L (a, n) R) \<union> set al. block_ok h b"
      using merge_in_ok [of L a n R h] insertable_D(6) [OF ins] heap_body_ok [OF body] by blast
    show "sorted_wrt gap (merge_in L (a, n) R)"
      using insertable_D(2) [OF ins] insertable_left [OF ins] insertable_right [OF ins] block_bounds(7) [OF fr] ok
      by (intro merge_in_gap) fastforce+
    show "\<forall>x\<in>set (merge_in L (a, n) R). \<forall>y\<in>set al. apart x y"
    proof (intro ballI)
      fix x y assume x: "x \<in> set (merge_in L (a, n) R)" and y: "y \<in> set al"
      have "\<forall>b \<in> set (L @ (a, n) # R). apart b y" and "0 < snd y"
        using body free y block_ok_pos [of h y] by (auto simp: heap_body_def)
      with x show "apart x y" using merge_in_apart by blast
    qed
  qed (use body fg(2-5) nodes al in \<open>auto simp: heap_body_def\<close>)
  moreover have "g a < 2 ^ 31"
    using fg(6)
  proof
    assume "a \<in> fst ` set (merge_in L (a, n) R)"
    then obtain x where x: "x \<in> set (merge_in L (a, n) R)" "fst x = a" by blast
    then have "block_ok h (fst x, snd x)" using merge_in_ok [of L a n R h] insertable_D(6) [OF ins] by auto
    then show ?thesis using block_bounds(5) [OF fr] fg(3) x by metis
  qed (use block_bounds(5) [OF fr ok] in simp)
  ultimately show ?thesis using fg by blast
qed

subsection \<open>Initialisation\<close>

definition heap_end :: "heap4 \<Rightarrow> nat" where
  "heap_end h = ucHeap h + 16368 - (ucHeap h + 16368) mod 16"

lemma heap_lo_aligned: "ucHeap h mod 16 = 0 \<Longrightarrow> heap_lo h = ucHeap h"
  unfolding heap_lo_def by (metis add_0 add_diff_cancel_right' mod_add_left_eq mod_less numeral_less_iff
      semiring_norm(76) semiring_norm(78) semiring_norm(81))

lemma heap_end_bounds:
  "16 dvd heap_end h" "heap_end h \<le> ucHeap h + 16368" "ucHeap h + 16352 < heap_end h"
  using mod_less_divisor [of 16 "ucHeap h + 16368"] by (simp_all add: heap_end_def)

lemma prvHeapInit_eq:
  assumes p: "placed h"
  shows "prvHeapInit h = h\<lparr>
    pxNextFreeBlock := (pxNextFreeBlock h)(xStart h := heap_lo h, heap_end h := 0, heap_lo h := heap_end h),
    xBlockSize := (xBlockSize h)(xStart h := 0, heap_end h := 0, heap_lo h := heap_end h - heap_lo h),
    pxEnd := heap_end h, xFreeBytesRemaining := heap_end h - heap_lo h,
    xMinimumEverFreeBytesRemaining := heap_end h - heap_lo h, xBlockAllocatedBit := 2 ^ 31\<rparr>"
proof -
  let ?u = "ucHeap h"
  have u: "0 < ?u" "?u + 16384 < 4294967296" using p by (auto simp: placed_def)
  note lo = placed_lo [OF p] and en = heap_end_bounds [of h]
  have start: "(if ?u AND portBYTE_ALIGNMENT_MASK \<noteq> 0
      then (let ux = clear_bits (u32_add ?u (portBYTE_ALIGNMENT - 1)) portBYTE_ALIGNMENT_MASK
            in (ux, u32_sub configTOTAL_HEAP_SIZE (u32_sub ux ?u)))
      else (?u, configTOTAL_HEAP_SIZE)) = (heap_lo h, 16384 - (heap_lo h - ?u))"
  proof (cases "?u mod 16 = 0")
    case True
    then show ?thesis using heap_lo_aligned by simp
  next
    case False
    have "u32_add ?u 15 = ?u + 15" using u by (simp add: u32_add_small)
    moreover have "u32_sub (heap_lo h) ?u = heap_lo h - ?u" using lo u by (simp add: u32_sub_small)
    moreover have "u32_sub 16384 (heap_lo h - ?u) = 16384 - (heap_lo h - ?u)"
      by (rule u32_sub_small) (use lo in auto)
    ultimately show ?thesis using False by (simp add: heap_lo_def)
  qed
  have "heap_lo h + (16384 - (heap_lo h - ?u)) = ?u + 16384" using lo by linarith
  then have "u32_sub (u32_add (heap_lo h) (16384 - (heap_lo h - ?u))) 16 = ?u + 16368"
    using u by (simp add: u32_add_small u32_sub_small)
  then have fin: "clear_bits (u32_sub (u32_add (heap_lo h) (16384 - (heap_lo h - ?u))) xHeapStructSize)
      portBYTE_ALIGNMENT_MASK = heap_end h" by (simp add: heap_end_def)
  have "u32_sub (heap_end h) (heap_lo h) = heap_end h - heap_lo h" using lo en u by (simp add: u32_sub_small)
  then show ?thesis unfolding prvHeapInit_def start
    by (simp add: fin [simplified] Let_def push_bit_eq_mult)
qed

lemma prvHeapInit_rep:
  assumes p: "placed h"
  shows "heap_rep (prvHeapInit h) [(heap_lo h, heap_end h - heap_lo h)] []"
proof -
  note lo = placed_lo [OF p] and en = heap_end_bounds [of h]
  have ne: "heap_lo h < heap_end h" "xStart h \<noteq> heap_lo h" "xStart h \<noteq> heap_end h"
    using p lo en by (auto simp: placed_def)
  have lo': "heap_lo (prvHeapInit h) = heap_lo h" by (simp add: prvHeapInit_eq [OF p] heap_lo_def)
  have "heap_frame (prvHeapInit h)"
    using p en ne lo' by (simp add: heap_frame_def placed_def) (simp add: prvHeapInit_eq [OF p])
  then show ?thesis
    using p lo en ne lo'
    by (simp add: heap_rep_def heap_body_def block_ok_def) (simp add: prvHeapInit_eq [OF p] dvd_diff_nat)
qed

subsection \<open>Freeing a block\<close>

lemma sorted_gap_split:
  assumes "sorted_wrt gap fl" and "\<forall>b \<in> set fl. apart b (a, n) \<and> 0 < snd b" and "0 < n"
  shows "\<exists>L R. fl = L @ R \<and> (\<forall>b \<in> set L. fst b + snd b \<le> a) \<and> (\<forall>b \<in> set R. a + n \<le> fst b)"
  using assms
proof (induction fl)
  case Nil
  then show ?case by simp
next
  case (Cons b fl)
  then obtain L R where LR: "fl = L @ R" "\<forall>b \<in> set L. fst b + snd b \<le> a" "\<forall>b \<in> set R. a + n \<le> fst b"
    by auto
  show ?case
  proof (cases "fst b + snd b \<le> a")
    case True
    then show ?thesis using LR by (intro exI [of _ "b # L"] exI [of _ R]) auto
  next
    case False
    then have "a + n \<le> fst b" using Cons.prems(2) by (auto simp: apart_def)
    moreover have "\<forall>c \<in> set fl. fst b < fst c" using Cons.prems(1) by (fastforce simp: gap_def)
    ultimately show ?thesis by (intro exI [of _ "[]"] exI [of _ "b # fl"]) force
  qed
qed

lemma heap_body_apart_al:
  assumes "heap_body h fl (A @ (a, n) # B)"
  shows "heap_body h fl (A @ B)" and "\<forall>y \<in> set (A @ B). apart (a, n) y" and "\<forall>b \<in> set fl. apart b (a, n)"
    and "block_ok h (a, n)" and "xBlockSize h a = n + 2 ^ 31" and "pxNextFreeBlock h a = 0"
  using assms by (auto simp: heap_body_def sorted_wrt_append apart_def)

lemma heap_body_fresh:
  assumes body: "heap_body h fl al" and ok: "block_ok h (a, n)"
    and "\<forall>y \<in> set al. apart (a, n) y" and "\<forall>b \<in> set fl. apart b (a, n)"
  shows "a \<notin> fst ` (set fl \<union> set al)" and "a \<noteq> xStart h" and "a \<noteq> pxEnd h"
proof -
  have pos: "0 < snd b" if "b \<in> set fl \<union> set al" for b
    using heap_body_ok [OF body that] by (rule block_ok_pos)
  have "a \<noteq> fst b" if "b \<in> set fl \<union> set al" for b
    using that assms(3,4) pos [OF that] block_ok_pos [OF ok]
      apart_address [of a n "fst b" "snd b"] apart_address [of "fst b" "snd b" a n] by auto
  then show "a \<notin> fst ` (set fl \<union> set al)" by blast
  show "a \<noteq> xStart h" and "a \<noteq> pxEnd h"
    using block_bounds(2,4) [OF heap_body_frame [OF body] ok] by auto
qed

lemma vPortFree_rep:
  assumes rep: "heap_rep h fl (A @ (a, n) # B)"
  shows "\<exists>h' L R. fl = L @ R \<and> (\<forall>b \<in> set L. fst b + snd b \<le> a) \<and> (\<forall>b \<in> set R. a + n \<le> fst b) \<and>
    vPortFree (a + 16) h = Some h' \<and> heap_rep h' (merge_in L (a, n) R) (A @ B) \<and>
    xNumberOfSuccessfulFrees h' = u32_add (xNumberOfSuccessfulFrees h) 1 \<and>
    xMinimumEverFreeBytesRemaining h' = xMinimumEverFreeBytesRemaining h \<and> xBlockSize h' a < 2 ^ 31"
proof -
  have body: "heap_body h fl (A @ (a, n) # B)" using rep by (simp add: heap_rep_def)
  note al = heap_body_apart_al [OF body] and fr = heap_body_frame [OF body]
  note bnd = block_bounds [OF fr al(4)]
  have pos: "0 < snd b" if "b \<in> set fl" for b using heap_body_ok [OF body] block_ok_pos that by blast
  obtain L R where LR: "fl = L @ R" "\<forall>b \<in> set L. fst b + snd b \<le> a" "\<forall>b \<in> set R. a + n \<le> fst b"
    using sorted_gap_split [of fl a n] al(3) pos bnd(7) body by (auto simp: heap_body_def)
  define h2 where "h2 = (set_size a n h)\<lparr>xFreeBytesRemaining := bytes fl + n\<rparr>"
  have link: "u32_sub (a + 16) xHeapStructSize = a" using bnd(2,6) by (simp add: u32_sub_small)
  have bit: "xBlockAllocatedBit h = 2 ^ 31" using fr by (simp add: heap_frame_def)
  have "bytes fl + n \<le> pxEnd h" using rep by (auto simp: heap_rep_def)
  then have sum: "u32_add (bytes fl) n = bytes fl + n" using bnd(6) by (intro u32_add_small) linarith
  have free: "vPortFree (a + 16) h = map_option (\<lambda>h3. h3\<lparr>xNumberOfSuccessfulFrees :=
      u32_add (xNumberOfSuccessfulFrees h3) 1\<rparr>) (prvInsertBlockIntoFreeList a h2)"
  proof -
    have "xFreeBytesRemaining h = bytes fl" using rep by (simp add: heap_rep_def)
    then show ?thesis
      by (simp only: vPortFree_def link Let_def h2_def bit al(5,6) clear_bit_31 [OF bnd(5)]
          add_bit_31_and [OF bnd(5)] sum fun_upd_same heap4.simps) (simp add: sum)
  qed
  note fresh = heap_body_fresh [OF al(1,4,2,3)]
  have body2: "heap_body h2 (L @ R) (A @ B)"
  proof (rule heap_body_cong [of h])
    show "heap_body h (L @ R) (A @ B)" using al(1) LR(1) by simp
    fix q assume "q \<in> fst ` (set (L @ R) \<union> set (A @ B)) \<or> q = xStart h \<or> q = pxEnd h"
    then have "q \<noteq> a" using fresh LR(1) by metis
    then show "pxNextFreeBlock h2 q = pxNextFreeBlock h q \<and> xBlockSize h2 q = xBlockSize h q"
      by (simp add: h2_def)
  qed (simp_all add: h2_def)
  have "block_ok h2 (a, n)" using al(4) by (simp add: block_ok_def heap_lo_def h2_def)
  moreover have "xBlockSize h2 a = n" by (simp add: h2_def)
  ultimately obtain f g where fg: "prvInsertBlockIntoFreeList a h2 = Some (h2\<lparr>pxNextFreeBlock := f, xBlockSize := g\<rparr>)"
    "heap_body (h2\<lparr>pxNextFreeBlock := f, xBlockSize := g\<rparr>) (merge_in L (a, n) R) (A @ B)" "g a < 2 ^ 31"
    using body_insert [OF body2] LR(2,3) al(2) by blast
  let ?h = "h2\<lparr>pxNextFreeBlock := f, xBlockSize := g, xNumberOfSuccessfulFrees := u32_add (xNumberOfSuccessfulFrees h) 1\<rparr>"
  have "heap_body ?h (merge_in L (a, n) R) (A @ B)"
    by (rule heap_body_cong [OF fg(2)]) simp_all
  then have "heap_rep ?h (merge_in L (a, n) R) (A @ B)"
    using rep LR(1) by (simp add: heap_rep_def merge_in_total h2_def heap_lo_def)
  moreover have "vPortFree (a + 16) h = Some ?h" using free fg(1) by (simp add: h2_def)
  ultimately show ?thesis using LR fg(3) by (intro exI [of _ ?h] exI [of _ L] exI [of _ R]) (simp add: h2_def)
qed

subsection \<open>Allocating a block\<close>

lemma heap_body_fl:
  assumes body: "heap_body h (L @ (b, m) # R) al"
  shows "block_ok h (b, m)" "xBlockSize h b = m" "\<forall>y \<in> set al. apart (b, m) y"
    "\<forall>x \<in> set L. fst x + snd x < b" "\<forall>x \<in> set R. b + m < fst x" "\<forall>x \<in> set (L @ R). apart x (b, m)"
    "pxNextFreeBlock h (last (xStart h # map fst L)) = b"
    "pxNextFreeBlock h b = hd (map fst R @ [pxEnd h])"
proof -
  show "block_ok h (b, m)" "xBlockSize h b = m" "\<forall>y \<in> set al. apart (b, m) y"
    using body by (auto simp: heap_body_def)
  show L: "\<forall>x \<in> set L. fst x + snd x < b" and R: "\<forall>x \<in> set R. b + m < fst x"
    using body by (auto simp: heap_body_def sorted_wrt_append gap_def)
  show "\<forall>x \<in> set (L @ R). apart x (b, m)"
    using L R by (auto simp: apart_def less_imp_le)
  have "chain (pxNextFreeBlock h) (xStart h) (map fst L @ b # map fst R) (pxEnd h)"
    using body by (simp add: heap_body_def)
  then show "pxNextFreeBlock h (last (xStart h # map fst L)) = b"
    and "pxNextFreeBlock h b = hd (map fst R @ [pxEnd h])"
    using chain_split [of "pxNextFreeBlock h" "xStart h" "map fst L" "b # map fst R"] chain_next
    by (auto simp: chain_append)
qed

lemma last_of_front:
  assumes "distinct (p # xs @ y # ys)"
  shows "last (p # xs) \<noteq> y \<and> last (p # xs) \<notin> set ys"
proof -
  have "last (p # xs) \<in> set (p # xs)" by (rule last_in_set) simp
  then show ?thesis using assms by (auto simp del: last.simps last_in_set)
qed

lemma heap_body_unlink:
  assumes body: "heap_body h (L @ (b, m) # R) al"
  shows "heap_body (set_next (last (xStart h # map fst L)) (hd (map fst R @ [pxEnd h])) h) (L @ R) al"
proof -
  let ?it = "last (xStart h # map fst L)" and ?N = "pxNextFreeBlock h"
  let ?f = "?N(?it := hd (map fst R @ [pxEnd h]))"
  note fr = heap_body_frame [OF body]
  have pos: "block_ok h x" if "x \<in> set L \<union> set R \<union> set al \<union> {(b, m)}" for x
    using heap_body_ok [OF body, of x] that by auto
  have "distinct (map fst (L @ (b, m) # R))"
  proof (rule gap_distinct)
    show "sorted_wrt gap (L @ (b, m) # R)" using body unfolding heap_body_def by blast
    show "0 < n" if "(a, n) \<in> set (L @ (b, m) # R)" for a n
      using block_ok_pos [OF pos, of "(a, n)"] that by auto
  qed
  moreover have "xStart h \<noteq> fst x" if "x \<in> set (L @ (b, m) # R)" for x
    using block_bounds(4) [OF fr, of "fst x" "snd x"] pos [of x] that by auto
  then have "xStart h \<notin> set (map fst (L @ (b, m) # R))" by (metis imageE list.set_map)
  ultimately have dist: "distinct (xStart h # map fst L @ b # map fst R)" by simp
  have ch: "chain ?N (xStart h) (map fst L) b" and chR: "chain ?N b (map fst R) (pxEnd h)"
    using body by (simp_all add: heap_body_def chain_append)
  have it: "?it \<in> insert (xStart h) (set (map fst L))" using last_in_set [of "xStart h # map fst L"] by simp
  have itR: "?it \<notin> set (map fst R)" and itb: "?it \<noteq> b"
    using last_of_front [OF dist] by blast+
  have "chain ?f (xStart h) (map fst L) (hd (map fst R @ [pxEnd h]))"
    using dist by (intro chain_retarget [OF ch]) auto
  moreover have "chain ?f ?it (map fst R) (pxEnd h)"
  proof (rule chain_restart [OF chR])
    show "?f x = ?N x" if "x \<in> set (map fst R)" for x using itR that by (metis fun_upd_other)
  qed simp
  ultimately have chain: "chain ?f (xStart h) (map fst (L @ R)) (pxEnd h)"
    unfolding map_append by (rule chain_join)
  have al: "fst y \<noteq> ?it" if y: "y \<in> set al" for y
  proof -
    have "fst y \<noteq> fst x" if x: "x \<in> set L" for x
    proof -
      have "apart x y" using body x y by (auto simp: heap_body_def)
      then show ?thesis using block_ok_pos [OF pos, of x] block_ok_pos [OF pos, of y] x y
          apart_address [of "fst x" "snd x" "fst y" "snd y"] by auto
    qed
    moreover have "fst y \<noteq> xStart h" using block_bounds(4) [OF fr, of "fst y" "snd y"] pos [of y] y by auto
    ultimately show ?thesis using it by auto
  qed
  have "fst x \<noteq> pxEnd h" if "x \<in> set L" for x
    using block_bounds(2) [OF fr, of "fst x" "snd x"] pos [of x] that by auto
  then have "pxEnd h \<notin> insert (xStart h) (set (map fst L))"
    using heap_frame_start [OF fr] by (metis imageE insertE list.set_map)
  then have "?it \<noteq> pxEnd h" using it by metis
  then show ?thesis
    using body chain al
    by (auto simp: heap_body_def sorted_wrt_append heap_frame_def placed_def heap_lo_def block_ok_def)
qed

lemma heap_body_alloc:
  assumes body: "heap_body h fl al" and ok: "block_ok h (b, w)"
    and al: "\<forall>y \<in> set al. apart (b, w) y" and fl: "\<forall>x \<in> set fl. apart x (b, w)"
  shows "heap_body (set_next b 0 (set_size b (w + 2 ^ 31) h)) fl ((b, w) # al)"
proof -
  let ?h = "set_next b 0 (set_size b (w + 2 ^ 31) h)"
  note fresh = heap_body_fresh [OF body ok al fl]
  have "heap_body ?h fl al"
  proof (rule heap_body_cong [OF body])
    fix q assume "q \<in> fst ` (set fl \<union> set al) \<or> q = xStart h \<or> q = pxEnd h"
    then have "q \<noteq> b" using fresh by metis
    then show "pxNextFreeBlock ?h q = pxNextFreeBlock h q \<and> xBlockSize ?h q = xBlockSize h q" by simp
  qed simp_all
  moreover have "block_ok ?h (b, w)" using ok by (simp add: block_ok_def heap_lo_def)
  ultimately show ?thesis using al fl by (auto simp: heap_body_def)
qed

text \<open>What is left of the block \<open>(b, m)\<close> after \<open>w\<close> bytes are taken, and how many are taken.\<close>

definition remainder :: "nat \<Rightarrow> nat \<Rightarrow> nat \<Rightarrow> (nat \<times> nat) list" where
  "remainder b m w = (if m - w > heapMINIMUM_BLOCK_SIZE then [(b + w, m - w)] else [])"

definition taken :: "nat \<Rightarrow> nat \<Rightarrow> nat" where
  "taken m w = (if m - w > heapMINIMUM_BLOCK_SIZE then w else m)"

lemma remainder_taken:
  assumes "w \<le> m"
  shows "taken m w + bytes (remainder b m w) = m" "w \<le> taken m w" "taken m w \<le> m" "taken m w \<le> w + 32"
  using assms by (auto simp: remainder_def taken_def)

lemma merge_in_none:
  assumes "\<forall>x \<in> set L. fst x + snd x < a" and "\<forall>x \<in> set R. a + n < fst x"
  shows "merge_in L (a, n) R = L @ (a, n) # R"
proof -
  have "L \<noteq> [] \<Longrightarrow> fst (last L) + snd (last L) \<noteq> a" using assms(1) by fastforce
  moreover have "R \<noteq> [] \<Longrightarrow> fst (hd R) \<noteq> a + n" using assms(2) by (metis less_irrefl list.set_sel(1))
  ultimately show ?thesis by (auto simp: merge_defs)
qed

lemma alloc_split:
  assumes body: "heap_body h (L @ R) al" and ok: "block_ok h (b, m)"
    and al: "\<forall>y \<in> set al. apart (b, m) y" and fl: "\<forall>x \<in> set (L @ R). apart x (b, m)"
    and L: "\<forall>x \<in> set L. fst x + snd x < b" and R: "\<forall>x \<in> set R. b + m < fst x"
    and w: "0 < w" "w < m" "16 dvd w"
  defines "h3 \<equiv> set_size b w (set_size (b + w) (m - w) h)"
  shows "\<exists>f g. prvInsertBlockIntoFreeList (b + w) h3 = Some (h\<lparr>pxNextFreeBlock := f, xBlockSize := g\<rparr>) \<and>
    heap_body (h\<lparr>pxNextFreeBlock := f, xBlockSize := g\<rparr>) (L @ (b + w, m - w) # R) al \<and> g b = w"
proof -
  have ok1: "block_ok h (b, w)" and ok2: "block_ok h (b + w, m - w)"
    using ok w by (auto simp: block_ok_def)
  have al1: "\<forall>y \<in> set al. apart (b, w) y" and al2: "\<forall>y \<in> set al. apart (b + w, m - w) y"
    using al w by (auto simp: apart_iff dest: bspec)
  have fl1: "\<forall>x \<in> set (L @ R). apart x (b, w)" and fl2: "\<forall>x \<in> set (L @ R). apart x (b + w, m - w)"
    using fl w by (auto simp: apart_iff dest: bspec)
  note fr1 = heap_body_fresh [OF body ok1 al1 fl1] and fr2 = heap_body_fresh [OF body ok2 al2 fl2]
  have body3: "heap_body h3 (L @ R) al"
  proof (rule heap_body_cong [OF body])
    fix q assume "q \<in> fst ` (set (L @ R) \<union> set al) \<or> q = xStart h \<or> q = pxEnd h"
    then have "q \<noteq> b" and "q \<noteq> b + w" using fr1 fr2 by metis+
    then show "pxNextFreeBlock h3 q = pxNextFreeBlock h q \<and> xBlockSize h3 q = xBlockSize h q"
      by (simp add: h3_def)
  qed (simp_all add: h3_def)
  have m: "merge_in L (b + w, m - w) R = L @ (b + w, m - w) # R"
    using L R w by (intro merge_in_none) auto
  have "block_ok h3 = block_ok h" by (simp add: block_ok_def heap_lo_def h3_def)
  then have "block_ok h3 (b + w, m - w)" using ok2 by simp
  moreover have "xBlockSize h3 (b + w) = m - w" using w by (simp add: h3_def)
  moreover have "\<forall>x \<in> set L. fst x + snd x \<le> b + w" using L by auto
  moreover have "\<forall>x \<in> set R. b + w + (m - w) \<le> fst x" using R w by auto
  ultimately obtain f g where
    fg: "prvInsertBlockIntoFreeList (b + w) h3 = Some (h3\<lparr>pxNextFreeBlock := f, xBlockSize := g\<rparr>)"
      "heap_body (h3\<lparr>pxNextFreeBlock := f, xBlockSize := g\<rparr>) (L @ (b + w, m - w) # R) al"
      "\<forall>q. q \<notin> insert (b + w) (fst ` set (L @ R)) \<longrightarrow> g q = xBlockSize h3 q"
    using body_insert [OF body3 _ _ _ _ al2] m by (metis (no_types, lifting))
  have "b \<notin> insert (b + w) (fst ` set (L @ R))" using fr1(1) w(1) by auto
  then have "g b = w" using fg(3) by (simp add: h3_def)
  then show ?thesis using fg(1,2) by (auto simp: h3_def)
qed

lemma heap_body_counters:
  "heap_body (h\<lparr>xFreeBytesRemaining := x\<rparr>) fl al = heap_body h fl al"
  "heap_body (h\<lparr>xMinimumEverFreeBytesRemaining := x\<rparr>) fl al = heap_body h fl al"
  "heap_body (h\<lparr>xNumberOfSuccessfulAllocations := x\<rparr>) fl al = heap_body h fl al"
  by (simp_all add: heap_body_def heap_frame_def placed_def heap_lo_def block_ok_def)

lemma alloc_unlinked:
  assumes body: "heap_body h (L @ (b, m) # R) al" and w: "0 < w" "w \<le> m" "16 dvd w"
  defines "h1 \<equiv> set_next (last (xStart h # map fst L)) (pxNextFreeBlock h b) h"
  shows "\<exists>f g. split_block w b h1 = Some (h\<lparr>pxNextFreeBlock := f, xBlockSize := g\<rparr>) \<and>
    heap_body (h\<lparr>pxNextFreeBlock := f, xBlockSize := g\<rparr>) (L @ remainder b m w @ R) al \<and> g b = taken m w"
proof -
  note fl = heap_body_fl [OF body] and fr = heap_body_frame [OF body]
  have body1: "heap_body h1 (L @ R) al" using heap_body_unlink [OF body] fl(8) by (simp add: h1_def)
  have ok1: "block_ok h1 (b, m)" using fl(1) by (simp add: block_ok_def heap_lo_def h1_def)
  have sz: "xBlockSize h1 b = m" using fl(2) by (simp add: h1_def)
  note bnd = block_bounds [OF fr fl(1)]
  have sub: "u32_sub m w = m - w" using bnd(5) w by (intro u32_sub_small) auto
  have add: "u32_add b w = b + w" using bnd(3) w by (intro u32_add_small) auto
  have algn: "(b + w) mod 16 = 0" using bnd(8) w(3) by (simp add: dvd_imp_mod_0)
  show ?thesis
  proof (cases "32 < m - w")
    case True
    obtain f g where fg: "prvInsertBlockIntoFreeList (b + w) (set_size b w (set_size (b + w) (m - w) h1)) =
        Some (h1\<lparr>pxNextFreeBlock := f, xBlockSize := g\<rparr>)"
      "heap_body (h1\<lparr>pxNextFreeBlock := f, xBlockSize := g\<rparr>) (L @ (b + w, m - w) # R) al" "g b = w"
      using alloc_split [OF body1 ok1 fl(3) fl(6) fl(4,5) w(1) _ w(3)] True by fastforce
    have "h1\<lparr>pxNextFreeBlock := f, xBlockSize := g\<rparr> = h\<lparr>pxNextFreeBlock := f, xBlockSize := g\<rparr>"
      by (simp add: h1_def)
    then show ?thesis
      using fg True by (intro exI [of _ f] exI [of _ g]) (simp add: split_block_def sz sub add algn remainder_def taken_def)
  next
    case False
    have "h1 = h\<lparr>pxNextFreeBlock := pxNextFreeBlock h1, xBlockSize := xBlockSize h1\<rparr>" by (simp add: h1_def)
    then show ?thesis
      using False body1 sz by (intro exI [of _ "pxNextFreeBlock h1"] exI [of _ "xBlockSize h1"])
        (simp add: split_block_def sub remainder_def taken_def)
  qed
qed

lemma take_block_rep:
  assumes rep: "heap_rep h (L @ (b, m) # R) al" and w: "0 < w" "w \<le> m" "16 dvd w"
  shows "\<exists>h'. take_block w (last (xStart h # map fst L)) b h = Some (b + 16, h') \<and>
    heap_rep h' (L @ remainder b m w @ R) ((b, taken m w) # al) \<and>
    xNumberOfSuccessfulAllocations h' = u32_add (xNumberOfSuccessfulAllocations h) 1 \<and>
    xMinimumEverFreeBytesRemaining h' =
      min (xMinimumEverFreeBytesRemaining h) (xFreeBytesRemaining h - taken m w)"
proof -
  have body: "heap_body h (L @ (b, m) # R) al" using rep by (simp add: heap_rep_def)
  note fl = heap_body_fl [OF body] and fr = heap_body_frame [OF body]
  note bnd = block_bounds [OF fr fl(1)] and rt = remainder_taken [OF w(2)]
  obtain f g where fg: "split_block w b (set_next (last (xStart h # map fst L)) (pxNextFreeBlock h b) h) =
      Some (h\<lparr>pxNextFreeBlock := f, xBlockSize := g\<rparr>)"
    "heap_body (h\<lparr>pxNextFreeBlock := f, xBlockSize := g\<rparr>) (L @ remainder b m w @ R) al" "g b = taken m w"
    using alloc_unlinked [OF body w] by blast
  let ?k = "taken m w" and ?h4 = "h\<lparr>pxNextFreeBlock := f, xBlockSize := g\<rparr>"
  let ?b = "set_next b 0 (set_size b (?k + 2 ^ 31) ?h4)"
  have free: "xFreeBytesRemaining h = bytes L + m + bytes R" and tot: "bytes L + m + bytes R \<le> pxEnd h"
    and mn: "xMinimumEverFreeBytesRemaining h \<le> xFreeBytesRemaining h"
    using rep by (auto simp: heap_rep_def)
  have bit: "xBlockAllocatedBit h = 2 ^ 31" using fr by (simp add: heap_frame_def)
  have k: "?k < 2 ^ 31" using rt(3) bnd(5) by linarith
  have ok: "block_ok ?h4 (b, ?k)" using fl(1) w rt(2,3) by (auto simp: block_ok_def heap_lo_def taken_def)
  have alk: "\<forall>y \<in> set al. apart (b, ?k) y" using fl(3) rt(3) by (auto simp: apart_iff dest: bspec)
  have flk: "\<forall>x \<in> set (L @ remainder b m w @ R). apart x (b, ?k)"
    using fl(4,5) rt(3) by (auto simp: apart_iff remainder_def taken_def)
  have body': "heap_body ?b (L @ remainder b m w @ R) ((b, ?k) # al)"
    by (rule heap_body_alloc [OF fg(2) ok alk flk])
  have add: "u32_add b 16 = b + 16" using bnd by (auto intro!: u32_add_small)
  have sub: "u32_sub (xFreeBytesRemaining h) ?k = xFreeBytesRemaining h - ?k"
    using bnd(5,6) rt(3) free tot by (auto intro!: u32_sub_small)
  let ?r = "xFreeBytesRemaining h - ?k"
  let ?h' = "?b\<lparr>xFreeBytesRemaining := ?r,
    xMinimumEverFreeBytesRemaining := min (xMinimumEverFreeBytesRemaining h) ?r,
    xNumberOfSuccessfulAllocations := u32_add (xNumberOfSuccessfulAllocations h) 1\<rparr>"
  have "heap_body ?h' (L @ remainder b m w @ R) ((b, ?k) # al)"
    using body' by (simp only: heap_body_counters)
  then have "heap_rep ?h' (L @ remainder b m w @ R) ((b, ?k) # al)"
    using rep rt(1) [of b] mn by (auto simp: heap_rep_def heap_lo_def)
  moreover have "take_block w (last (xStart h # map fst L)) b h = Some (b + 16, ?h')"
  proof -
    have "?k OR 2147483648 = ?k + 2147483648" using or_bit_31 [OF k] by simp
    then show ?thesis
      by (simp add: take_block_def Let_def fg(1) fl(7) add bit fg(3) sub min_def not_less del: last.simps)
  qed
  ultimately show ?thesis by (intro exI [of _ ?h']) simp
qed

section \<open>The allocator as a specification on block lists\<close>

fun take_first :: "nat \<Rightarrow> (nat \<times> nat) list \<Rightarrow> ((nat \<times> nat) \<times> (nat \<times> nat) list) option" where
  "take_first w [] = None"
| "take_first w ((b, m) # R) =
     (if w \<le> m then Some ((b, taken m w), remainder b m w @ R)
      else map_option (\<lambda>(x, R'). (x, (b, m) # R')) (take_first w R))"

definition spec_malloc ::
  "nat \<Rightarrow> (nat \<times> nat) list \<Rightarrow> (nat \<times> nat) list \<Rightarrow> nat \<times> (nat \<times> nat) list \<times> (nat \<times> nat) list" where
  "spec_malloc w fl al =
     (if w = 0 \<or> 2 ^ 31 \<le> w then (0, fl, al)
      else (case take_first (adjusted_size w) fl of
              None \<Rightarrow> (0, fl, al)
            | Some (bk, fl') \<Rightarrow> (fst bk + xHeapStructSize, fl', bk # al)))"

definition spec_free :: "nat \<times> nat \<Rightarrow> (nat \<times> nat) list \<Rightarrow> (nat \<times> nat) list" where
  "spec_free b fl = merge_in (takeWhile (\<lambda>x. fst x < fst b) fl) b (dropWhile (\<lambda>x. fst x < fst b) fl)"

lemma take_first_None: "take_first w fl = None \<longleftrightarrow> (\<forall>x \<in> set fl. snd x < w)"
  by (induction w fl rule: take_first.induct) auto

lemma take_first_Some:
  "take_first w fl = Some (bk, fl') \<Longrightarrow> \<exists>L b m R. fl = L @ (b, m) # R \<and> (\<forall>x \<in> set L. snd x < w) \<and> w \<le> m \<and>
     bk = (b, taken m w) \<and> fl' = L @ remainder b m w @ R"
proof (induction w fl arbitrary: fl' rule: take_first.induct)
  case (2 w b m R)
  show ?case
  proof (cases "w \<le> m")
    case True
    then show ?thesis using 2(2) by (intro exI [of _ "[]"]) auto
  next
    case False
    then obtain R' where R': "take_first w R = Some (bk, R')" "fl' = (b, m) # R'" using 2(2) by auto
    then obtain L c k S where "R = L @ (c, k) # S" "\<forall>x \<in> set L. snd x < w" "w \<le> k"
        "bk = (c, taken k w)" "R' = L @ remainder c k w @ S"
      using 2(1) [OF False] by metis
    then show ?thesis using False R'(2)
      by (intro exI [of _ "(b, m) # L"] exI [of _ c] exI [of _ k] exI [of _ S]) auto
  qed
qed simp

lemma spec_malloc_Some:
  assumes "fst (spec_malloc w fl al) \<noteq> 0"
  obtains L b m R where "fl = L @ (b, m) # R" "adjusted_size w \<le> m" "0 < w" "w < 2 ^ 31"
    "spec_malloc w fl al =
       (b + 16, L @ remainder b m (adjusted_size w) @ R, (b, taken m (adjusted_size w)) # al)"
proof -
  obtain bk fl' where t: "take_first (adjusted_size w) fl = Some (bk, fl')"
    and sp: "spec_malloc w fl al = (fst bk + 16, fl', bk # al)" and w: "0 < w" "w < 2 ^ 31"
    using assms by (auto simp: spec_malloc_def split: option.splits if_splits)
  show ?thesis using take_first_Some [OF t] sp w that by auto
qed

lemma heap_rep_init: "heap_rep h fl al \<Longrightarrow> pxEnd h \<noteq> 0 \<and> xBlockAllocatedBit h = 2 ^ 31 \<and>
    pxNextFreeBlock h (pxEnd h) = 0 \<and> chain (pxNextFreeBlock h) (xStart h) (map fst fl) (pxEnd h) \<and>
    xFreeBytesRemaining h = bytes fl"
  using heap_frame_start [of h] by (auto simp: heap_rep_def heap_body_def heap_frame_def)

lemma and_bit_31_iff:
  assumes "w < 2 ^ 32"
  shows "(w::nat) AND 2 ^ 31 = 0 \<longleftrightarrow> w < 2 ^ 31"
proof
  assume z: "w AND 2 ^ 31 = 0"
  show "w < 2 ^ 31"
  proof (rule ccontr)
    assume "\<not> w < 2 ^ 31"
    then have "w = (w - 2 ^ 31) + 2 ^ 31" and "w - 2 ^ 31 < 2 ^ 31" using assms by simp_all
    then have "w AND 2 ^ 31 = 2 ^ 31" using add_bit_31_and by metis
    then show False using z by simp
  qed
qed (rule and_bit_31)

lemma pvPortMalloc_rep:
  assumes rep: "heap_rep h fl al" and w: "w < 2 ^ 32"
  shows "\<exists>h'. pvPortMalloc w h = Some (fst (spec_malloc w fl al), h') \<and>
    heap_rep h' (fst (snd (spec_malloc w fl al))) (snd (snd (spec_malloc w fl al))) \<and>
    (fst (spec_malloc w fl al) = 0 \<longrightarrow> h' = h)"
proof -
  note init = heap_rep_init [OF rep]
  have body: "heap_body h fl al" using rep by (simp add: heap_rep_def)
  note fr = heap_body_frame [OF body]
  let ?a = "adjusted_size w"
  have nz: "0 \<notin> set (map fst fl @ [pxEnd h])"
  proof -
    have "fst x \<noteq> 0" if "x \<in> set fl" for x
      using block_bounds(1) [OF fr, of "fst x" "snd x"] heap_body_ok [OF body, of x] that by auto
    then have "0 \<notin> set (map fst fl)" by (metis imageE list.set_map)
    then show ?thesis using init by auto
  qed
  have none: "pvPortMalloc w h = Some (0, h)" if "\<not> (0 < w \<and> w < 2 ^ 31)"
    using that and_bit_31_iff [OF w] init by (auto simp: pvPortMalloc_def adjusted_size_def)
  show ?thesis
  proof (cases "0 < w \<and> w < 2 ^ 31")
    case False
    then have "spec_malloc w fl al = (0, fl, al)" by (auto simp: spec_malloc_def)
    then show ?thesis using none [OF False] rep by simp
  next
    case True
    note ad = adjusted_size_props [of w]
    have pos: "0 < ?a" using ad(2) True by linarith
    have bit: "w AND xBlockAllocatedBit h = 0" using True init by (metis and_bit_31)
    have run: "pvPortMalloc w h = Option.bind (if ?a \<le> bytes fl
        then Option.bind (first_fit h ?a (xStart h) (pxNextFreeBlock h (xStart h)))
               (\<lambda>(p, b). if b \<noteq> pxEnd h then take_block ?a p b h else Some (0, h))
        else Some (0, h)) (\<lambda>(pv, h'). if pv AND portBYTE_ALIGNMENT_MASK = 0 then Some (pv, h') else None)"
      using init pos bit by (simp add: pvPortMalloc_def Let_def)
    show ?thesis
    proof (cases "take_first ?a fl")
      case None
      then have small: "\<forall>x \<in> set fl. snd x < ?a" by (simp add: take_first_None)
      have sizes: "\<forall>x \<in> set (map fst fl). xBlockSize h x < ?a"
        using small body by (auto simp: heap_body_def dest: bspec)
      have "chain (pxNextFreeBlock h) (xStart h) (map fst fl @ pxEnd h # []) 0"
        using init by (simp add: chain_append)
      then have "first_fit h ?a (xStart h) (pxNextFreeBlock h (xStart h)) =
          Some (last (xStart h # map fst fl), pxEnd h)"
        using sizes nz init by (intro first_fit_skip) auto
      then have "pvPortMalloc w h = Some (0, h)" by (simp add: run del: last.simps)
      moreover have "spec_malloc w fl al = (0, fl, al)" using None by (simp add: spec_malloc_def)
      ultimately show ?thesis using rep by simp
    next
      case (Some r)
      then obtain L b m R where r: "fl = L @ (b, m) # R" "\<forall>x \<in> set L. snd x < ?a" "?a \<le> m"
          "r = ((b, taken m ?a), L @ remainder b m ?a @ R)"
        using take_first_Some [of ?a fl "fst r" "snd r"] by (metis prod.collapse)
      note bl = heap_body_fl [OF body [unfolded r(1)]]
      note bnd = block_bounds [OF fr bl(1)]
      have sizes: "\<forall>x \<in> set (map fst L). xBlockSize h x < ?a"
        using r(1,2) body by (auto simp: heap_body_def dest: bspec)
      have "first_fit h ?a (xStart h) (pxNextFreeBlock h (xStart h)) = Some (last (xStart h # map fst L), b)"
        using sizes nz init r(1,3) bl(2) by (intro first_fit_skip [where ys = "map fst R" and e = "pxEnd h"]) auto
      moreover have "?a \<le> bytes fl" using r(1,3) by simp
      ultimately have run': "pvPortMalloc w h = Option.bind (take_block ?a (last (xStart h # map fst L)) b h)
          (\<lambda>(pv, h'). if pv AND portBYTE_ALIGNMENT_MASK = 0 then Some (pv, h') else None)"
        using bnd(2) by (simp add: run del: last.simps)
      obtain h' where h': "take_block ?a (last (xStart h # map fst L)) b h = Some (b + 16, h')"
          "heap_rep h' (L @ remainder b m ?a @ R) ((b, taken m ?a) # al)"
        using take_block_rep [OF rep [unfolded r(1)] pos r(3)] ad(1) True by auto
      have "(b + 16) mod 16 = 0" using bnd(8) by auto
      then have "pvPortMalloc w h = Some (b + 16, h')" by (simp add: run' h'(1) del: last.simps)
      moreover have "spec_malloc w fl al = (b + 16, L @ remainder b m ?a @ R, (b, taken m ?a) # al)"
        using Some r(4) True by (simp add: spec_malloc_def)
      ultimately show ?thesis using h'(2) by simp
    qed
  qed
qed

lemma split_at_address:
  assumes "\<forall>x \<in> set L. fst x < a" and "\<forall>x \<in> set R. \<not> fst x < a"
  shows "takeWhile (\<lambda>x. fst x < a) (L @ R) = L" and "dropWhile (\<lambda>x. fst x < a) (L @ R) = R"
  using assms by (cases R; simp add: takeWhile_append2 dropWhile_append2)+

lemma vPortFree_spec:
  assumes rep: "heap_rep h fl (A @ b # B)"
  shows "\<exists>h'. vPortFree (fst b + 16) h = Some h' \<and> heap_rep h' (spec_free b fl) (A @ B) \<and>
    xMinimumEverFreeBytesRemaining h' = xMinimumEverFreeBytesRemaining h \<and> xBlockSize h' (fst b) < 2 ^ 31"
proof -
  obtain a n where b: "b = (a, n)" by (cases b)
  obtain h' L R where r: "fl = L @ R" "\<forall>x \<in> set L. fst x + snd x \<le> a" "\<forall>x \<in> set R. a + n \<le> fst x"
      "vPortFree (a + 16) h = Some h'" "heap_rep h' (merge_in L (a, n) R) (A @ B)"
      "xMinimumEverFreeBytesRemaining h' = xMinimumEverFreeBytesRemaining h" "xBlockSize h' a < 2 ^ 31"
    using vPortFree_rep [OF rep [unfolded b]] by blast
  have pos: "0 < snd x" if "x \<in> set fl" for x
    using rep that heap_body_ok [of h fl "A @ b # B" x] block_ok_pos by (auto simp: heap_rep_def)
  have "\<forall>x \<in> set L. fst x < a" using r(1,2) pos by fastforce
  moreover have "\<forall>x \<in> set R. \<not> fst x < a" using r(3) by auto
  ultimately have "spec_free b fl = merge_in L b R"
    using split_at_address [of L a R] r(1) by (simp add: spec_free_def b)
  then show ?thesis using r b by auto
qed

subsection \<open>The heap as an allocator\<close>

text \<open>
  The areas in use are what lies behind the headers of the allocated blocks. Before the first
  request the heap is not initialised.
\<close>

definition heap4_live :: "heap4 \<Rightarrow> (nat \<times> nat) list \<Rightarrow> bool" where
  "heap4_live h A \<longleftrightarrow> (\<exists>fl al. heap_rep h fl al \<and> A = map (\<lambda>b. (fst b + 16, snd b - 16)) al) \<or>
     pxEnd h = 0 \<and> placed h \<and> A = []"

lemma heap4_liveI: "heap_rep h fl al \<Longrightarrow> A = map (\<lambda>b. (fst b + 16, snd b - 16)) al \<Longrightarrow> heap4_live h A"
  unfolding heap4_live_def by blast

lemma heap_rep_block:
  assumes "heap_rep h fl al" and "x \<in> set fl \<union> set al"
  shows "16 dvd fst x" "16 \<le> snd x" "block_ok h x"
proof -
  have "heap_body h fl al" using assms(1) by (simp add: heap_rep_def)
  then show ok: "block_ok h x" using assms(2) by (rule heap_body_ok)
  then show "16 dvd fst x" "16 \<le> snd x" by (auto simp: block_ok_def dvd_imp_le)
qed

lemma pvPortMalloc_uninitialised:
  assumes "pxEnd h = 0" and p: "placed h"
  shows "pvPortMalloc w h = pvPortMalloc w (prvHeapInit h)"
proof -
  have "pxEnd (prvHeapInit h) \<noteq> 0" using heap_rep_init [OF prvHeapInit_rep [OF p]] by simp
  then show ?thesis using assms(1) by (simp add: pvPortMalloc_def)
qed

lemma pvPortMalloc_live:
  assumes live: "heap4_live h A" and w: "w < 2 ^ 32"
  shows "\<exists>p h'. pvPortMalloc w h = Some (p, h') \<and>
    (p = 0 \<and> heap4_live h' A \<or> p \<noteq> 0 \<and> (\<exists>n \<ge> w. heap4_live h' ((p, n) # A)))"
proof -
  obtain g fl al where g: "pvPortMalloc w h = pvPortMalloc w g" "heap_rep g fl al"
      "A = map (\<lambda>b. (fst b + 16, snd b - 16)) al"
    using live pvPortMalloc_uninitialised prvHeapInit_rep by (fastforce simp: heap4_live_def)
  obtain h' where h': "pvPortMalloc w g = Some (fst (spec_malloc w fl al), h')"
      "heap_rep h' (fst (snd (spec_malloc w fl al))) (snd (snd (spec_malloc w fl al)))"
    using pvPortMalloc_rep [OF g(2) w] by blast
  show ?thesis
  proof (cases "fst (spec_malloc w fl al) = 0")
    case True
    then have "snd (snd (spec_malloc w fl al)) = al"
      by (auto simp: spec_malloc_def split: option.splits if_splits)
    then have "heap4_live h' A" using heap4_liveI h'(2) g(3) by metis
    then show ?thesis using True h'(1) g(1) by simp
  next
    case False
    then obtain L b m R where t: "adjusted_size w \<le> m" "0 < w" "w < 2 ^ 31" and
      sp: "spec_malloc w fl al = (b + 16, L @ remainder b m (adjusted_size w) @ R, (b, taken m (adjusted_size w)) # al)"
      by (rule spec_malloc_Some)
    have "w \<le> taken m (adjusted_size w) - 16"
      using remainder_taken(2) [OF t(1)] adjusted_size_props(2) [OF t(2,3)] by linarith
    moreover have "heap4_live h' ((b + 16, taken m (adjusted_size w) - 16) # A)"
      by (rule heap4_liveI [of _ _ "(b, taken m (adjusted_size w)) # al"]) (use h'(2) g(3) sp in simp_all)
    ultimately show ?thesis using h'(1) g(1) sp by auto
  qed
qed

lemma vPortFree_live:
  assumes live: "heap4_live h (A @ (p, n) # B)"
  shows "\<exists>h'. vPortFree p h = Some h' \<and> heap4_live h' (A @ B)"
proof -
  obtain fl al where r: "heap_rep h fl al" "A @ (p, n) # B = map (\<lambda>b. (fst b + 16, snd b - 16)) al"
    using live by (auto simp: heap4_live_def)
  then obtain C b D where al: "al = C @ b # D" "A = map (\<lambda>b. (fst b + 16, snd b - 16)) C" "p = fst b + 16"
      "B = map (\<lambda>b. (fst b + 16, snd b - 16)) D"
    by (auto simp: append_eq_map_conv Cons_eq_map_conv)
  obtain h' where h': "vPortFree (fst b + 16) h = Some h'" "heap_rep h' (spec_free b fl) (C @ D)"
    using vPortFree_spec r(1) al(1) by blast
  have "heap4_live h' (A @ B)" by (rule heap4_liveI [OF h'(2)]) (simp only: al map_append)
  then show ?thesis using h'(1) al(3) by simp
qed

lemma heap4_live_apart:
  assumes "heap4_live h A"
  shows "sorted_wrt apart A"
proof (cases "A = []")
  case False
  then obtain fl al where r: "heap_rep h fl al" and A: "A = map (\<lambda>b. (fst b + 16, snd b - 16)) al"
    using assms by (auto simp: heap4_live_def)
  have "16 \<le> snd x" if "x \<in> set al" for x
    using heap_rep_block(2) [OF r] that by blast
  moreover have "sorted_wrt apart al" using r by (simp add: heap_rep_def heap_body_def)
  ultimately have "sorted_wrt (\<lambda>x y. apart (fst x + 16, snd x - 16) (fst y + 16, snd y - 16)) al"
    by (rule_tac sorted_wrt_mono_rel [of _ apart]) (fastforce simp: apart_iff)+
  then show ?thesis by (simp add: A sorted_wrt_map)
qed simp

lemma heap4_live_aligned: "heap4_live h A \<Longrightarrow> (p, n) \<in> set A \<Longrightarrow> p mod 16 = 0"
  using heap_rep_block(1) by (fastforce simp: heap4_live_def)

interpretation heap4: allocator "\<lambda>w :: u32. pvPortMalloc (unat w)" vPortFree heap4_live 16
proof unfold_locales
  show "\<exists>p s'. pvPortMalloc (unat w) s = Some (p, s') \<and> (p = 0 \<and> heap4_live s' A \<or> p \<noteq> 0 \<and> (\<exists>n \<ge> unat w. heap4_live s' ((p, n) # A)))"
    if "heap4_live s A" for s A and w :: u32
    using pvPortMalloc_live [OF that, of "unat w"] unsigned_less [of w] by simp
qed (use vPortFree_live heap4_live_apart heap4_live_aligned in blast)+

section \<open>Properties\<close>

lemma spec_malloc_free:
  assumes gap: "sorted_wrt gap (L @ (b, m) # R)" and "w \<le> m" "0 < w"
  shows "spec_free (b, taken m w) (L @ remainder b m w @ R) = L @ (b, m) # R"
proof -
  have L: "\<forall>x \<in> set L. fst x + snd x < b" and R: "\<forall>x \<in> set R. b + m < fst x"
    using gap by (auto simp: sorted_wrt_append gap_def)
  have "\<forall>x \<in> set L. fst x < b" using L by auto
  moreover have "\<forall>x \<in> set (remainder b m w @ R). \<not> fst x < b"
    using R assms(2) by (auto simp: remainder_def)
  ultimately have sp: "spec_free (b, taken m w) (L @ remainder b m w @ R) = merge_in L (b, taken m w) (remainder b m w @ R)"
    using split_at_address [of L b "remainder b m w @ R"] by (simp add: spec_free_def)
  have nL: "\<not> (L \<noteq> [] \<and> fst (last L) + snd (last L) = b)" using L by fastforce
  show ?thesis
  proof (cases "32 < m - w")
    case True
    then show ?thesis unfolding sp using nL assms(2) by (auto simp: merge_defs remainder_def taken_def)
  next
    case False
    then show ?thesis unfolding sp using merge_in_none [OF L R] by (simp add: remainder_def taken_def)
  qed
qed

text \<open>The board's heap before the first request, at an address of its RAM; used by the witnesses.\<close>

definition board_heap :: heap4 where
  "board_heap = \<lparr>pxNextFreeBlock = \<lambda>_. 0, xBlockSize = \<lambda>_. 0, pxEnd = 0, xFreeBytesRemaining = 0,
     xMinimumEverFreeBytesRemaining = 0, xNumberOfSuccessfulAllocations = 0, xNumberOfSuccessfulFrees = 0,
     xBlockAllocatedBit = 0, ucHeap = 536870912, xStart = 536903680\<rparr>"

lemma board_heap_facts:
  "placed board_heap" "pxEnd board_heap = 0" "heap_lo board_heap = 536870912" "heap_end board_heap = 536887280"
  "heap_rep (prvHeapInit board_heap) [(536870912, 16368)] []"
proof -
  show p: "placed board_heap" and "pxEnd board_heap = 0" and lo: "heap_lo board_heap = 536870912"
    and en: "heap_end board_heap = 536887280"
    by (simp_all add: board_heap_def placed_def heap_lo_def heap_end_def)
  show "heap_rep (prvHeapInit board_heap) [(536870912, 16368)] []"
    using prvHeapInit_rep [OF p] by (simp add: lo en)
qed

text \<open>
  C2: From the uninitialised heap, every sequence of requests is served without stopping, and at the
  end no two areas that the clients hold overlap (at the sizes they asked for) and all are aligned.
\<close>

theorem heap_requests_safe:
  assumes "pxEnd h = 0" and "placed h"
  shows "\<exists>A h'. serve (\<lambda>w :: u32. pvPortMalloc (unat w)) vPortFree rs [] h = Some (A, h') \<and> sorted_wrt apart A \<and>
    (\<forall>x \<in> set A. fst x mod portBYTE_ALIGNMENT = 0)"
proof -
  have "heap4_live h []" using assms by (simp add: heap4_live_def)
  then show ?thesis by (rule heap4.serve_safe)
qed

theorem heap_requests_safe_witness:
  "\<exists>A h'. serve (\<lambda>w :: u32. pvPortMalloc (unat w)) vPortFree [Malloc 100, Malloc 40, Free 1, Malloc 8] [] board_heap = Some (A, h') \<and>
    sorted_wrt apart A \<and> (\<forall>x \<in> set A. fst x mod portBYTE_ALIGNMENT = 0)"
  by (rule heap_requests_safe) (rule board_heap_facts)+

text \<open>
  C8: \<open>pvPortMalloc\<close> always returns and implements first fit: the result, the new free list and the
  new set of allocated blocks are those of \<open>spec_malloc\<close>; a null result leaves the heap as it was,
  and an area that is returned is aligned and lies in \<open>ucHeap\<close>.
\<close>

theorem pvPortMalloc_first_fit:
  assumes rep: "heap_rep h fl al" and w: "w < 2 ^ 32"
  shows "\<exists>p h' fl' al'. spec_malloc w fl al = (p, fl', al') \<and> pvPortMalloc w h = Some (p, h') \<and>
    heap_rep h' fl' al' \<and> (p = 0 \<longrightarrow> h' = h) \<and>
    (p \<noteq> 0 \<longrightarrow> p mod portBYTE_ALIGNMENT = 0 \<and> ucHeap h \<le> p \<and> p + w \<le> ucHeap h + configTOTAL_HEAP_SIZE)"
proof -
  obtain p fl' al' where sp: "spec_malloc w fl al = (p, fl', al')" by (metis prod_cases3)
  obtain h' where h': "pvPortMalloc w h = Some (p, h')" "heap_rep h' fl' al'" "p = 0 \<longrightarrow> h' = h"
    using pvPortMalloc_rep [OF rep w] sp by auto
  have "p mod 16 = 0 \<and> ucHeap h \<le> p \<and> p + w \<le> ucHeap h + 16384" if p: "p \<noteq> 0"
  proof -
    obtain L b m R where t: "fl = L @ (b, m) # R" "adjusted_size w \<le> m" "p = b + 16" "0 < w" "w < 2 ^ 31"
      using spec_malloc_Some [of w fl al] sp p by (metis fst_conv)
    have body: "heap_body h fl al" using rep by (simp add: heap_rep_def)
    note fr = heap_body_frame [OF body] and ok = heap_rep_block(3) [OF rep, of "(b, m)"]
    have "b + m \<le> pxEnd h" "16 dvd b" "heap_lo h \<le> b" using ok t(1) by (auto simp: block_ok_def)
    moreover have "w + 16 \<le> m" using adjusted_size_props(2) [OF t(4,5)] t(2) by simp
    moreover have "ucHeap h \<le> heap_lo h" using fr placed_lo by (auto simp: heap_frame_def)
    moreover have "pxEnd h + 16 \<le> ucHeap h + 16384" using fr by (simp add: heap_frame_def)
    ultimately show ?thesis using t(3) by auto
  qed
  then show ?thesis using sp h' by auto
qed

theorem pvPortMalloc_first_fit_witness:
  "\<exists>p h' fl' al'. spec_malloc 100 [(536870912, 16368)] [] = (p, fl', al') \<and>
    pvPortMalloc 100 (prvHeapInit board_heap) = Some (p, h') \<and> heap_rep h' fl' al' \<and>
    (p = 0 \<longrightarrow> h' = prvHeapInit board_heap) \<and>
    (p \<noteq> 0 \<longrightarrow> p mod portBYTE_ALIGNMENT = 0 \<and> ucHeap (prvHeapInit board_heap) \<le> p \<and>
       p + 100 \<le> ucHeap (prvHeapInit board_heap) + configTOTAL_HEAP_SIZE)"
  by (rule pvPortMalloc_first_fit [OF board_heap_facts(5)]) simp

text \<open>
  C9: \<open>vPortFree\<close> of an allocated block returns; it puts the block back in address order, merges it
  with every neighbour it touches, so that again no two free blocks touch, and adds exactly the
  size of the block to the number of free bytes.
\<close>

theorem vPortFree_coalesces:
  assumes rep: "heap_rep h fl (A @ b # B)"
  shows "\<exists>h'. vPortFree (fst b + xHeapStructSize) h = Some h' \<and> heap_rep h' (spec_free b fl) (A @ B) \<and>
    sorted_wrt gap (spec_free b fl) \<and> xPortGetFreeHeapSize h' = xPortGetFreeHeapSize h + snd b \<and>
    xPortGetMinimumEverFreeHeapSize h' = xPortGetMinimumEverFreeHeapSize h"
proof -
  obtain h' where h': "vPortFree (fst b + 16) h = Some h'" "heap_rep h' (spec_free b fl) (A @ B)"
      "xMinimumEverFreeBytesRemaining h' = xMinimumEverFreeBytesRemaining h"
    using vPortFree_spec [OF rep] by blast
  have "bytes (spec_free b fl) = bytes fl + snd b"
  proof -
    have "bytes (takeWhile P fl) + bytes (dropWhile P fl) = bytes fl" for P
      by (metis map_append sum_list_append takeWhile_dropWhile_id)
    then show ?thesis
      using merge_in_total [of "takeWhile (\<lambda>x. fst x < fst b) fl" "fst b" "snd b"]
      by (simp add: spec_free_def)
  qed
  then have "xFreeBytesRemaining h' = xFreeBytesRemaining h + snd b"
    using h'(2) rep by (simp add: heap_rep_def)
  moreover have "sorted_wrt gap (spec_free b fl)" using h'(2) by (simp add: heap_rep_def heap_body_def)
  ultimately show ?thesis
    using h' by (simp add: xPortGetFreeHeapSize_def xPortGetMinimumEverFreeHeapSize_def)
qed

lemma board_heap_alloc:
  "\<exists>h. pvPortMalloc 100 (prvHeapInit board_heap) = Some (536870928, h) \<and>
     heap_rep h [(536871040, 16240)] [(536870912, 128)]"
  "\<exists>h. pvPortMalloc 16352 (prvHeapInit board_heap) = Some (536870928, h) \<and>
     heap_rep h [] [(536870912, 16368)]"
  using pvPortMalloc_rep [OF board_heap_facts(5), of 100] pvPortMalloc_rep [OF board_heap_facts(5), of 16352]
  by (simp_all add: spec_malloc_def adjusted_size_eq taken_def remainder_def)

theorem vPortFree_coalesces_witness:
  "\<exists>h h'. heap_rep h [(536871040, 16240)] [(536870912, 128)] \<and> vPortFree (536870912 + xHeapStructSize) h = Some h' \<and>
     heap_rep h' [(536870912, 16368)] [] \<and> xPortGetFreeHeapSize h' = xPortGetFreeHeapSize h + 128"
proof -
  obtain h where h: "heap_rep h [(536871040, 16240)] [(536870912, 128)]" using board_heap_alloc(1) by blast
  have "spec_free (536870912, 128) [(536871040, 16240)] = [(536870912, 16368)]"
    by (simp add: spec_free_def merge_defs)
  then show ?thesis
    using vPortFree_coalesces [of h "[(536871040, 16240)]" "[]" "(536870912, 128)" "[]"] h by auto
qed

text \<open>
  Freeing what \<open>pvPortMalloc\<close> has just returned restores the free list, block by block, and the
  number of free bytes.
\<close>

theorem malloc_free_roundtrip:
  assumes rep: "heap_rep h fl al" and w: "w < 2 ^ 32" and m: "pvPortMalloc w h = Some (p, h')" and p: "p \<noteq> 0"
  shows "\<exists>h''. vPortFree p h' = Some h'' \<and> heap_rep h'' fl al \<and> xPortGetFreeHeapSize h'' = xPortGetFreeHeapSize h"
proof -
  have "fst (spec_malloc w fl al) = p" and r: "heap_rep h' (fst (snd (spec_malloc w fl al))) (snd (snd (spec_malloc w fl al)))"
    using pvPortMalloc_rep [OF rep w] m by auto
  then obtain L b k R where t: "fl = L @ (b, k) # R" "adjusted_size w \<le> k" "p = b + 16" "0 < w" "w < 2 ^ 31"
      "snd (spec_malloc w fl al) = (L @ remainder b k (adjusted_size w) @ R, (b, taken k (adjusted_size w)) # al)"
    using spec_malloc_Some [of w fl al] p by (metis fst_conv snd_conv)
  let ?a = "adjusted_size w"
  have r': "heap_rep h' (L @ remainder b k ?a @ R) ([] @ (b, taken k ?a) # al)" using r t(6) by simp
  obtain h'' where h'': "vPortFree (b + 16) h' = Some h''"
      "heap_rep h'' (spec_free (b, taken k ?a) (L @ remainder b k ?a @ R)) al"
    using vPortFree_spec [OF r'] by auto
  have gap: "sorted_wrt gap (L @ (b, k) # R)" using rep t(1) by (simp add: heap_rep_def heap_body_def)
  have pos: "0 < ?a" using adjusted_size_props(2) [OF t(4,5)] by linarith
  have "heap_rep h'' fl al" using h''(2) spec_malloc_free [OF gap t(2) pos] t(1) by simp
  then show ?thesis using h''(1) t(3) rep by (simp add: heap_rep_def xPortGetFreeHeapSize_def)
qed

theorem malloc_free_roundtrip_witness:
  "\<exists>h' h''. pvPortMalloc 100 (prvHeapInit board_heap) = Some (536870928, h') \<and> vPortFree 536870928 h' = Some h'' \<and>
     heap_rep h'' [(536870912, 16368)] [] \<and> xPortGetFreeHeapSize h'' = xPortGetFreeHeapSize (prvHeapInit board_heap)"
proof -
  obtain h' where h': "pvPortMalloc 100 (prvHeapInit board_heap) = Some (536870928, h')"
    using board_heap_alloc(1) by blast
  then show ?thesis using malloc_free_roundtrip [OF board_heap_facts(5) _ h'] by auto
qed

text \<open>
  A second \<open>vPortFree\<close> of the same block never gets through: the assertion on the allocated bit
  stops the system instead of corrupting the free list, also when the block has been merged.
\<close>

theorem vPortFree_twice_stops:
  assumes rep: "heap_rep h fl (A @ b # B)" and free: "vPortFree (fst b + xHeapStructSize) h = Some h'"
  shows "vPortFree (fst b + xHeapStructSize) h' = None"
proof -
  have sz: "xBlockSize h' (fst b) < 2 ^ 31" and rep': "heap_rep h' (spec_free b fl) (A @ B)"
    using vPortFree_spec [OF rep] free by auto
  have "heap_frame h" using rep by (simp add: heap_rep_def heap_body_def)
  then have "fst b + 16 < 2 ^ 32"
    using block_bounds(2,6) [of h "fst b" "snd b"] heap_rep_block(3) [OF rep, of b] by auto
  then have "u32_sub (fst b + 16) 16 = fst b" by (simp add: u32_sub_small)
  moreover have "xBlockSize h' (fst b) AND xBlockAllocatedBit h' = 0"
    using heap_rep_init [OF rep'] and_bit_31 [OF sz] by simp
  ultimately show ?thesis by (simp add: vPortFree_def)
qed

theorem vPortFree_twice_stops_witness:
  "\<exists>h h'. heap_rep h [(536871040, 16240)] [(536870912, 128)] \<and>
     vPortFree (fst (536870912 :: nat, 128 :: nat) + xHeapStructSize) h = Some h' \<and>
     vPortFree (fst (536870912 :: nat, 128 :: nat) + xHeapStructSize) h' = None"
proof -
  obtain h where h: "heap_rep h [(536871040, 16240)] ([] @ (536870912, 128) # [])"
    using board_heap_alloc(1) by auto
  then obtain h' where "vPortFree (fst (536870912 :: nat, 128 :: nat) + 16) h = Some h'"
    using vPortFree_spec [OF h] by auto
  then show ?thesis using vPortFree_twice_stops [OF h, of h'] h by auto
qed

lemma heap_stats_loop_chain:
  assumes "chain (pxNextFreeBlock h) x xs (pxEnd h)" and "0 \<notin> set (x # xs)" and "pxEnd h \<notin> set xs"
    and "c + length (x # xs) < 2 ^ 32"
  shows "heap_stats_loop h x c mx mn =
    Some (c + length (x # xs), fold max (map (xBlockSize h) (x # xs)) mx, fold min (map (xBlockSize h) (x # xs)) mn)"
  using assms
proof (induction xs arbitrary: x c mx mn)
  case Nil
  then have "u32_add c 1 = c + 1" by (simp add: u32_add_small)
  then show ?case using Nil by (subst heap_stats_loop.simps) (auto simp: Let_def max_def min_def)
next
  case (Cons y ys)
  then have "u32_add c 1 = c + 1" by (simp add: u32_add_small)
  then have "heap_stats_loop h x c mx mn =
      heap_stats_loop h y (c + 1) (max (xBlockSize h x) mx) (min (xBlockSize h x) mn)"
    using Cons.prems by (subst heap_stats_loop.simps) (auto simp: Let_def max_def min_def)
  then show ?case using Cons by simp
qed

lemma fold_max_Max: "xs \<noteq> [] \<Longrightarrow> fold max xs 0 = Max (set xs)" for xs :: "nat list"
  by (metis Max.set_eq_fold bot_nat_0.extremum_unique fold_simps(2) list.exhaust max_0R)

lemma fold_min_Min:
  fixes xs :: "nat list"
  assumes "xs \<noteq> []" and "\<forall>x \<in> set xs. x \<le> k"
  shows "fold min xs k = Min (set xs)"
proof -
  obtain y ys where "xs = y # ys" using assms(1) by (cases xs) auto
  then show ?thesis using assms(2) Min.set_eq_fold [of y ys] by (simp add: min_def)
qed

lemma heap_rep_sizes:
  assumes "heap_rep h fl al"
  shows "map (xBlockSize h) (map fst fl) = map snd fl" and "length fl < 2 ^ 32" and "\<forall>x \<in> set fl. snd x < 2 ^ 31"
    and "0 \<notin> set (map fst fl)" and "pxEnd h \<notin> set (map fst fl)"
proof -
  have body: "heap_body h fl al" using assms by (simp add: heap_rep_def)
  note fr = heap_body_frame [OF body]
  show "map (xBlockSize h) (map fst fl) = map snd fl" using body by (simp add: heap_body_def)
  have ok: "block_ok h (fst x, snd x)" if "x \<in> set fl" for x using heap_rep_block(3) [OF assms] that by simp
  show "\<forall>x \<in> set fl. snd x < 2 ^ 31" using block_bounds(5) [OF fr ok] by blast
  have "\<forall>x \<in> set fl. fst x \<noteq> 0 \<and> fst x \<noteq> pxEnd h" using block_bounds(1,2) [OF fr ok] by fastforce
  then show "0 \<notin> set (map fst fl)" and "pxEnd h \<notin> set (map fst fl)" by (metis imageE list.set_map)+
  have "length fl \<le> bytes fl"
  proof -
    have "\<forall>x \<in> set fl. 1 \<le> snd x" using block_bounds(7) [OF fr ok] by force
    then show ?thesis by (induction fl) auto
  qed
  also have "\<dots> \<le> pxEnd h" using assms by (auto simp: heap_rep_def)
  finally show "length fl < 2 ^ 32" using fr by (simp add: heap_frame_def placed_def)
qed

text \<open>
  While there is a free block, \<open>vPortGetHeapStats\<close> returns and reports the number of free
  blocks, the largest and the smallest of them and the free bytes exactly.
\<close>

theorem vPortGetHeapStats_exact:
  assumes rep: "heap_rep h fl al" and ne: "fl \<noteq> []"
  shows "\<exists>s. vPortGetHeapStats h = Some s \<and> xNumberOfFreeBlocks s = length fl \<and>
    xSizeOfLargestFreeBlockInBytes s = Max (set (map snd fl)) \<and>
    xSizeOfSmallestFreeBlockInBytes s = Min (set (map snd fl)) \<and> xAvailableHeapSpaceInBytes s = bytes fl"
proof -
  note init = heap_rep_init [OF rep] and sz = heap_rep_sizes [OF rep]
  obtain x xs where xs: "map fst fl = x # xs" using ne by (cases fl) auto
  have ch: "pxNextFreeBlock h (xStart h) = x" "chain (pxNextFreeBlock h) x xs (pxEnd h)" using init xs by auto
  have len: "length (x # xs) = length fl" using xs by (metis length_map)
  have "heap_stats_loop h x 0 0 (2 ^ 32 - 1) = Some (0 + length (x # xs),
      fold max (map (xBlockSize h) (x # xs)) 0, fold min (map (xBlockSize h) (x # xs)) (2 ^ 32 - 1))"
    using sz(2,4,5) len xs by (intro heap_stats_loop_chain [OF ch(2)]) simp_all
  then have "heap_stats_loop h x 0 0 (2 ^ 32 - 1) =
      Some (length fl, fold max (map snd fl) 0, fold min (map snd fl) (2 ^ 32 - 1))"
    unfolding len sz(1) [unfolded xs] by simp
  moreover have "\<forall>y \<in> set (map snd fl). y \<le> 2 ^ 32 - 1" using sz(3) by fastforce
  moreover have "x \<noteq> 0" using sz(4) xs by auto
  ultimately show ?thesis
    using ne init ch(1) fold_max_Max [of "map snd fl"] fold_min_Min [of "map snd fl"]
    by (simp add: vPortGetHeapStats_def)
qed

theorem vPortGetHeapStats_exact_witness:
  "\<exists>s. vPortGetHeapStats (prvHeapInit board_heap) = Some s \<and> xNumberOfFreeBlocks s = 1 \<and>
    xSizeOfLargestFreeBlockInBytes s = 16368 \<and> xAvailableHeapSpaceInBytes s = 16368"
  using vPortGetHeapStats_exact [OF board_heap_facts(5)] by auto

text \<open>
  C11: When every byte of the heap is allocated the free list is empty, and \<open>vPortGetHeapStats\<close> does
  not return properly: its \<open>do .. while\<close> loop starts at the end marker, whose successor is the null
  pointer, and follows it.
\<close>

theorem vPortGetHeapStats_exhausted:
  assumes rep: "heap_rep h [] al"
  shows "vPortGetHeapStats h = None"
proof -
  note init = heap_rep_init [OF rep]
  have "heap_stats_loop h 0 c a b = None" for c a b by (subst heap_stats_loop.simps) simp
  then have "heap_stats_loop h (pxEnd h) 0 0 (2 ^ 32 - 1) = None"
    using init by (subst heap_stats_loop.simps) (simp add: Let_def)
  then show ?thesis using init by (simp add: vPortGetHeapStats_def)
qed

theorem vPortGetHeapStats_exhausted_witness:
  "\<exists>h. pvPortMalloc 16352 (prvHeapInit board_heap) = Some (536870928, h) \<and> vPortGetHeapStats h = None"
  using board_heap_alloc(2) vPortGetHeapStats_exhausted by blast

end
