(* ===== verification/List_Space.thy ===== *)
theory List_Space
  imports Kernel_List
begin

text \<open>
  The lists of the kernel as sequences. A list space holds, for every list, its items in order and
  the item its walk index points to (none for the end marker), and for every item the list it is on
  and its value. The operations are those of \<open>list.c\<close> and \<open>list.h\<close> on sequences; the last section
  shows that the pointer operations of \<open>Kernel_List\<close> implement them, so that the scheduler and the
  queues can be modelled over list spaces.
\<close>

section \<open>List spaces and their operations\<close>

record ('l, 'i) lspace =
  seq :: "'l \<Rightarrow> 'i list"
  idx :: "'l \<Rightarrow> 'i option"
  cont :: "'i \<Rightarrow> 'l option"
  ival :: "'i \<Rightarrow> u32"

definition ls_initialise :: "'l \<Rightarrow> ('l, 'i) lspace \<Rightarrow> ('l, 'i) lspace" where
  "ls_initialise l s = s\<lparr>seq := (seq s)(l := []), idx := (idx s)(l := None)\<rparr>"

definition ls_insert_end :: "'l \<Rightarrow> 'i \<Rightarrow> ('l, 'i) lspace \<Rightarrow> ('l, 'i) lspace" where
  "ls_insert_end l i s = s\<lparr>
     seq := (seq s)(l := (case idx s l of
        None \<Rightarrow> seq s l @ [i]
      | Some j \<Rightarrow> takeWhile ((\<noteq>) j) (seq s l) @ i # dropWhile ((\<noteq>) j) (seq s l))),
     cont := (cont s)(i := Some l)\<rparr>"

definition ls_insert :: "'l \<Rightarrow> 'i \<Rightarrow> ('l, 'i) lspace \<Rightarrow> ('l, 'i) lspace" where
  "ls_insert l i s = s\<lparr>seq := (seq s)(l := ordered_insert (ival s) i (seq s l)),
     cont := (cont s)(i := Some l)\<rparr>"

definition prev_item :: "'i \<Rightarrow> 'i list \<Rightarrow> 'i option" where
  "prev_item i xs = (case takeWhile ((\<noteq>) i) xs of [] \<Rightarrow> None | y # ys \<Rightarrow> Some (last (y # ys)))"

definition ls_remove :: "'i \<Rightarrow> ('l, 'i) lspace \<Rightarrow> (nat \<times> ('l, 'i) lspace) option" where
  "ls_remove i s =
     (case cont s i of
        None \<Rightarrow> None
      | Some l \<Rightarrow> Some (length (remove1 i (seq s l)),
          s\<lparr>seq := (seq s)(l := remove1 i (seq s l)),
            idx := (if idx s l = Some i then (idx s)(l := prev_item i (seq s l)) else idx s),
            cont := (cont s)(i := None)\<rparr>))"

definition ls_next :: "'l \<Rightarrow> ('l, 'i) lspace \<Rightarrow> ('i \<times> ('l, 'i) lspace) option" where
  "ls_next l s =
     (case (case idx s l of None \<Rightarrow> [] | Some j \<Rightarrow> tl (dropWhile ((\<noteq>) j) (seq s l))) @ seq s l of
        [] \<Rightarrow> None
      | x # _ \<Rightarrow> Some (x, s\<lparr>idx := (idx s)(l := Some x)\<rparr>))"

definition ls_set_value :: "'i \<Rightarrow> u32 \<Rightarrow> ('l, 'i) lspace \<Rightarrow> ('l, 'i) lspace" where
  "ls_set_value i v s = s\<lparr>ival := (ival s)(i := v)\<rparr>"

section \<open>Well-formed list spaces\<close>

definition ls_wf :: "('l, 'i) lspace \<Rightarrow> bool" where
  "ls_wf s \<longleftrightarrow> (\<forall>l. distinct (seq s l)) \<and> (\<forall>l i. i \<in> set (seq s l) \<longleftrightarrow> cont s i = Some l) \<and>
     (\<forall>l j. idx s l = Some j \<longrightarrow> j \<in> set (seq s l))"

lemma ls_wf_D:
  assumes "ls_wf s"
  shows "distinct (seq s l)" and "i \<in> set (seq s l) \<longleftrightarrow> cont s i = Some l"
    and "idx s l = Some j \<Longrightarrow> j \<in> set (seq s l)"
  using assms by (auto simp: ls_wf_def)

lemma ls_fields [simp]:
  "ival (ls_insert_end l i s) = ival s" "idx (ls_insert_end l i s) = idx s"
  "cont (ls_insert_end l i s) = (cont s)(i := Some l)"
  "ival (ls_insert l i s) = ival s" "idx (ls_insert l i s) = idx s"
  "cont (ls_insert l i s) = (cont s)(i := Some l)"
  "seq (ls_insert l i s) = (seq s)(l := ordered_insert (ival s) i (seq s l))"
  "seq (ls_set_value i v s) = seq s" "idx (ls_set_value i v s) = idx s" "cont (ls_set_value i v s) = cont s"
  "ival (ls_set_value i v s) = (ival s)(i := v)"
  by (simp_all add: ls_insert_end_def ls_insert_def ls_set_value_def)

lemma set_ordered_insert [simp]: "set (ordered_insert key i xs) = insert i (set xs)"
proof -
  have "set (takeWhile P xs) \<union> set (dropWhile P xs) = set xs" for P
    by (metis set_append takeWhile_dropWhile_id)
  then show ?thesis by (auto simp: ordered_insert_def)
qed

lemma distinct_ordered_insert: "distinct xs \<Longrightarrow> i \<notin> set xs \<Longrightarrow> distinct (ordered_insert key i xs)"
proof -
  have mid: "distinct (as @ bs) \<Longrightarrow> i \<notin> set (as @ bs) \<Longrightarrow> distinct (as @ i # bs)" for as bs by auto
  assume "distinct xs" and "i \<notin> set xs"
  then show ?thesis unfolding ordered_insert_def by (intro mid) simp_all
qed

lemma seq_ls_insert_end:
  "\<exists>as bs. seq s l = as @ bs \<and> seq (ls_insert_end l i s) = (seq s)(l := as @ i # bs) \<and>
     (idx s l = None \<longrightarrow> bs = [])"
proof (cases "idx s l")
  case None
  then show ?thesis by (intro exI [of _ "seq s l"] exI [of _ "[]"]) (simp add: ls_insert_end_def)
next
  case (Some j)
  then show ?thesis
    by (intro exI [of _ "takeWhile ((\<noteq>) j) (seq s l)"] exI [of _ "dropWhile ((\<noteq>) j) (seq s l)"])
      (simp add: ls_insert_end_def)
qed

lemma set_seq_ls_insert_end [simp]:
  "set (seq (ls_insert_end l i s) k) = (if k = l then insert i (set (seq s l)) else set (seq s k))"
  using seq_ls_insert_end [of s l i] by auto

lemma seq_ls_insert_end_other [simp]: "k \<noteq> l \<Longrightarrow> seq (ls_insert_end l i s) k = seq s k"
  by (simp add: ls_insert_end_def)

lemma ls_wf_insert_end:
  assumes wf: "ls_wf s" and free: "cont s i = None"
  shows "ls_wf (ls_insert_end l i s)"
proof -
  obtain as bs where ab: "seq s l = as @ bs" "seq (ls_insert_end l i s) = (seq s)(l := as @ i # bs)"
    using seq_ls_insert_end [of s l i] by blast
  have "i \<notin> set as \<union> set bs" using ls_wf_D(2) [OF wf, of i l] free ab(1) by auto
  then have "distinct (seq (ls_insert_end l i s) k)" for k
    using ls_wf_D(1) [OF wf, of k] ls_wf_D(1) [OF wf, of l] ab by auto
  then show ?thesis using wf free by (auto simp: ls_wf_def)
qed

lemma ls_wf_insert:
  assumes wf: "ls_wf s" and free: "cont s i = None"
  shows "ls_wf (ls_insert l i s)"
proof -
  have "i \<notin> set (seq s k)" for k using ls_wf_D(2) [OF wf, of i k] free by simp
  then show ?thesis using wf free by (auto simp: ls_wf_def distinct_ordered_insert)
qed

lemma prev_item_in: "i \<in> set xs \<Longrightarrow> distinct xs \<Longrightarrow> prev_item i xs = Some j \<Longrightarrow> j \<in> set (remove1 i xs)"
  unfolding prev_item_def
  by (metis (mono_tags, lifting) in_set_remove1 last_in_set list.case_eq_if list.distinct(1) list.exhaust_sel
      option.distinct(1) option.inject set_takeWhileD)

lemma ls_remove_Some:
  assumes wf: "ls_wf s" and c: "cont s i = Some l"
  shows "\<exists>s'. ls_remove i s = Some (length (seq s l) - 1, s') \<and> ls_wf s' \<and>
    seq s' = (seq s)(l := remove1 i (seq s l)) \<and> cont s' = (cont s)(i := None) \<and> ival s' = ival s \<and>
    (\<forall>k. k \<noteq> l \<longrightarrow> idx s' k = idx s k) \<and> (idx s l = None \<longrightarrow> idx s' l = None)"
proof -
  have mem: "i \<in> set (seq s l)" using ls_wf_D(2) [OF wf] c by simp
  obtain s' where s': "ls_remove i s = Some (length (seq s l) - 1, s')"
    using c mem by (simp add: ls_remove_def length_remove1)
  then have f: "seq s' = (seq s)(l := remove1 i (seq s l))" "cont s' = (cont s)(i := None)" "ival s' = ival s"
    "idx s' = (if idx s l = Some i then (idx s)(l := prev_item i (seq s l)) else idx s)"
    using c by (auto simp: ls_remove_def)
  have dist: "distinct (seq s k)" for k by (rule ls_wf_D(1) [OF wf])
  have "j \<in> set (seq s' k)" if "idx s' k = Some j" for k j
  proof (cases "idx s l = Some i \<and> k = l")
    case True
    then show ?thesis using that prev_item_in [OF mem dist] by (simp add: f)
  next
    case False
    then have "j \<in> set (seq s k)" and "k = l \<longrightarrow> j \<noteq> i"
      using that ls_wf_D(3) [OF wf] by (auto simp: f split: if_splits)
    then show ?thesis by (auto simp: f)
  qed
  moreover have "j \<in> set (seq s' k) \<longleftrightarrow> cont s' j = Some k" for j k
    using dist [of l] ls_wf_D(2) [OF wf] c by (auto simp: f)
  ultimately have "ls_wf s'" using dist by (auto simp: ls_wf_def f)
  then show ?thesis using s' f by auto
qed

lemma set_tl_dropWhile: "set (tl (dropWhile P xs)) \<subseteq> set xs"
  by (metis list.sel(2) list.set_sel(2) set_dropWhileD subsetI)

lemma ls_next_Some:
  assumes wf: "ls_wf s" and ne: "seq s l \<noteq> []"
  shows "\<exists>x. ls_next l s = Some (x, s\<lparr>idx := (idx s)(l := Some x)\<rparr>) \<and> x \<in> set (seq s l)"
proof -
  let ?r = "case idx s l of None \<Rightarrow> [] | Some j \<Rightarrow> tl (dropWhile ((\<noteq>) j) (seq s l))"
  have "set ?r \<subseteq> set (seq s l)" by (cases "idx s l") (auto dest: set_tl_dropWhile [THEN subsetD])
  moreover obtain x ys where "?r @ seq s l = x # ys" using ne by (cases "?r @ seq s l") auto
  moreover from this have "x \<in> set ?r \<union> set (seq s l)" by (metis list.set_intros(1) set_append)
  ultimately show ?thesis by (auto simp: ls_next_def)
qed

lemma ls_wf_next: "ls_wf s \<Longrightarrow> x \<in> set (seq s l) \<Longrightarrow> ls_wf (s\<lparr>idx := (idx s)(l := Some x)\<rparr>)"
  by (auto simp: ls_wf_def)

lemma ls_wf_set_value [simp]: "ls_wf (ls_set_value i v s) = ls_wf s"
  by (simp add: ls_wf_def)

lemma ls_wf_initialise:
  "ls_wf s \<Longrightarrow> (\<And>i. cont s i \<noteq> Some l) \<Longrightarrow> ls_wf (ls_initialise l s)"
  by (auto simp: ls_wf_def ls_initialise_def)

section \<open>The pointer lists implement list spaces\<close>

definition implements :: "('l, 'i) list_store \<Rightarrow> ('l, 'i) lspace \<Rightarrow> bool" where
  "implements c s \<longleftrightarrow> (\<forall>l. list_rep c l (seq s l)) \<and>
     (\<forall>l. pxIndex c l = (case idx s l of None \<Rightarrow> ListEnd l | Some j \<Rightarrow> Item j)) \<and>
     pxContainer c = cont s \<and> (\<forall>i. xItemValue c (Item i) = ival s i)"

lemma implements_D:
  assumes "implements c s"
  shows "list_rep c l (seq s l)" "pxContainer c = cont s" "item_key c = ival s"
    "pxIndex c l = (case idx s l of None \<Rightarrow> ListEnd l | Some j \<Rightarrow> Item j)"
  using assms by (auto simp: implements_def)

lemma implements_wf:
  assumes im: "implements c s"
  shows "ls_wf s"
proof -
  have "j \<in> set (seq s l)" if "idx s l = Some j" for l j
    using list_rep_D(4) [OF implements_D(1) [OF im], of l] implements_D(4) [OF im, of l] that by auto
  moreover have "distinct (seq s l)" for l by (rule list_rep_D(2) [OF implements_D(1) [OF im]])
  moreover have "i \<in> set (seq s l) \<longleftrightarrow> cont s i = Some l" for l i
    using list_rep_D(3) [OF implements_D(1) [OF im], of i l] implements_D(2) [OF im] by simp
  ultimately show ?thesis by (auto simp: ls_wf_def)
qed

lemma implements_insert:
  assumes im: "implements c s" and free: "cont s i = None" and room: "Suc (length (seq s l)) < 2 ^ 32"
  shows "\<exists>c'. vListInsert l i c = Some c' \<and> implements c' (ls_insert l i s) \<and> pvOwner c' = pvOwner c"
proof -
  note D = implements_D [OF im]
  have free': "pxContainer c i = None" using D(2) free by simp
  obtain c' where c': "vListInsert l i c = Some c'" "list_rep c' l (ordered_insert (item_key c) i (seq s l))"
      "xItemValue c' = xItemValue c" "pxIndex c' = pxIndex c" "pxContainer c' = (pxContainer c)(i := Some l)"
      "pvOwner c' = pvOwner c" "\<forall>k ys. k \<noteq> l \<longrightarrow> list_rep c k ys \<longrightarrow> list_rep c' k ys"
    using vListInsert_rep [OF D(1) free' room] by blast
  have "implements c' (ls_insert l i s)"
    using im c' D(1,3) by (auto simp: implements_def)
  then show ?thesis using c'(1,6) by blast
qed

lemma insert_at_index_idx:
  "insert_at_index (case idx s l of None \<Rightarrow> ListEnd l | Some j \<Rightarrow> Item j) i (seq s l) = seq (ls_insert_end l i s) l"
  by (simp add: insert_at_index_def ls_insert_end_def split: option.splits)

lemma implements_insert_end:
  assumes im: "implements c s" and free: "cont s i = None" and room: "Suc (length (seq s l)) < 2 ^ 32"
  shows "implements (vListInsertEnd l i c) (ls_insert_end l i s)"
proof -
  note D = implements_D [OF im]
  let ?c = "vListInsertEnd l i c"
  have free': "pxContainer c i = None" using D(2) free by simp
  have "list_rep ?c l (seq (ls_insert_end l i s) l)"
    using vListInsertEnd_rep [OF D(1) free' room] D(4) [of l] by (simp add: insert_at_index_idx)
  moreover have "list_rep ?c k (seq s k)" if k: "k \<noteq> l" for k
  proof (rule list_rep_frame [OF D(1) D(1) k, where F = "{i}"])
    have P: "pxPrevious c (pxIndex c l) = ListEnd l \<or> pxPrevious c (pxIndex c l) \<in> Item ` set (seq s l)"
    proof -
      obtain as bs where ab: "seq s l = as @ bs" "seg_first bs (ListEnd l) = pxIndex c l"
        using insert_at_index_split [OF D(1) [of l], of i] by blast
      then have "seg c (ListEnd l) as (pxIndex c l)"
        using seg_split list_rep_D(1) [OF D(1) [of l]] by metis
      then show ?thesis using seg_prev seg_last_in [of "ListEnd l" as] ab(1) by fastforce
    qed
    have I: "pxIndex c l = ListEnd l \<or> pxIndex c l \<in> Item ` set (seq s l)" by (rule list_rep_D(4) [OF D(1)])
    fix n
    show "pxNext ?c n \<noteq> pxNext c n \<Longrightarrow> n = ListEnd l \<or> n \<in> Item ` (set (seq s l) \<union> {i})"
      and "pxPrevious ?c n \<noteq> pxPrevious c n \<Longrightarrow> n = ListEnd l \<or> n \<in> Item ` (set (seq s l) \<union> {i})"
      using P I by (auto simp: vListInsertEnd_def Let_def split: if_splits)
  qed (use k free' in \<open>auto simp: vListInsertEnd_def Let_def\<close>)
  ultimately have "list_rep ?c k (seq (ls_insert_end l i s) k)" for k by (cases "k = l") auto
  then show ?thesis using im D by (auto simp: implements_def vListInsertEnd_def Let_def)
qed

lemma takeWhile_first: "j \<notin> set as \<Longrightarrow> takeWhile ((\<noteq>) j) (as @ j # bs) = as"
  by (induction as) auto

lemma dropWhile_first: "j \<notin> set as \<Longrightarrow> dropWhile ((\<noteq>) j) (as @ j # bs) = j # bs"
  by (induction as) auto

lemma implements_remove:
  assumes im: "implements c s" and ct: "cont s i = Some l"
  shows "\<exists>n c' s'. uxListRemove i c = Some (of_nat n, c') \<and> ls_remove i s = Some (n, s') \<and> implements c' s' \<and>
    pvOwner c' = pvOwner c"
proof -
  note D = implements_D [OF im]
  have wf: "ls_wf s" by (rule implements_wf [OF im])
  have mem: "i \<in> set (seq s l)" using ls_wf_D(2) [OF wf] ct by simp
  obtain as bs where xs: "seq s l = as @ i # bs" and nas: "i \<notin> set as" using split_list_first_in [OF mem] .
  obtain c' where c': "uxListRemove i c = Some (of_nat (length (seq s l) - 1), c')"
      "list_rep c' l (remove1 i (seq s l))" "xItemValue c' = xItemValue c" "pvOwner c' = pvOwner c"
      "pxContainer c' = (pxContainer c)(i := None)" "\<forall>k ys. k \<noteq> l \<longrightarrow> list_rep c k ys \<longrightarrow> list_rep c' k ys"
    using uxListRemove_rep [OF D(1) mem] by blast
  obtain s' where s': "ls_remove i s = Some (length (seq s l) - 1, s')" "seq s' = (seq s)(l := remove1 i (seq s l))"
      "cont s' = (cont s)(i := None)" "ival s' = ival s"
    using ls_remove_Some [OF wf ct] by blast
  have prev: "pxPrevious c (Item i) = (case prev_item i (seq s l) of None \<Rightarrow> ListEnd l | Some j \<Rightarrow> Item j)"
  proof -
    have "seg c (ListEnd l) as (Item i)" using list_rep_D(1) [OF D(1) [of l]] xs by (simp add: seg_append)
    then have "pxPrevious c (Item i) = seg_last (ListEnd l) as" by (rule seg_prev)
    moreover have "takeWhile ((\<noteq>) i) (seq s l) = as" unfolding xs by (rule takeWhile_first [OF nas])
    ultimately show ?thesis by (cases as) (auto simp: prev_item_def seg_last_def)
  qed
  have nx: "pxNext c (Item i) \<noteq> Item i"
    using seg_next [of c "Item i" bs "ListEnd l"] list_rep_D(1,2) [OF D(1) [of l]] xs
    by (cases bs) (auto simp: seg_append seg_first_def)
  have ix': "idx s' = (if idx s l = Some i then (idx s)(l := prev_item i (seq s l)) else idx s)"
    using s'(1) ct by (auto simp: ls_remove_def)
  have "pxIndex c' = (if pxIndex c l = Item i then (pxIndex c)(l := pxPrevious c (Item i)) else pxIndex c)"
    using c'(1) ct D(2) nx by (auto simp: uxListRemove_def Let_def)
  then have "pxIndex c' k = (case idx s' k of None \<Rightarrow> ListEnd k | Some j \<Rightarrow> Item j)" for k
    using D(4) [of l] D(4) [of k] prev by (auto simp: ix' split: option.splits)
  then have "implements c' s'" using im c' s' D by (auto simp: implements_def)
  then show ?thesis using c'(1,4) s'(1) by blast
qed

lemma implements_set_index:
  assumes im: "implements c s" and x: "x \<in> set (seq s l)"
  shows "implements (set_index l (Item x) c) (s\<lparr>idx := (idx s)(l := Some x)\<rparr>)"
proof -
  note D = implements_D [OF im]
  have "list_rep (set_index l (Item x) c) k (seq s k)" for k
  proof (cases "k = l")
    case True
    then show ?thesis using list_rep_set_index [OF D(1) [of l]] x by auto
  next
    case False
    then show ?thesis using D(1) [of k] unfolding list_rep_def by (simp add: set_index_def cong: seg_cong)
  qed
  then show ?thesis using im by (auto simp: implements_def set_index_def)
qed

lemma implements_next:
  assumes im: "implements c s" and ne: "seq s l \<noteq> []"
  shows "\<exists>x c' s'. listGET_OWNER_OF_NEXT_ENTRY l c = Some (pvOwner c x, c') \<and> ls_next l s = Some (x, s') \<and>
    implements c' s' \<and> pvOwner c' = pvOwner c"
proof -
  note D = implements_D [OF im]
  obtain x where x: "ls_next l s = Some (x, s\<lparr>idx := (idx s)(l := Some x)\<rparr>)" "x \<in> set (seq s l)"
    using ls_next_Some [OF implements_wf [OF im] ne] by blast
  have "listGET_OWNER_OF_NEXT_ENTRY l c = Some (pvOwner c x, set_index l (Item x) c)"
  proof (cases "idx s l")
    case None
    then obtain bs where xs: "seq s l = x # bs" using x(1) by (auto simp: ls_next_def split: list.splits)
    then show ?thesis using next_entry_step [of c l "[]" x bs] D(1,4) [of l] None by (simp add: seg_last_def)
  next
    case (Some j)
    then have "j \<in> set (seq s l)" using ls_wf_D(3) [OF implements_wf [OF im]] by blast
    then obtain as bs where xs: "seq s l = as @ j # bs" and nas: "j \<notin> set as" by (rule split_list_first_in)
    have d: "dropWhile ((\<noteq>) j) (seq s l) = j # bs" unfolding xs by (rule dropWhile_first [OF nas])
    have ix: "pxIndex c l = seg_last (ListEnd l) (as @ [j])" using D(4) [of l] Some by (simp add: seg_last_def)
    show ?thesis
    proof (cases bs)
      case (Cons b cs)
      then have "x = b" using x(1) Some d by (simp add: ls_next_def)
      then show ?thesis using next_entry_step [of c l "as @ [j]" b cs] D(1) [of l] xs Cons ix by simp
    next
      case Nil
      then have "\<exists>ys. seq s l = x # ys" using x(1) Some d by (auto simp: ls_next_def split: list.splits)
      then show ?thesis using next_entry_wrap D(1) [of l] ix xs Nil by metis
    qed
  qed
  then show ?thesis using x implements_set_index [OF im x(2)] by auto
qed

lemma implements_head:
  assumes im: "implements c s"
  shows "listLIST_IS_EMPTY l c \<longleftrightarrow> seq s l = []"
    and "seq s l = x # xs \<Longrightarrow> listGET_OWNER_OF_HEAD_ENTRY l c = Some (pvOwner c x)"
    and "seq s l = x # xs \<Longrightarrow> listGET_ITEM_VALUE_OF_HEAD_ENTRY l c = ival s x"
proof -
  note D = implements_D [OF im]
  have n: "uxNumberOfItems c l = of_nat (length (seq s l))" "length (seq s l) < 2 ^ 32"
    using D(1) [of l] by (simp_all add: list_rep_def)
  have "unat (of_nat (length (seq s l)) :: u32) = length (seq s l)"
    using n(2) by (simp add: unat_of_nat)
  then have "(of_nat (length (seq s l)) :: u32) = 0 \<longleftrightarrow> length (seq s l) = 0" by (auto simp flip: unat_eq_zero)
  then show "listLIST_IS_EMPTY l c \<longleftrightarrow> seq s l = []" using n(1) by (simp add: listLIST_IS_EMPTY_def)
  assume "seq s l = x # xs"
  then have "pxNext c (ListEnd l) = Item x"
    using seg_next [OF list_rep_D(1) [OF D(1) [of l]]] by (simp add: seg_first_def)
  then show "listGET_OWNER_OF_HEAD_ENTRY l c = Some (pvOwner c x)" and "listGET_ITEM_VALUE_OF_HEAD_ENTRY l c = ival s x"
    using D(3) by (simp_all add: listGET_OWNER_OF_HEAD_ENTRY_def listGET_ITEM_VALUE_OF_HEAD_ENTRY_def fun_eq_iff)
qed

end
