(* ===== verification/Kernel_Tasks.thy ===== *)
theory Kernel_Tasks
  imports List_Space "HOL-Library.Monad_Syntax"
begin

text \<open>
  \<open>FreeRTOS/tasks.c\<close>: the scheduler. The lists of the kernel are a list space (\<open>List_Space\<close>); a task
  control block owns two list items, the state item (ready, delayed, suspended or termination list)
  and the event item (an event list or the pending-ready list). A task handle is a natural number
  and \<open>0\<close> is \<open>NULL\<close>. An operation returns \<open>None\<close> when it does not return: a \<open>configASSERT\<close> fails, or
  an item on no list is removed, which follows a null pointer. Code between
  \<open>taskENTER_CRITICAL\<close> and \<open>taskEXIT_CRITICAL\<close> runs with interrupts masked and is one step of the
  model. \<open>portYIELD\<close> sets the software interrupt pending; its handler calls \<open>vTaskSwitchContext\<close>.
  Stacks, names and the memory of the task control blocks are not part of the state.
\<close>

section \<open>State\<close>

datatype list_id = ReadyList nat | DelayedTaskList1 | DelayedTaskList2 | PendingReadyList
  | TasksWaitingTermination | SuspendedTaskList | EventList nat

datatype list_item = StateItem nat | EventItem nat

fun owner :: "list_item \<Rightarrow> nat" where
  "owner (StateItem t) = t"
| "owner (EventItem t) = t"

datatype notify_state = taskNOT_WAITING_NOTIFICATION | taskWAITING_NOTIFICATION | taskNOTIFICATION_RECEIVED

record TCB =
  uxPriority :: nat
  uxBasePriority :: nat
  uxMutexesHeld :: u32
  ulNotifiedValue :: u32
  ucNotifyState :: notify_state
  ucDelayAborted :: bool

record kernel =
  tcb :: "nat \<Rightarrow> TCB"
  ls :: "(list_id, list_item) lspace"
  pxDelayedTaskList :: list_id
  pxOverflowDelayedTaskList :: list_id
  pxCurrentTCB :: nat
  uxDeletedTasksWaitingCleanUp :: u32
  uxCurrentNumberOfTasks :: u32
  xTickCount :: u32
  uxTopReadyPriority :: nat
  xSchedulerRunning :: bool
  xPendedTicks :: u32
  xYieldPending :: bool
  xNumOfOverflows :: u32
  uxTaskNumber :: u32
  xNextTaskUnblockTime :: u32
  uxSchedulerSuspended :: nat
  swi_pending :: bool

abbreviation (input) configMAX_PRIORITIES :: nat where "configMAX_PRIORITIES \<equiv> 15"

abbreviation (input) taskEVENT_LIST_ITEM_VALUE_IN_USE :: u32 where
  "taskEVENT_LIST_ITEM_VALUE_IN_USE \<equiv> 0x80000000"

abbreviation kseq :: "kernel \<Rightarrow> list_id \<Rightarrow> list_item list" where
  "kseq k \<equiv> seq (ls k)"

abbreviation set_tcb :: "nat \<Rightarrow> (TCB \<Rightarrow> TCB) \<Rightarrow> kernel \<Rightarrow> kernel" where
  "set_tcb t f k \<equiv> k\<lparr>tcb := (tcb k)(t := f (tcb k t))\<rparr>"

abbreviation prio :: "kernel \<Rightarrow> nat \<Rightarrow> nat" where
  "prio k t \<equiv> uxPriority (tcb k t)"

definition configASSERT :: "bool \<Rightarrow> unit option" where
  "configASSERT b = (if b then Some () else None)"

section \<open>Macros and list access\<close>

definition portYIELD :: "kernel \<Rightarrow> kernel" where
  "portYIELD k = k\<lparr>swi_pending := True\<rparr>"

definition list_remove :: "list_item \<Rightarrow> kernel \<Rightarrow> kernel option" where
  "list_remove i k = map_option (\<lambda>(n, s). k\<lparr>ls := s\<rparr>) (ls_remove i (ls k))"

definition list_insert_end :: "list_id \<Rightarrow> list_item \<Rightarrow> kernel \<Rightarrow> kernel" where
  "list_insert_end l i k = k\<lparr>ls := ls_insert_end l i (ls k)\<rparr>"

definition list_insert :: "list_id \<Rightarrow> list_item \<Rightarrow> kernel \<Rightarrow> kernel" where
  "list_insert l i k = k\<lparr>ls := ls_insert l i (ls k)\<rparr>"

definition set_item_value :: "list_item \<Rightarrow> u32 \<Rightarrow> kernel \<Rightarrow> kernel" where
  "set_item_value i v k = k\<lparr>ls := ls_set_value i v (ls k)\<rparr>"

definition remove_event_item :: "nat \<Rightarrow> kernel \<Rightarrow> kernel option" where
  "remove_event_item t k =
     (if cont (ls k) (EventItem t) \<noteq> None then list_remove (EventItem t) k else Some k)"

definition event_value :: "nat \<Rightarrow> u32" where
  "event_value p = of_nat configMAX_PRIORITIES - of_nat p"

definition set_event_value :: "nat \<Rightarrow> nat \<Rightarrow> kernel \<Rightarrow> kernel" where
  "set_event_value t p k =
     (if ival (ls k) (EventItem t) AND taskEVENT_LIST_ITEM_VALUE_IN_USE = 0
      then set_item_value (EventItem t) (event_value p) k else k)"

definition taskRECORD_READY_PRIORITY :: "nat \<Rightarrow> kernel \<Rightarrow> kernel" where
  "taskRECORD_READY_PRIORITY p k =
     (if p > uxTopReadyPriority k then k\<lparr>uxTopReadyPriority := p\<rparr> else k)"

definition prvAddTaskToReadyList :: "nat \<Rightarrow> kernel \<Rightarrow> kernel" where
  "prvAddTaskToReadyList t k =
     (let k1 = taskRECORD_READY_PRIORITY (prio k t) k
      in list_insert_end (ReadyList (prio k1 t)) (StateItem t) k1)"

text \<open>The search of \<open>taskSELECT_HIGHEST_PRIORITY_TASK\<close>; the assertion fails below priority 0.\<close>

fun highest_ready :: "nat \<Rightarrow> kernel \<Rightarrow> nat option" where
  "highest_ready p k =
     (if kseq k (ReadyList p) = [] then (if p = 0 then None else highest_ready (p - 1) k) else Some p)"

definition taskSELECT_HIGHEST_PRIORITY_TASK :: "kernel \<Rightarrow> kernel option" where
  "taskSELECT_HIGHEST_PRIORITY_TASK k = do {
     p \<leftarrow> highest_ready (uxTopReadyPriority k) k;
     (i, s) \<leftarrow> ls_next (ReadyList p) (ls k);
     Some (k\<lparr>ls := s, pxCurrentTCB := owner i, uxTopReadyPriority := p\<rparr>)
   }"

definition prvResetNextTaskUnblockTime :: "kernel \<Rightarrow> kernel" where
  "prvResetNextTaskUnblockTime k = k\<lparr>xNextTaskUnblockTime :=
     (case kseq k (pxDelayedTaskList k) of [] \<Rightarrow> portMAX_DELAY | i # _ \<Rightarrow> ival (ls k) i)\<rparr>"

definition taskSWITCH_DELAYED_LISTS :: "kernel \<Rightarrow> kernel option" where
  "taskSWITCH_DELAYED_LISTS k = do {
     configASSERT (kseq k (pxDelayedTaskList k) = []);
     let k1 = k\<lparr>pxDelayedTaskList := pxOverflowDelayedTaskList k,
               pxOverflowDelayedTaskList := pxDelayedTaskList k,
               xNumOfOverflows := xNumOfOverflows k + 1\<rparr>;
     Some (prvResetNextTaskUnblockTime k1)
   }"

definition prvGetTCBFromHandle :: "nat \<Rightarrow> kernel \<Rightarrow> nat" where
  "prvGetTCBFromHandle h k = (if h = 0 then pxCurrentTCB k else h)"

section \<open>Creation\<close>

fun initialise_lists :: "list_id list \<Rightarrow> (list_id, list_item) lspace \<Rightarrow> (list_id, list_item) lspace" where
  "initialise_lists [] s = s"
| "initialise_lists (l # lis) s = initialise_lists lis (ls_initialise l s)"

definition prvInitialiseTaskLists :: "kernel \<Rightarrow> kernel" where
  "prvInitialiseTaskLists k = k\<lparr>
     ls := initialise_lists (map ReadyList [0 ..< configMAX_PRIORITIES] @
        [DelayedTaskList1, DelayedTaskList2, PendingReadyList, TasksWaitingTermination, SuspendedTaskList]) (ls k),
     pxDelayedTaskList := DelayedTaskList1, pxOverflowDelayedTaskList := DelayedTaskList2\<rparr>"

text \<open>The fields of the new task control block; the stack frame is the port's.\<close>

definition prvInitialiseNewTask :: "nat \<Rightarrow> nat \<Rightarrow> kernel \<Rightarrow> kernel option" where
  "prvInitialiseNewTask uxPrio pxNewTCB k = do {
     configASSERT (uxPrio < configMAX_PRIORITIES);
     let k1 = k\<lparr>tcb := (tcb k)(pxNewTCB := \<lparr>uxPriority = uxPrio, uxBasePriority = uxPrio, uxMutexesHeld = 0,
                ulNotifiedValue = 0, ucNotifyState = taskNOT_WAITING_NOTIFICATION, ucDelayAborted = False\<rparr>),
               ls := (ls k)\<lparr>cont := (cont (ls k))(StateItem pxNewTCB := None, EventItem pxNewTCB := None)\<rparr>\<rparr>;
     Some (set_item_value (EventItem pxNewTCB) (event_value uxPrio) k1)
   }"

definition prvAddNewTaskToReadyList :: "nat \<Rightarrow> kernel \<Rightarrow> kernel" where
  "prvAddNewTaskToReadyList pxNewTCB k =
     (let k1 = k\<lparr>uxCurrentNumberOfTasks := uxCurrentNumberOfTasks k + 1\<rparr>;
          k2 = (if pxCurrentTCB k1 = 0
                then (let c = k1\<lparr>pxCurrentTCB := pxNewTCB\<rparr>
                      in if uxCurrentNumberOfTasks c = 1 then prvInitialiseTaskLists c else c)
                else if \<not> xSchedulerRunning k1 \<and> prio k1 (pxCurrentTCB k1) \<le> prio k1 pxNewTCB
                     then k1\<lparr>pxCurrentTCB := pxNewTCB\<rparr> else k1);
          k3 = k2\<lparr>uxTaskNumber := uxTaskNumber k2 + 1\<rparr>;
          k4 = prvAddTaskToReadyList pxNewTCB k3
      in if xSchedulerRunning k4 \<and> prio k4 (pxCurrentTCB k4) < prio k4 pxNewTCB
         then portYIELD k4 else k4)"

section \<open>Suspending the scheduler and the tick\<close>

definition vTaskSuspendAll :: "kernel \<Rightarrow> kernel" where
  "vTaskSuspendAll k = k\<lparr>uxSchedulerSuspended := uxSchedulerSuspended k + 1\<rparr>"

text \<open>
  The loop of \<open>xTaskIncrementTick\<close> that moves the tasks whose time has come to the ready lists. The
  flag tells whether a context switch is required.
\<close>

partial_function (option) unblock_tasks :: "bool \<Rightarrow> kernel \<Rightarrow> (bool \<times> kernel) option" where
  "unblock_tasks sw k =
     (case kseq k (pxDelayedTaskList k) of
        [] \<Rightarrow> Some (sw, k\<lparr>xNextTaskUnblockTime := portMAX_DELAY\<rparr>)
      | i # _ \<Rightarrow>
          (let t = owner i; v = ival (ls k) (StateItem t)
           in if xTickCount k < v then Some (sw, k\<lparr>xNextTaskUnblockTime := v\<rparr>)
              else Option.bind (list_remove (StateItem t) k) (\<lambda>k1.
                   Option.bind (remove_event_item t k1) (\<lambda>k2.
                     let k3 = prvAddTaskToReadyList t k2
                     in unblock_tasks (sw \<or> prio k3 t \<ge> prio k3 (pxCurrentTCB k3)) k3))))"

definition xTaskIncrementTick :: "kernel \<Rightarrow> (bool \<times> kernel) option" where
  "xTaskIncrementTick k =
     (if uxSchedulerSuspended k = 0
      then do {
        let k1 = k\<lparr>xTickCount := xTickCount k + 1\<rparr>;
        k2 \<leftarrow> (if xTickCount k1 = 0 then taskSWITCH_DELAYED_LISTS k1 else Some k1);
        (sw, k3) \<leftarrow> (if xTickCount k2 \<ge> xNextTaskUnblockTime k2 then unblock_tasks False k2 else Some (False, k2));
        let sw2 = (sw \<or> length (kseq k3 (ReadyList (prio k3 (pxCurrentTCB k3)))) > 1);
        Some (sw2 \<or> xYieldPending k3, k3)
      }
      else Some (False, k\<lparr>xPendedTicks := xPendedTicks k + 1\<rparr>))"

partial_function (option) ready_pending :: "kernel \<Rightarrow> kernel option" where
  "ready_pending k =
     (case kseq k PendingReadyList of
        [] \<Rightarrow> Some k
      | i # _ \<Rightarrow>
          (let t = owner i
           in Option.bind (list_remove (EventItem t) k) (\<lambda>k1.
              Option.bind (list_remove (StateItem t) k1) (\<lambda>k2.
                let k3 = prvAddTaskToReadyList t k2;
                    k4 = (if prio k3 t \<ge> prio k3 (pxCurrentTCB k3) then k3\<lparr>xYieldPending := True\<rparr> else k3)
                in ready_pending k4))))"

primrec pended_ticks :: "nat \<Rightarrow> kernel \<Rightarrow> kernel option" where
  "pended_ticks 0 k = Some k"
| "pended_ticks (Suc n) k = do {
     (sw, k1) \<leftarrow> xTaskIncrementTick k;
     pended_ticks n (if sw then k1\<lparr>xYieldPending := True\<rparr> else k1)
   }"

definition xTaskResumeAll :: "kernel \<Rightarrow> (bool \<times> kernel) option" where
  "xTaskResumeAll k = do {
     configASSERT (uxSchedulerSuspended k \<noteq> 0);
     let k1 = k\<lparr>uxSchedulerSuspended := uxSchedulerSuspended k - 1\<rparr>;
     if uxSchedulerSuspended k1 = 0 \<and> uxCurrentNumberOfTasks k1 > 0
     then do {
       k2 \<leftarrow> ready_pending k1;
       let k3 = (if kseq k1 PendingReadyList \<noteq> [] then prvResetNextTaskUnblockTime k2 else k2);
       k4 \<leftarrow> (if xPendedTicks k3 > 0
             then map_option (\<lambda>c. c\<lparr>xPendedTicks := 0\<rparr>) (pended_ticks (unat (xPendedTicks k3)) k3)
             else Some k3);
       Some (if xYieldPending k4 then (True, portYIELD k4) else (False, k4))
     }
     else Some (False, k1)
   }"

definition SysTick_Handler :: "kernel \<Rightarrow> kernel option" where
  "SysTick_Handler k = map_option (\<lambda>(sw, k1). if sw then portYIELD k1 else k1) (xTaskIncrementTick k)"

definition xTaskCatchUpTicks :: "u32 \<Rightarrow> kernel \<Rightarrow> (bool \<times> kernel) option" where
  "xTaskCatchUpTicks n k = do {
     configASSERT (uxSchedulerSuspended k = 0);
     let k1 = vTaskSuspendAll k;
     xTaskResumeAll (k1\<lparr>xPendedTicks := xPendedTicks k1 + n\<rparr>)
   }"

definition vTaskSwitchContext :: "kernel \<Rightarrow> kernel option" where
  "vTaskSwitchContext k =
     (if uxSchedulerSuspended k \<noteq> 0 then Some (k\<lparr>xYieldPending := True\<rparr>)
      else taskSELECT_HIGHEST_PRIORITY_TASK (k\<lparr>xYieldPending := False\<rparr>))"

section \<open>Delaying and waiting for events\<close>

definition prvAddCurrentTaskToDelayedList :: "u32 \<Rightarrow> bool \<Rightarrow> kernel \<Rightarrow> kernel option" where
  "prvAddCurrentTaskToDelayedList xTicksToWait xCanBlockIndefinitely k = do {
     let t = pxCurrentTCB k;
     k1 \<leftarrow> list_remove (StateItem t) (set_tcb t (ucDelayAborted_update (\<lambda>_. False)) k);
     if xTicksToWait = portMAX_DELAY \<and> xCanBlockIndefinitely
     then Some (list_insert_end SuspendedTaskList (StateItem t) k1)
     else (let xTimeToWake = xTickCount k + xTicksToWait;
               k2 = set_item_value (StateItem t) xTimeToWake k1
           in if xTimeToWake < xTickCount k
              then Some (list_insert (pxOverflowDelayedTaskList k2) (StateItem t) k2)
              else (let k3 = list_insert (pxDelayedTaskList k2) (StateItem t) k2
                    in Some (if xTimeToWake < xNextTaskUnblockTime k3
                             then k3\<lparr>xNextTaskUnblockTime := xTimeToWake\<rparr> else k3)))
   }"

definition vTaskDelay :: "u32 \<Rightarrow> kernel \<Rightarrow> kernel option" where
  "vTaskDelay xTicksToDelay k = do {
     (xAlreadyYielded, k1) \<leftarrow>
       (if xTicksToDelay > 0
        then do {
          configASSERT (uxSchedulerSuspended k = 0);
          k2 \<leftarrow> prvAddCurrentTaskToDelayedList xTicksToDelay False (vTaskSuspendAll k);
          xTaskResumeAll k2
        }
        else Some (False, k));
     Some (if xAlreadyYielded then k1 else portYIELD k1)
   }"

text \<open>The caller's \<open>*pxPreviousWakeTime\<close> is passed and returned.\<close>

definition xTaskDelayUntil :: "u32 \<Rightarrow> u32 \<Rightarrow> kernel \<Rightarrow> (bool \<times> u32 \<times> kernel) option" where
  "xTaskDelayUntil pxPreviousWakeTime xTimeIncrement k = do {
     configASSERT (xTimeIncrement > 0);
     configASSERT (uxSchedulerSuspended k = 0);
     let k1 = vTaskSuspendAll k;
     let xConstTickCount = xTickCount k1;
     let xTimeToWake = pxPreviousWakeTime + xTimeIncrement;
     let xShouldDelay =
       (if xConstTickCount < pxPreviousWakeTime
        then xTimeToWake < pxPreviousWakeTime \<and> xTimeToWake > xConstTickCount
        else xTimeToWake < pxPreviousWakeTime \<or> xTimeToWake > xConstTickCount);
     k2 \<leftarrow> (if xShouldDelay then prvAddCurrentTaskToDelayedList (xTimeToWake - xConstTickCount) False k1
           else Some k1);
     (xAlreadyYielded, k3) \<leftarrow> xTaskResumeAll k2;
     Some (xShouldDelay, xTimeToWake, if xAlreadyYielded then k3 else portYIELD k3)
   }"

definition vTaskPlaceOnEventList :: "nat \<Rightarrow> u32 \<Rightarrow> kernel \<Rightarrow> kernel option" where
  "vTaskPlaceOnEventList e xTicksToWait k =
     prvAddCurrentTaskToDelayedList xTicksToWait True (list_insert (EventList e) (EventItem (pxCurrentTCB k)) k)"

definition vTaskPlaceOnUnorderedEventList :: "nat \<Rightarrow> u32 \<Rightarrow> u32 \<Rightarrow> kernel \<Rightarrow> kernel option" where
  "vTaskPlaceOnUnorderedEventList e xItemVal xTicksToWait k = do {
     configASSERT (uxSchedulerSuspended k \<noteq> 0);
     let i = EventItem (pxCurrentTCB k);
     let k1 = set_item_value i (xItemVal OR taskEVENT_LIST_ITEM_VALUE_IN_USE) k;
     prvAddCurrentTaskToDelayedList xTicksToWait True (list_insert_end (EventList e) i k1)
   }"

definition vTaskPlaceOnEventListRestricted :: "nat \<Rightarrow> u32 \<Rightarrow> bool \<Rightarrow> kernel \<Rightarrow> kernel option" where
  "vTaskPlaceOnEventListRestricted e xTicksToWait xWaitIndefinitely k =
     prvAddCurrentTaskToDelayedList (if xWaitIndefinitely then portMAX_DELAY else xTicksToWait) xWaitIndefinitely
       (list_insert_end (EventList e) (EventItem (pxCurrentTCB k)) k)"

definition xTaskRemoveFromEventList :: "nat \<Rightarrow> kernel \<Rightarrow> (bool \<times> kernel) option" where
  "xTaskRemoveFromEventList e k =
     (case kseq k (EventList e) of
        [] \<Rightarrow> None
      | i # _ \<Rightarrow> do {
          let t = owner i;
          k1 \<leftarrow> list_remove (EventItem t) k;
          k2 \<leftarrow> (if uxSchedulerSuspended k1 = 0
                then map_option (prvAddTaskToReadyList t) (list_remove (StateItem t) k1)
                else Some (list_insert_end PendingReadyList (EventItem t) k1));
          Some (if prio k2 t > prio k2 (pxCurrentTCB k2) then (True, k2\<lparr>xYieldPending := True\<rparr>) else (False, k2))
        })"

definition vTaskRemoveFromUnorderedEventList :: "list_item \<Rightarrow> u32 \<Rightarrow> kernel \<Rightarrow> kernel option" where
  "vTaskRemoveFromUnorderedEventList pxEventListItem xItemVal k = do {
     configASSERT (uxSchedulerSuspended k \<noteq> 0);
     let k1 = set_item_value pxEventListItem (xItemVal OR taskEVENT_LIST_ITEM_VALUE_IN_USE) k;
     let t = owner pxEventListItem;
     k2 \<leftarrow> list_remove pxEventListItem k1;
     k3 \<leftarrow> list_remove (StateItem t) k2;
     let k4 = prvAddTaskToReadyList t k3;
     Some (if prio k4 t > prio k4 (pxCurrentTCB k4) then k4\<lparr>xYieldPending := True\<rparr> else k4)
   }"

definition uxTaskResetEventItemValue :: "kernel \<Rightarrow> u32 \<times> kernel" where
  "uxTaskResetEventItemValue k =
     (let t = pxCurrentTCB k
      in (ival (ls k) (EventItem t), set_item_value (EventItem t) (event_value (prio k t)) k))"

section \<open>Time-outs\<close>

record TimeOut_t =
  xOverflowCount :: u32
  xTimeOnEntering :: u32

definition vTaskInternalSetTimeOutState :: "kernel \<Rightarrow> TimeOut_t" where
  "vTaskInternalSetTimeOutState k = \<lparr>xOverflowCount = xNumOfOverflows k, xTimeOnEntering = xTickCount k\<rparr>"

definition vTaskSetTimeOutState :: "kernel \<Rightarrow> TimeOut_t" where
  "vTaskSetTimeOutState k = \<lparr>xOverflowCount = xNumOfOverflows k, xTimeOnEntering = xTickCount k\<rparr>"

text \<open>The result, the time-out structure and the remaining time, and the kernel.\<close>

definition xTaskCheckForTimeOut :: "TimeOut_t \<Rightarrow> u32 \<Rightarrow> kernel \<Rightarrow> bool \<times> TimeOut_t \<times> u32 \<times> kernel" where
  "xTaskCheckForTimeOut pxTimeOut pxTicksToWait k =
     (let xConstTickCount = xTickCount k;
          xElapsedTime = xConstTickCount - xTimeOnEntering pxTimeOut
      in if ucDelayAborted (tcb k (pxCurrentTCB k))
         then (True, pxTimeOut, pxTicksToWait, set_tcb (pxCurrentTCB k) (ucDelayAborted_update (\<lambda>_. False)) k)
         else if pxTicksToWait = portMAX_DELAY then (False, pxTimeOut, pxTicksToWait, k)
         else if xNumOfOverflows k \<noteq> xOverflowCount pxTimeOut \<and> xConstTickCount \<ge> xTimeOnEntering pxTimeOut
         then (True, pxTimeOut, 0, k)
         else if xElapsedTime < pxTicksToWait
         then (False, vTaskInternalSetTimeOutState k, pxTicksToWait - xElapsedTime, k)
         else (True, pxTimeOut, 0, k))"

definition vTaskMissedYield :: "kernel \<Rightarrow> kernel" where
  "vTaskMissedYield k = k\<lparr>xYieldPending := True\<rparr>"

end
