(* ===== verification/Kernel_Ticks.thy ===== *)
theory Kernel_Ticks
  imports Kernel_Tasks
begin

text \<open>
  The invariant of the scheduler and the behaviour of the tick: which tasks a tick wakes, what the
  delayed lists hold across the wrap-around of the tick count, and what resuming the scheduler does
  with the ticks that were held back.
\<close>

declare highest_ready.simps [simp del]

section \<open>The scheduler invariant\<close>

abbreviation kcont :: "kernel \<Rightarrow> list_item \<Rightarrow> list_id option" where
  "kcont k \<equiv> cont (ls k)"

abbreviation kval :: "kernel \<Rightarrow> list_item \<Rightarrow> u32" where
  "kval k \<equiv> ival (ls k)"

text \<open>Where a state item and an event item may be.\<close>

definition state_place :: "kernel \<Rightarrow> nat \<Rightarrow> list_id \<Rightarrow> bool" where
  "state_place k t l \<longleftrightarrow>
     (case l of
        ReadyList p \<Rightarrow> prio k t = p \<and> p \<le> uxTopReadyPriority k
      | PendingReadyList \<Rightarrow> False
      | EventList _ \<Rightarrow> False
      | _ \<Rightarrow> True)"

definition blocked_list :: "list_id option \<Rightarrow> bool" where
  "blocked_list c \<longleftrightarrow> c = Some DelayedTaskList1 \<or> c = Some DelayedTaskList2 \<or> c = Some SuspendedTaskList"

definition event_place :: "list_id \<Rightarrow> bool" where
  "event_place l \<longleftrightarrow> l = PendingReadyList \<or> (\<exists>e. l = EventList e)"

definition kcore :: "kernel \<Rightarrow> bool" where
  "kcore k \<longleftrightarrow> ls_wf (ls k) \<and>
     (\<forall>t l. kcont k (StateItem t) = Some l \<longrightarrow> state_place k t l) \<and>
     (\<forall>t l. kcont k (EventItem t) = Some l \<longrightarrow> event_place l \<and> blocked_list (kcont k (StateItem t))) \<and>
     (pxDelayedTaskList k = DelayedTaskList1 \<and> pxOverflowDelayedTaskList k = DelayedTaskList2 \<or>
      pxDelayedTaskList k = DelayedTaskList2 \<and> pxOverflowDelayedTaskList k = DelayedTaskList1) \<and>
     sorted (map (kval k) (kseq k (pxDelayedTaskList k))) \<and>
     sorted (map (kval k) (kseq k (pxOverflowDelayedTaskList k)))"

text \<open>
  A task in the delayed list wakes later in this round of the tick count, one in the overflow list
  in the next; no task of the delayed list wakes before \<open>xNextTaskUnblockTime\<close>.
\<close>

definition ktime :: "kernel \<Rightarrow> bool" where
  "ktime k \<longleftrightarrow>
     (\<forall>t. kcont k (StateItem t) = Some (pxDelayedTaskList k) \<longrightarrow>
        xTickCount k < kval k (StateItem t) \<and> xNextTaskUnblockTime k \<le> kval k (StateItem t)) \<and>
     (\<forall>t. kcont k (StateItem t) = Some (pxOverflowDelayedTaskList k) \<longrightarrow> kval k (StateItem t) < xTickCount k)"

definition kinv :: "kernel \<Rightarrow> bool" where
  "kinv k \<longleftrightarrow> kcore k \<and> ktime k \<and> (uxSchedulerSuspended k = 0 \<longrightarrow> kseq k PendingReadyList = [])"

lemma kcore_D:
  assumes "kcore k"
  shows "ls_wf (ls k)" "\<And>t l. kcont k (StateItem t) = Some l \<Longrightarrow> state_place k t l"
    "\<And>t l. kcont k (EventItem t) = Some l \<Longrightarrow> event_place l \<and> blocked_list (kcont k (StateItem t))"
    "pxDelayedTaskList k = DelayedTaskList1 \<and> pxOverflowDelayedTaskList k = DelayedTaskList2 \<or>
     pxDelayedTaskList k = DelayedTaskList2 \<and> pxOverflowDelayedTaskList k = DelayedTaskList1"
    "sorted (map (kval k) (kseq k (pxDelayedTaskList k)))"
    "sorted (map (kval k) (kseq k (pxOverflowDelayedTaskList k)))"
  using assms by (simp_all add: kcore_def)

lemma kcore_fields:
  assumes "ls k' = ls k" "tcb k' = tcb k" "uxTopReadyPriority k' = uxTopReadyPriority k"
    "pxDelayedTaskList k' = pxDelayedTaskList k" "pxOverflowDelayedTaskList k' = pxOverflowDelayedTaskList k"
  shows "kcore k' = kcore k"
proof -
  have "state_place k' = state_place k"
    by (intro ext) (auto simp: state_place_def assms split: list_id.splits)
  then show ?thesis using assms by (simp add: kcore_def)
qed

lemma kseq_iff: "kcore k \<Longrightarrow> i \<in> set (kseq k l) \<longleftrightarrow> kcont k i = Some l"
  by (rule ls_wf_D(2) [OF kcore_D(1)])

lemma list_remove_Some:
  assumes wf: "ls_wf (ls k)" and c: "kcont k i = Some l"
  shows "\<exists>s. list_remove i k = Some (k\<lparr>ls := s\<rparr>) \<and> ls_wf s \<and> seq s = (kseq k)(l := remove1 i (kseq k l)) \<and>
    cont s = (kcont k)(i := None) \<and> ival s = kval k"
  using ls_remove_Some [OF wf c] by (auto simp: list_remove_def)

text \<open>What happens to a task that is made ready, wherever it waited.\<close>

definition wake :: "nat \<Rightarrow> kernel \<Rightarrow> kernel option" where
  "wake t k = do {
     k1 \<leftarrow> list_remove (StateItem t) k;
     k2 \<leftarrow> remove_event_item t k1;
     Some (prvAddTaskToReadyList t k2)
   }"

lemma remove1_other: "ls_wf s \<Longrightarrow> cont s i \<noteq> Some l \<Longrightarrow> remove1 i (seq s l) = seq s l"
  by (simp add: ls_wf_D(2) remove1_idem)

lemma remove_event_item_Some:
  assumes wf: "ls_wf (ls k)"
  shows "\<exists>s. remove_event_item t k = Some (k\<lparr>ls := s\<rparr>) \<and> ls_wf s \<and>
    (\<forall>l. seq s l = remove1 (EventItem t) (kseq k l)) \<and> cont s = (kcont k)(EventItem t := None) \<and> ival s = kval k"
proof (cases "kcont k (EventItem t)")
  case None
  then have "(kcont k)(EventItem t := None) = kcont k" by (simp add: fun_upd_idem)
  then show ?thesis using None wf remove1_other [OF wf] by (intro exI [of _ "ls k"]) (simp add: remove_event_item_def)
next
  case (Some l)
  then obtain s where s: "list_remove (EventItem t) k = Some (k\<lparr>ls := s\<rparr>)" "ls_wf s"
      "seq s = (kseq k)(l := remove1 (EventItem t) (kseq k l))" "cont s = (kcont k)(EventItem t := None)" "ival s = kval k"
    using list_remove_Some [OF wf Some] by blast
  have "seq s l' = remove1 (EventItem t) (kseq k l')" for l'
    using s(3) remove1_other [OF wf, of "EventItem t" l'] Some by (cases "l' = l") auto
  then show ?thesis using s Some by (auto simp: remove_event_item_def)
qed

lemma prvAddTaskToReadyList_eq:
  "prvAddTaskToReadyList t k = k\<lparr>ls := ls_insert_end (ReadyList (prio k t)) (StateItem t) (ls k),
     uxTopReadyPriority := max (uxTopReadyPriority k) (prio k t)\<rparr>"
  by (simp add: prvAddTaskToReadyList_def taskRECORD_READY_PRIORITY_def list_insert_end_def Let_def max_def)

lemma wake_Some:
  assumes wf: "ls_wf (ls k)" and c: "kcont k (StateItem t) = Some l"
  shows "\<exists>s. wake t k = Some (k\<lparr>ls := s, uxTopReadyPriority := max (uxTopReadyPriority k) (prio k t)\<rparr>) \<and>
    ls_wf s \<and> cont s = (kcont k)(StateItem t := Some (ReadyList (prio k t)), EventItem t := None) \<and> ival s = kval k \<and>
    (\<forall>l'. l' \<noteq> ReadyList (prio k t) \<longrightarrow> seq s l' = remove1 (EventItem t) (remove1 (StateItem t) (kseq k l')))"
proof -
  obtain s1 where s1: "list_remove (StateItem t) k = Some (k\<lparr>ls := s1\<rparr>)" "ls_wf s1"
      "seq s1 = (kseq k)(l := remove1 (StateItem t) (kseq k l))" "cont s1 = (kcont k)(StateItem t := None)" "ival s1 = kval k"
    using list_remove_Some [OF wf c] by blast
  obtain s2 where s2: "remove_event_item t (k\<lparr>ls := s1\<rparr>) = Some (k\<lparr>ls := s2\<rparr>)" "ls_wf s2"
      "\<forall>l. seq s2 l = remove1 (EventItem t) (seq s1 l)" "cont s2 = (cont s1)(EventItem t := None)" "ival s2 = ival s1"
    using remove_event_item_Some [of "k\<lparr>ls := s1\<rparr>" t] s1(2) by auto
  let ?s = "ls_insert_end (ReadyList (prio k t)) (StateItem t) s2"
  have "cont s2 (StateItem t) = None" by (simp add: s2 s1)
  then have "ls_wf ?s" by (rule ls_wf_insert_end [OF s2(2)])
  moreover have "cont ?s = (kcont k)(StateItem t := Some (ReadyList (prio k t)), EventItem t := None)"
    by (auto simp: s2 s1 fun_eq_iff)
  moreover have "seq s1 l' = remove1 (StateItem t) (kseq k l')" for l'
    using s1(3) remove1_other [OF wf, of "StateItem t" l'] c by (cases "l' = l") auto
  ultimately show ?thesis
    by (intro exI [of _ ?s]) (simp add: wake_def s1(1) s2 prvAddTaskToReadyList_eq s1(5))
qed

lemma kcore_wake:
  assumes core: "kcore k" and c: "kcont k (StateItem t) = Some l"
  shows "\<exists>k'. wake t k = Some k' \<and> kcore k' \<and>
    kcont k' = (kcont k)(StateItem t := Some (ReadyList (prio k t)), EventItem t := None) \<and> kval k' = kval k \<and>
    (\<forall>l'. l' \<noteq> ReadyList (prio k t) \<longrightarrow> kseq k' l' = remove1 (EventItem t) (remove1 (StateItem t) (kseq k l'))) \<and>
    (\<exists>s m. k' = k\<lparr>ls := s, uxTopReadyPriority := m\<rparr>)"
proof -
  note D = kcore_D [OF core]
  obtain s where s: "wake t k = Some (k\<lparr>ls := s, uxTopReadyPriority := max (uxTopReadyPriority k) (prio k t)\<rparr>)"
      "ls_wf s" "cont s = (kcont k)(StateItem t := Some (ReadyList (prio k t)), EventItem t := None)" "ival s = kval k"
      "\<forall>l'. l' \<noteq> ReadyList (prio k t) \<longrightarrow> seq s l' = remove1 (EventItem t) (remove1 (StateItem t) (kseq k l'))"
    using wake_Some [OF D(1) c] by blast
  let ?k = "k\<lparr>ls := s, uxTopReadyPriority := max (uxTopReadyPriority k) (prio k t)\<rparr>"
  have "state_place ?k u l'" if "cont s (StateItem u) = Some l'" for u l'
    using that D(2) [of u l'] by (auto simp: s(3) state_place_def split: if_splits list_id.splits)
  moreover have "event_place l' \<and> blocked_list (cont s (StateItem u))" if "cont s (EventItem u) = Some l'" for u l'
    using that D(3) [of u l'] by (auto simp: s(3) blocked_list_def split: if_splits)
  moreover have "sorted (map (kval k) (seq s l'))" if "l' = pxDelayedTaskList k \<or> l' = pxOverflowDelayedTaskList k" for l'
    using that D(4,5,6) s(5) by (auto intro!: sorted_map_remove1)
  ultimately have "kcore ?k" using D(4) s(2,4) by (auto simp: kcore_def)
  then show ?thesis using s by auto
qed

section \<open>The tick\<close>

lemma unblock_tasks_step:
  "unblock_tasks sw k =
     (case kseq k (pxDelayedTaskList k) of
        [] \<Rightarrow> Some (sw, k\<lparr>xNextTaskUnblockTime := portMAX_DELAY\<rparr>)
      | i # _ \<Rightarrow>
          if xTickCount k < kval k (StateItem (owner i))
          then Some (sw, k\<lparr>xNextTaskUnblockTime := kval k (StateItem (owner i))\<rparr>)
          else Option.bind (wake (owner i) k) (\<lambda>k3.
                 unblock_tasks (sw \<or> prio k3 (owner i) \<ge> prio k3 (pxCurrentTCB k3)) k3))"
  by (subst unblock_tasks.simps) (simp add: wake_def Let_def Option.bind_assoc split: list.splits)

lemma delayed_head:
  assumes core: "kcore k" and hd: "kseq k (pxDelayedTaskList k) = i # is"
  shows "\<exists>t. i = StateItem t \<and> kcont k (StateItem t) = Some (pxDelayedTaskList k) \<and>
    (\<forall>u. kcont k (StateItem u) = Some (pxDelayedTaskList k) \<longrightarrow> kval k (StateItem t) \<le> kval k (StateItem u))"
proof -
  note D = kcore_D [OF core]
  have ci: "kcont k i = Some (pxDelayedTaskList k)" using hd kseq_iff [OF core] by (metis list.set_intros(1))
  have "\<not> event_place (pxDelayedTaskList k)" using D(4) by (auto simp: event_place_def)
  then obtain t where t: "i = StateItem t" using ci D(3) by (cases i) auto
  have "kval k (StateItem t) \<le> kval k (StateItem u)" if "kcont k (StateItem u) = Some (pxDelayedTaskList k)" for u
    using that hd D(5) t kseq_iff [OF core, of "StateItem u" "pxDelayedTaskList k"] by auto
  then show ?thesis using t ci by blast
qed

definition woken :: "kernel \<Rightarrow> nat \<Rightarrow> bool" where
  "woken k t \<longleftrightarrow> kcont k (StateItem t) = Some (pxDelayedTaskList k) \<and> kval k (StateItem t) \<le> xTickCount k"

definition after_unblock :: "kernel \<Rightarrow> kernel \<Rightarrow> bool" where
  "after_unblock k k' \<longleftrightarrow> kcore k' \<and> kval k' = kval k \<and>
     (\<exists>s m n. k' = k\<lparr>ls := s, uxTopReadyPriority := m, xNextTaskUnblockTime := n\<rparr>) \<and>
     (\<forall>t. kcont k' (StateItem t) = (if woken k t then Some (ReadyList (prio k t)) else kcont k (StateItem t)) \<and>
          kcont k' (EventItem t) = (if woken k t then None else kcont k (EventItem t))) \<and>
     (\<forall>t. kcont k' (StateItem t) = Some (pxDelayedTaskList k) \<longrightarrow> xNextTaskUnblockTime k' \<le> kval k (StateItem t))"

lemma after_unblock_none:
  assumes core: "kcore k" and none: "\<And>t. \<not> woken k t"
    and nx: "\<And>t. kcont k (StateItem t) = Some (pxDelayedTaskList k) \<Longrightarrow> v \<le> kval k (StateItem t)"
  shows "after_unblock k (k\<lparr>xNextTaskUnblockTime := v\<rparr>)"
proof -
  have "kcore (k\<lparr>xNextTaskUnblockTime := v\<rparr>)" using core kcore_fields [of "k\<lparr>xNextTaskUnblockTime := v\<rparr>" k] by simp
  moreover have "\<exists>s m n. k\<lparr>xNextTaskUnblockTime := v\<rparr> = k\<lparr>ls := s, uxTopReadyPriority := m, xNextTaskUnblockTime := n\<rparr>"
    by (intro exI [of _ "ls k"] exI [of _ "uxTopReadyPriority k"] exI [of _ v]) simp
  ultimately show ?thesis using none nx by (simp add: after_unblock_def)
qed

lemma unblock_tasks_spec:
  assumes "kcore k"
  shows "\<exists>sw' k'. unblock_tasks sw k = Some (sw', k') \<and> after_unblock k k' \<and>
    (sw' \<longleftrightarrow> sw \<or> (\<exists>t. woken k t \<and> prio k (pxCurrentTCB k) \<le> prio k t))"
  using assms
proof (induction "length (kseq k (pxDelayedTaskList k))" arbitrary: k sw rule: less_induct)
  case less
  note core = less.prems
  let ?D = "pxDelayedTaskList k"
  show ?case
  proof (cases "kseq k ?D")
    case Nil
    then have none: "kcont k (StateItem t) \<noteq> Some ?D" for t using kseq_iff [OF core, of "StateItem t" ?D] by simp
    then have "\<not> woken k t" for t by (simp add: woken_def)
    moreover from this have "after_unblock k (k\<lparr>xNextTaskUnblockTime := portMAX_DELAY\<rparr>)"
      using none by (intro after_unblock_none [OF core]) auto
    ultimately show ?thesis using Nil by (subst unblock_tasks_step) auto
  next
    case (Cons i "is")
    obtain t where t: "i = StateItem t" "kcont k (StateItem t) = Some ?D"
        "\<forall>u. kcont k (StateItem u) = Some ?D \<longrightarrow> kval k (StateItem t) \<le> kval k (StateItem u)"
      using delayed_head [OF core Cons] by blast
    show ?thesis
    proof (cases "xTickCount k < kval k (StateItem t)")
      case True
      then have "\<not> woken k u" for u using t(3) by (auto simp: woken_def)
      moreover from this have "after_unblock k (k\<lparr>xNextTaskUnblockTime := kval k (StateItem t)\<rparr>)"
        using t(3) by (intro after_unblock_none [OF core]) auto
      ultimately show ?thesis using Cons True t(1) by (subst unblock_tasks_step) auto
    next
      case False
      obtain k1 where k1: "wake t k = Some k1" "kcore k1" "kval k1 = kval k"
          "kcont k1 = (kcont k)(StateItem t := Some (ReadyList (prio k t)), EventItem t := None)"
          "\<forall>l'. l' \<noteq> ReadyList (prio k t) \<longrightarrow> kseq k1 l' = remove1 (EventItem t) (remove1 (StateItem t) (kseq k l'))"
          "\<exists>s m. k1 = k\<lparr>ls := s, uxTopReadyPriority := m\<rparr>"
        using kcore_wake [OF core t(2)] by blast
      then have f: "pxDelayedTaskList k1 = ?D" "xTickCount k1 = xTickCount k" "tcb k1 = tcb k" "pxCurrentTCB k1 = pxCurrentTCB k"
        by auto
      have nr: "?D \<noteq> ReadyList p" for p using kcore_D(4) [OF core] by auto
      have "length (kseq k1 ?D) < length (kseq k ?D)"
        using k1(5) nr Cons t(1) by (simp add: length_remove1 le_imp_less_Suc)
      then obtain sw' k' where k': "unblock_tasks (sw \<or> prio k (pxCurrentTCB k) \<le> prio k t) k1 = Some (sw', k')"
          "after_unblock k1 k'" "sw' \<longleftrightarrow> (sw \<or> prio k (pxCurrentTCB k) \<le> prio k t) \<or> (\<exists>u. woken k1 u \<and> prio k (pxCurrentTCB k) \<le> prio k u)"
        using less.hyps [of k1 "sw \<or> prio k (pxCurrentTCB k) \<le> prio k t"] k1(2) f by auto
      have w: "woken k u \<longleftrightarrow> u = t \<or> woken k1 u" for u
        using False t(2) nr by (auto simp: woken_def f k1(3,4))
      obtain s m where e1: "k1 = k\<lparr>ls := s, uxTopReadyPriority := m\<rparr>" using k1(6) by blast
      obtain s' m' n' where "k' = k1\<lparr>ls := s', uxTopReadyPriority := m', xNextTaskUnblockTime := n'\<rparr>"
        using k'(2) unfolding after_unblock_def by blast
      then have "k' = k\<lparr>ls := s', uxTopReadyPriority := m', xNextTaskUnblockTime := n'\<rparr>" by (simp add: e1)
      then have rest: "\<exists>s m n. k' = k\<lparr>ls := s, uxTopReadyPriority := m, xNextTaskUnblockTime := n\<rparr>" by blast
      have conts: "kcont k' (StateItem u) = (if woken k u then Some (ReadyList (prio k u)) else kcont k (StateItem u)) \<and>
          kcont k' (EventItem u) = (if woken k u then None else kcont k (EventItem u))" for u
        using k'(2) w [of u] unfolding after_unblock_def by (simp add: k1(3,4) f)
      note a = k'(2) [unfolded after_unblock_def k1(3) f(1)]
      have "after_unblock k k'" unfolding after_unblock_def using a rest conts by blast
      moreover have "unblock_tasks sw k = Some (sw', k')"
        using Cons False t(1) k1(1) k'(1) f by (subst unblock_tasks_step) simp
      moreover have "sw' \<longleftrightarrow> sw \<or> (\<exists>u. woken k u \<and> prio k (pxCurrentTCB k) \<le> prio k u)"
        unfolding k'(3) w by auto
      ultimately show ?thesis by (intro exI conjI)
    qed
  qed
qed

text \<open>A task that waits for a time.\<close>

definition delayed :: "kernel \<Rightarrow> nat \<Rightarrow> bool" where
  "delayed k t \<longleftrightarrow> kcont k (StateItem t) = Some DelayedTaskList1 \<or> kcont k (StateItem t) = Some DelayedTaskList2"

lemma delayed_iff:
  "kcore k \<Longrightarrow> delayed k t \<longleftrightarrow>
     kcont k (StateItem t) = Some (pxDelayedTaskList k) \<or> kcont k (StateItem t) = Some (pxOverflowDelayedTaskList k)"
  using kcore_D(4) [of k] by (auto simp: delayed_def)

text \<open>The state after the tick count is advanced and, at the wrap-around, the lists are swapped.\<close>

definition advance :: "kernel \<Rightarrow> kernel option" where
  "advance k = (let k1 = k\<lparr>xTickCount := xTickCount k + 1\<rparr>
                in if xTickCount k1 = 0 then taskSWITCH_DELAYED_LISTS k1 else Some k1)"

lemma u32_inc:
  fixes x y :: u32
  assumes "x + 1 \<noteq> 0"
  shows "x < x + 1" "y \<le> x + 1 \<longleftrightarrow> y \<le> x \<or> y = x + 1" "y < x + 1 \<longleftrightarrow> y \<le> x"
  using assms by (uint_arith; simp)+

lemma max_u32: "(x :: u32) + 1 = 0 \<Longrightarrow> \<not> x < y"
  by (metis add.commute add_eq_0_iff2 word_n1_ge not_less)

lemma sorted_head_le:
  assumes "sorted (map f (x # xs))" and "y \<in> set (x # xs)"
  shows "f x \<le> f y"
  using assms by auto

lemma advance_spec:
  assumes inv: "kinv k"
  shows "\<exists>k2. advance k = Some k2 \<and> kcore k2 \<and> ls k2 = ls k \<and> xTickCount k2 = xTickCount k + 1 \<and>
    (\<forall>t. kcont k (StateItem t) = Some (pxDelayedTaskList k2) \<longrightarrow> xNextTaskUnblockTime k2 \<le> kval k (StateItem t)) \<and>
    (\<forall>t. kcont k (StateItem t) = Some (pxOverflowDelayedTaskList k2) \<longrightarrow> kval k (StateItem t) < xTickCount k2) \<and>
    (\<forall>t. woken k2 t \<longleftrightarrow> delayed k t \<and> kval k (StateItem t) = xTickCount k + 1) \<and>
    (\<exists>d ov n. k2 = k\<lparr>xTickCount := xTickCount k + 1, pxDelayedTaskList := d, pxOverflowDelayedTaskList := ov,
       xNumOfOverflows := xNumOfOverflows k + (if xTickCount k + 1 = 0 then 1 else 0), xNextTaskUnblockTime := n\<rparr>)"
proof -
  have core: "kcore k" and tm: "ktime k" using inv by (simp_all add: kinv_def)
  note D = kcore_D [OF core]
  have d: "kcont k (StateItem t) = Some (pxDelayedTaskList k) \<Longrightarrow>
      xTickCount k < kval k (StateItem t) \<and> xNextTaskUnblockTime k \<le> kval k (StateItem t)"
    and ov: "kcont k (StateItem t) = Some (pxOverflowDelayedTaskList k) \<Longrightarrow> kval k (StateItem t) < xTickCount k" for t
    using tm by (auto simp: ktime_def)
  have ne: "pxDelayedTaskList k \<noteq> pxOverflowDelayedTaskList k" using D(4) by auto
  show ?thesis
  proof (cases "xTickCount k + 1 = 0")
    case False
    let ?k2 = "k\<lparr>xTickCount := xTickCount k + 1\<rparr>"
    note inc = u32_inc [OF False]
    have "kcore ?k2" using core kcore_fields [of ?k2 k] by simp
    moreover have "woken ?k2 t \<longleftrightarrow> delayed k t \<and> kval k (StateItem t) = xTickCount k + 1" for t
      using d [of t] ov [of t] inc ne order.asym [OF inc(1)] by (auto simp: woken_def delayed_iff [OF core])
    moreover have "kval k (StateItem t) < xTickCount k + 1"
      if "kcont k (StateItem t) = Some (pxOverflowDelayedTaskList k)" for t using ov [OF that] inc by auto
    moreover have e: "\<exists>d ov n. ?k2 = k\<lparr>xTickCount := xTickCount k + 1, pxDelayedTaskList := d,
        pxOverflowDelayedTaskList := ov, xNumOfOverflows := xNumOfOverflows k + (if xTickCount k + 1 = 0 then 1 else 0),
        xNextTaskUnblockTime := n\<rparr>"
      by (rule exI [of _ "pxDelayedTaskList k"], rule exI [of _ "pxOverflowDelayedTaskList k"],
          rule exI [of _ "xNextTaskUnblockTime k"]) (simp add: False)
    ultimately show ?thesis using False d by (intro exI [of _ ?k2] conjI e) (auto simp: advance_def)
  next
    case True
    have empty: "kseq k (pxDelayedTaskList k) = []"
    proof (rule ccontr)
      assume "kseq k (pxDelayedTaskList k) \<noteq> []"
      then obtain i "is" where "kseq k (pxDelayedTaskList k) = i # is" by (cases "kseq k (pxDelayedTaskList k)") auto
      then obtain t where "kcont k (StateItem t) = Some (pxDelayedTaskList k)" using delayed_head [OF core] by blast
      then show False using d [of t] max_u32 [OF True] by blast
    qed
    then have noD: "kcont k (StateItem t) \<noteq> Some (pxDelayedTaskList k)" for t
      using kseq_iff [OF core, of "StateItem t" "pxDelayedTaskList k"] by simp
    let ?n = "case kseq k (pxOverflowDelayedTaskList k) of [] \<Rightarrow> portMAX_DELAY | i # _ \<Rightarrow> kval k i"
    let ?k2 = "k\<lparr>xTickCount := xTickCount k + 1, pxDelayedTaskList := pxOverflowDelayedTaskList k,
      pxOverflowDelayedTaskList := pxDelayedTaskList k, xNumOfOverflows := xNumOfOverflows k + 1, xNextTaskUnblockTime := ?n\<rparr>"
    have run: "advance k = Some ?k2"
      using True empty 
      by (simp add: advance_def taskSWITCH_DELAYED_LISTS_def configASSERT_def prvResetNextTaskUnblockTime_def Let_def
          split: list.splits)
    have "state_place ?k2 = state_place k"
      by (intro ext) (auto simp: state_place_def split: list_id.splits)
    then have "kcore ?k2" using core unfolding kcore_def by auto
    moreover have "woken ?k2 t \<longleftrightarrow> delayed k t \<and> kval k (StateItem t) = xTickCount k + 1" for t
      using noD [of t] True by (auto simp: woken_def delayed_iff [OF core])
    moreover have "?n \<le> kval k (StateItem t)" if "kcont k (StateItem t) = Some (pxOverflowDelayedTaskList k)" for t
      using D(6) kseq_iff [OF core, of "StateItem t" "pxOverflowDelayedTaskList k"] that by (auto split: list.splits)
    ultimately show ?thesis using True noD run by (intro exI [of _ ?k2]) auto
  qed
qed

text \<open>
  One tick, when the scheduler is not suspended: exactly the tasks whose time has come become ready
  and leave their event lists; all other tasks stay where they are.
\<close>

definition ticked :: "kernel \<Rightarrow> kernel \<Rightarrow> bool" where
  "ticked k k' \<longleftrightarrow> kinv k' \<and> kval k' = kval k \<and>
     (\<forall>t. kcont k' (StateItem t) =
            (if delayed k t \<and> kval k (StateItem t) = xTickCount k + 1 then Some (ReadyList (prio k t))
             else kcont k (StateItem t)) \<and>
          kcont k' (EventItem t) =
            (if delayed k t \<and> kval k (StateItem t) = xTickCount k + 1 then None else kcont k (EventItem t))) \<and>
     (\<exists>s m d ov n. k' = k\<lparr>ls := s, uxTopReadyPriority := m, xTickCount := xTickCount k + 1,
        pxDelayedTaskList := d, pxOverflowDelayedTaskList := ov,
        xNumOfOverflows := xNumOfOverflows k + (if xTickCount k + 1 = 0 then 1 else 0), xNextTaskUnblockTime := n\<rparr>)"

lemma xTaskIncrementTick_ticked:
  assumes inv: "kinv k" and run: "uxSchedulerSuspended k = 0"
  shows "\<exists>sw k'. xTaskIncrementTick k = Some (sw, k') \<and> ticked k k' \<and>
    (sw \<longleftrightarrow> (\<exists>t. delayed k t \<and> kval k (StateItem t) = xTickCount k + 1 \<and> prio k (pxCurrentTCB k) \<le> prio k t) \<or>
       length (kseq k' (ReadyList (prio k (pxCurrentTCB k)))) > 1 \<or> xYieldPending k)"
proof -
  obtain k2 d ov n where k2: "advance k = Some k2" "kcore k2" "ls k2 = ls k" "xTickCount k2 = xTickCount k + 1"
      "\<forall>t. kcont k (StateItem t) = Some (pxDelayedTaskList k2) \<longrightarrow> xNextTaskUnblockTime k2 \<le> kval k (StateItem t)"
      "\<forall>t. kcont k (StateItem t) = Some (pxOverflowDelayedTaskList k2) \<longrightarrow> kval k (StateItem t) < xTickCount k2"
      "\<forall>t. woken k2 t \<longleftrightarrow> delayed k t \<and> kval k (StateItem t) = xTickCount k + 1"
      "k2 = k\<lparr>xTickCount := xTickCount k + 1, pxDelayedTaskList := d, pxOverflowDelayedTaskList := ov,
        xNumOfOverflows := xNumOfOverflows k + (if xTickCount k + 1 = 0 then 1 else 0), xNextTaskUnblockTime := n\<rparr>"
    using advance_spec [OF inv] by blast
  have "\<exists>sw k3. (if xTickCount k2 \<ge> xNextTaskUnblockTime k2 then unblock_tasks False k2 else Some (False, k2)) = Some (sw, k3) \<and>
      after_unblock k2 k3 \<and> (sw \<longleftrightarrow> (\<exists>t. woken k2 t \<and> prio k2 (pxCurrentTCB k2) \<le> prio k2 t))"
  proof (cases "xTickCount k2 \<ge> xNextTaskUnblockTime k2")
    case True
    then show ?thesis using unblock_tasks_spec [OF k2(2), of False] by simp
  next
    case False
    then have none: "\<not> woken k2 t" for t using k2(3,5) by (auto simp: woken_def)
    have "after_unblock k2 (k2\<lparr>xNextTaskUnblockTime := xNextTaskUnblockTime k2\<rparr>)"
      using k2(3,5) none by (intro after_unblock_none [OF k2(2)]) auto
    then have "after_unblock k2 k2" by simp
    then show ?thesis using False none by auto
  qed
  then obtain sw k3 where k3: "(if xTickCount k2 \<ge> xNextTaskUnblockTime k2 then unblock_tasks False k2 else Some (False, k2)) = Some (sw, k3)"
      "after_unblock k2 k3" "sw \<longleftrightarrow> (\<exists>t. woken k2 t \<and> prio k2 (pxCurrentTCB k2) \<le> prio k2 t)"
    by blast
  obtain s m n' where e: "k3 = k2\<lparr>ls := s, uxTopReadyPriority := m, xNextTaskUnblockTime := n'\<rparr>"
    using k3(2) unfolding after_unblock_def by blast
  have conts: "kcont k3 (StateItem t) = (if woken k2 t then Some (ReadyList (prio k2 t)) else kcont k2 (StateItem t))"
      "kcont k3 (EventItem t) = (if woken k2 t then None else kcont k2 (EventItem t))" for t
    using k3(2) unfolding after_unblock_def by blast+
  have kv: "kval k3 = kval k" and core: "kcore k3"
    and nx: "\<forall>t. kcont k3 (StateItem t) = Some (pxDelayedTaskList k2) \<longrightarrow> xNextTaskUnblockTime k3 \<le> kval k2 (StateItem t)"
    using k3(2) k2(3) unfolding after_unblock_def by auto
  have f: "pxDelayedTaskList k3 = pxDelayedTaskList k2" "pxOverflowDelayedTaskList k3 = pxOverflowDelayedTaskList k2"
    "xTickCount k3 = xTickCount k2" "tcb k3 = tcb k" "pxCurrentTCB k3 = pxCurrentTCB k" "xYieldPending k3 = xYieldPending k"
    "uxSchedulerSuspended k3 = 0" "tcb k2 = tcb k" "pxCurrentTCB k2 = pxCurrentTCB k"
    using run by (simp_all add: e k2(8))
  have nr: "pxDelayedTaskList k2 \<noteq> ReadyList p" "pxOverflowDelayedTaskList k2 \<noteq> ReadyList p" for p
    using kcore_D(4) [OF k2(2)] by auto
  have "ktime k3"
    unfolding ktime_def f(1-3)
  proof (intro conjI allI impI)
    fix t assume "kcont k3 (StateItem t) = Some (pxDelayedTaskList k2)"
    then show "xTickCount k2 < kval k3 (StateItem t)" "xNextTaskUnblockTime k3 \<le> kval k3 (StateItem t)"
      using nx nr(1) [of "prio k2 t"] k2(3) kv conts(1) [of t] by (auto simp: woken_def split: if_splits)
  next
    fix t assume "kcont k3 (StateItem t) = Some (pxOverflowDelayedTaskList k2)"
    then show "kval k3 (StateItem t) < xTickCount k2"
      using k2(3,6) kv nr(2) [of "prio k2 t"] conts(1) [of t] by (auto split: if_splits)
  qed
  moreover have "kcont k3 i \<noteq> Some PendingReadyList" for i
  proof -
    have "kcont k i \<noteq> Some PendingReadyList"
      using inv run kseq_iff [of k i PendingReadyList] by (simp add: kinv_def)
    then show ?thesis using conts k2(3) by (cases i) auto
  qed
  then have "kseq k3 PendingReadyList = []" using kseq_iff [OF core] by (metis last_in_set)
  ultimately have "kinv k3" using core by (simp add: kinv_def)
  moreover have "k3 = k\<lparr>ls := s, uxTopReadyPriority := m, xTickCount := xTickCount k + 1,
        pxDelayedTaskList := d, pxOverflowDelayedTaskList := ov,
        xNumOfOverflows := xNumOfOverflows k + (if xTickCount k + 1 = 0 then 1 else 0), xNextTaskUnblockTime := n'\<rparr>"
    by (simp add: e k2(8))
  ultimately have "ticked k k3"
    unfolding ticked_def using kv conts k2(3,7) f(8) by (intro conjI) (simp_all, blast)
  moreover have "xTaskIncrementTick k = Some ((sw \<or> length (kseq k3 (ReadyList (prio k3 (pxCurrentTCB k3)))) > 1) \<or> xYieldPending k3, k3)"
    using run k2(1) k3(1) by (simp add: xTaskIncrementTick_def advance_def Let_def)
  ultimately show ?thesis using k3(3) k2(7) f by auto
qed

section \<open>Blocking the current task\<close>

text \<open>
  While a task puts itself on an event list it is still ready; the invariant holds but for that
  task's event item.
\<close>

definition kcore_but :: "nat \<Rightarrow> kernel \<Rightarrow> bool" where
  "kcore_but c k \<longleftrightarrow> ls_wf (ls k) \<and>
     (\<forall>t l. kcont k (StateItem t) = Some l \<longrightarrow> state_place k t l) \<and>
     (\<forall>t l. kcont k (EventItem t) = Some l \<longrightarrow> event_place l \<and> (t = c \<or> blocked_list (kcont k (StateItem t)))) \<and>
     (pxDelayedTaskList k = DelayedTaskList1 \<and> pxOverflowDelayedTaskList k = DelayedTaskList2 \<or>
      pxDelayedTaskList k = DelayedTaskList2 \<and> pxOverflowDelayedTaskList k = DelayedTaskList1) \<and>
     sorted (map (kval k) (kseq k (pxDelayedTaskList k))) \<and>
     sorted (map (kval k) (kseq k (pxOverflowDelayedTaskList k)))"

lemma kcore_imp_but: "kcore k \<Longrightarrow> kcore_but c k"
  by (auto simp: kcore_def kcore_but_def)

definition block_list :: "u32 \<Rightarrow> bool \<Rightarrow> kernel \<Rightarrow> list_id" where
  "block_list n indef k =
     (if n = portMAX_DELAY \<and> indef then SuspendedTaskList
      else if xTickCount k + n < xTickCount k then pxOverflowDelayedTaskList k else pxDelayedTaskList k)"

lemma map_ival_upd: "i \<notin> set xs \<Longrightarrow> map (f(i := v)) xs = map f xs"
  by (auto simp: map_eq_conv)

lemma sorted_ordered: "sorted (map f xs) \<Longrightarrow> sorted (map f (ordered_insert f i xs))"
  unfolding ordered_insert_def by (rule sorted_ordered_insert)

lemma remove_current:
  assumes but: "kcore_but c k" and ready: "kcont k (StateItem c) = Some (ReadyList p)"
  shows "\<exists>s. list_remove (StateItem c) (set_tcb c (ucDelayAborted_update (\<lambda>_. False)) k) =
      Some (set_tcb c (ucDelayAborted_update (\<lambda>_. False)) k\<lparr>ls := s\<rparr>) \<and>
    ls_wf s \<and> cont s = (kcont k)(StateItem c := None) \<and> ival s = kval k \<and>
    seq s (pxDelayedTaskList k) = kseq k (pxDelayedTaskList k) \<and>
    seq s (pxOverflowDelayedTaskList k) = kseq k (pxOverflowDelayedTaskList k)"
proof -
  let ?k = "set_tcb c (ucDelayAborted_update (\<lambda>_. False)) k"
  have wf: "ls_wf (ls ?k)" and r: "kcont ?k (StateItem c) = Some (ReadyList p)"
    using but ready by (simp_all add: kcore_but_def)
  have "pxDelayedTaskList k \<noteq> ReadyList p" "pxOverflowDelayedTaskList k \<noteq> ReadyList p"
    using but by (auto simp: kcore_but_def)
  then show ?thesis using list_remove_Some [OF wf r] by auto
qed

lemma kcore_blocked:
  assumes but: "kcore_but c k" and wf: "ls_wf s" and ct: "cont s = (kcont k)(StateItem c := Some l)"
    and l: "l = SuspendedTaskList \<or> l = pxDelayedTaskList k \<or> l = pxOverflowDelayedTaskList k"
    and sd: "sorted (map (ival s) (seq s (pxDelayedTaskList k)))"
    and so: "sorted (map (ival s) (seq s (pxOverflowDelayedTaskList k)))"
  shows "kcore ((set_tcb c (ucDelayAborted_update (\<lambda>_. False)) k)\<lparr>ls := s, xNextTaskUnblockTime := nx\<rparr>)"
    (is "kcore ?k")
proof -
  have lists: "pxDelayedTaskList k = DelayedTaskList1 \<and> pxOverflowDelayedTaskList k = DelayedTaskList2 \<or>
      pxDelayedTaskList k = DelayedTaskList2 \<and> pxOverflowDelayedTaskList k = DelayedTaskList1"
    using but by (simp add: kcore_but_def)
  have "state_place ?k t l'" if "cont s (StateItem t) = Some l'" for t l'
  proof (cases "t = c")
    case True
    then show ?thesis using that ct l lists by (auto simp: state_place_def)
  next
    case False
    then have "state_place k t l'" using that ct but by (auto simp: kcore_but_def)
    then show ?thesis using False by (auto simp: state_place_def split: list_id.splits)
  qed
  moreover have "event_place l' \<and> blocked_list (cont s (StateItem t))" if "cont s (EventItem t) = Some l'" for t l'
  proof -
    have "kcont k (EventItem t) = Some l'" using that ct by simp
    then have "event_place l' \<and> (t = c \<or> blocked_list (kcont k (StateItem t)))"
      using but by (simp add: kcore_but_def)
    then show ?thesis using ct l lists by (auto simp: blocked_list_def)
  qed
  ultimately show ?thesis using wf lists sd so unfolding kcore_def by auto
qed

lemma prvAddCurrentTaskToDelayedList_spec:
  assumes but: "kcore_but c k" and tm: "ktime k" and c: "c = pxCurrentTCB k"
    and ready: "kcont k (StateItem c) = Some (ReadyList p)" and n: "n \<noteq> 0"
  shows "\<exists>k'. prvAddCurrentTaskToDelayedList n indef k = Some k' \<and> kcore k' \<and> ktime k' \<and>
    kcont k' = (kcont k)(StateItem c := Some (block_list n indef k)) \<and>
    (block_list n indef k \<noteq> SuspendedTaskList \<longrightarrow> kval k' (StateItem c) = xTickCount k + n) \<and>
    (\<forall>i. i \<noteq> StateItem c \<longrightarrow> kval k' i = kval k i) \<and>
    (\<exists>s nx. k' = (set_tcb c (ucDelayAborted_update (\<lambda>_. False)) k)\<lparr>ls := s, xNextTaskUnblockTime := nx\<rparr>)"
proof -
  let ?k0 = "set_tcb c (ucDelayAborted_update (\<lambda>_. False)) k" and ?l = "block_list n indef k"
  let ?D = "pxDelayedTaskList k" and ?O = "pxOverflowDelayedTaskList k" and ?i = "StateItem c"
  obtain s where s: "list_remove ?i ?k0 = Some (?k0\<lparr>ls := s\<rparr>)" "ls_wf s" "cont s = (kcont k)(?i := None)"
      "ival s = kval k" "seq s ?D = kseq k ?D" "seq s ?O = kseq k ?O"
    using remove_current [OF but ready] by blast
  have free: "cont s ?i = None" by (simp add: s)
  have out: "?i \<notin> set (seq s l)" for l using ls_wf_D(2) [OF s(2)] free by simp
  have lists: "?D = DelayedTaskList1 \<and> ?O = DelayedTaskList2 \<or> ?D = DelayedTaskList2 \<and> ?O = DelayedTaskList1"
    and sd: "sorted (map (kval k) (kseq k ?D))" and so: "sorted (map (kval k) (kseq k ?O))"
    using but by (simp_all add: kcore_but_def)
  show ?thesis
  proof (cases "n = portMAX_DELAY \<and> indef")
    case True
    let ?s = "ls_insert_end SuspendedTaskList ?i s"
    let ?k' = "?k0\<lparr>ls := ?s, xNextTaskUnblockTime := xNextTaskUnblockTime k\<rparr>"
    have e: "\<exists>s nx. ?k' = ?k0\<lparr>ls := s, xNextTaskUnblockTime := nx\<rparr>" by blast
    have l: "?l = SuspendedTaskList" using True by (simp add: block_list_def)
    have ne: "?D \<noteq> SuspendedTaskList" "?O \<noteq> SuspendedTaskList" using lists by auto
    have run: "prvAddCurrentTaskToDelayedList n indef k = Some ?k'"
      using True s(1) c by (simp add: prvAddCurrentTaskToDelayedList_def list_insert_end_def Let_def)
    have "kcore ?k'"
      using but ls_wf_insert_end [OF s(2) free] ne sd so by (intro kcore_blocked [of c k ?s SuspendedTaskList]) (auto simp: s)
    moreover have "ktime ?k'" using tm ne by (auto simp: ktime_def s)
    ultimately show ?thesis using run l by (intro exI [of _ ?k'] conjI e) (auto simp: s)
  next
    case False
    let ?w = "xTickCount k + n"
    let ?s = "ls_insert ?l ?i (ls_set_value ?i ?w s)"
    let ?nx = "if ?l = ?D \<and> ?w < xNextTaskUnblockTime k then ?w else xNextTaskUnblockTime k"
    let ?k' = "?k0\<lparr>ls := ?s, xNextTaskUnblockTime := ?nx\<rparr>"
    have e: "\<exists>s nx. ?k' = ?k0\<lparr>ls := s, xNextTaskUnblockTime := nx\<rparr>" by blast
    have l: "?l = (if ?w < xTickCount k then ?O else ?D)" using False by (auto simp: block_list_def)
    have ne: "?D \<noteq> ?O" "?D \<noteq> SuspendedTaskList" "?O \<noteq> SuspendedTaskList" using lists by auto
    have run: "prvAddCurrentTaskToDelayedList n indef k = Some ?k'"
      using False s(1) c ne l by (auto simp: prvAddCurrentTaskToDelayedList_def list_insert_def set_item_value_def Let_def)
    have wf: "ls_wf ?s" by (rule ls_wf_insert) (use s(2) free in auto)
    have sorted: "sorted (map (ival ?s) (seq ?s l'))" if "l' = ?D \<or> l' = ?O" for l'
    proof -
      have "sorted (map (ival (ls_set_value ?i ?w s)) (seq s l'))"
        using that sd so out [of l'] by (auto simp: s map_ival_upd)
      then show ?thesis using sorted_ordered by (auto simp del: map_map)
    qed
    have "kcore ?k'"
      using but wf sorted l by (intro kcore_blocked [of c k ?s ?l]) (auto simp: s)
    moreover have "ktime ?k'"
    proof -
      have old: "kcont k (StateItem t) = Some ?D \<Longrightarrow> xTickCount k < kval k (StateItem t) \<and> xNextTaskUnblockTime k \<le> kval k (StateItem t)"
        "kcont k (StateItem t) = Some ?O \<Longrightarrow> kval k (StateItem t) < xTickCount k" for t
        using tm by (auto simp: ktime_def)
      have nx: "?nx \<le> xNextTaskUnblockTime k" by (simp add: less_imp_le)
      have new: "?l = ?D \<Longrightarrow> xTickCount k < ?w" "?l = ?O \<Longrightarrow> ?w < xTickCount k"
        using l ne n by (auto simp: not_less le_less split: if_splits)
      have "xTickCount k < kval ?k' (StateItem t) \<and> ?nx \<le> kval ?k' (StateItem t)"
        if "kcont ?k' (StateItem t) = Some ?D" for t
        using that new old [of t] order_trans [OF nx] by (cases "t = c") (auto simp: s not_less)
      moreover have "kval ?k' (StateItem t) < xTickCount k" if "kcont ?k' (StateItem t) = Some ?O" for t
        using that new old [of t] by (cases "t = c") (auto simp: s)
      ultimately show ?thesis by (simp add: ktime_def)
    qed
    ultimately show ?thesis using run l ne by (intro exI [of _ ?k'] conjI e) (auto simp: s)
  qed
qed

section \<open>Selecting the next task\<close>

definition ready :: "kernel \<Rightarrow> nat \<Rightarrow> bool" where
  "ready k t \<longleftrightarrow> kcont k (StateItem t) = Some (ReadyList (prio k t))"

lemma highest_ready_Some:
  assumes "kseq k (ReadyList q) \<noteq> []" and "q \<le> p"
  shows "\<exists>r. highest_ready p k = Some r \<and> kseq k (ReadyList r) \<noteq> [] \<and>
    (\<forall>q. kseq k (ReadyList q) \<noteq> [] \<longrightarrow> q \<le> p \<longrightarrow> q \<le> r)"
  using assms
proof (induction p)
  case 0
  then show ?case by (subst highest_ready.simps) auto
next
  case (Suc p)
  show ?case
  proof (cases "kseq k (ReadyList (Suc p)) = []")
    case True
    then have "q \<le> p" using Suc.prems by (metis le_SucE)
    then have "\<exists>r. highest_ready p k = Some r \<and> kseq k (ReadyList r) \<noteq> [] \<and>
        (\<forall>q. kseq k (ReadyList q) \<noteq> [] \<longrightarrow> q \<le> p \<longrightarrow> q \<le> r)" using Suc by blast
    then show ?thesis using True by (subst highest_ready.simps) (auto simp: le_Suc_eq)
  next
    case False
    then show ?thesis by (subst highest_ready.simps) auto
  qed
qed

lemma ready_place:
  assumes core: "kcore k" and i: "i \<in> set (kseq k (ReadyList p))"
  shows "i = StateItem (owner i) \<and> ready k (owner i) \<and> prio k (owner i) = p \<and> p \<le> uxTopReadyPriority k"
proof -
  have ci: "kcont k i = Some (ReadyList p)" using kseq_iff [OF core] i by simp
  show ?thesis
  proof (cases i)
    case (StateItem t)
    then show ?thesis using kcore_D(2) [OF core, of t "ReadyList p"] ci by (simp add: state_place_def ready_def)
  next
    case (EventItem t)
    then show ?thesis using kcore_D(3) [OF core, of t "ReadyList p"] ci by (simp add: event_place_def)
  qed
qed

lemma vTaskSwitchContext_spec:
  assumes inv: "kinv k" and run: "uxSchedulerSuspended k = 0" and rd: "ready k t"
  shows "\<exists>k' c. vTaskSwitchContext k = Some k' \<and> pxCurrentTCB k' = c \<and> ready k c \<and>
    (\<forall>u. ready k u \<longrightarrow> prio k u \<le> prio k c) \<and> kinv k' \<and> kcont k' = kcont k \<and> kval k' = kval k \<and>
    (\<exists>s. k' = k\<lparr>ls := s, xYieldPending := False, pxCurrentTCB := c, uxTopReadyPriority := prio k c\<rparr>)"
proof -
  have core: "kcore k" using inv by (simp add: kinv_def)
  have mem: "StateItem u \<in> set (kseq k (ReadyList (prio k u)))" if "ready k u" for u
    using that kseq_iff [OF core] by (simp add: ready_def)
  have top: "prio k u \<le> uxTopReadyPriority k" if "ready k u" for u using ready_place [OF core mem [OF that]] by simp
  have "kseq k (ReadyList (prio k t)) \<noteq> []" using mem [OF rd] by auto
  then obtain p where p: "highest_ready (uxTopReadyPriority k) k = Some p" "kseq k (ReadyList p) \<noteq> []"
      "\<forall>q. kseq k (ReadyList q) \<noteq> [] \<longrightarrow> q \<le> uxTopReadyPriority k \<longrightarrow> q \<le> p"
    using highest_ready_Some top [OF rd] by blast
  obtain i where i: "ls_next (ReadyList p) (ls k) = Some (i, (ls k)\<lparr>idx := (idx (ls k))(ReadyList p := Some i)\<rparr>)"
      "i \<in> set (kseq k (ReadyList p))"
    using ls_next_Some [OF kcore_D(1) [OF core] p(2)] by blast
  let ?s = "(ls k)\<lparr>idx := (idx (ls k))(ReadyList p := Some i)\<rparr>" and ?c = "owner i"
  let ?k' = "k\<lparr>ls := ?s, xYieldPending := False, pxCurrentTCB := ?c, uxTopReadyPriority := p\<rparr>"
  note c = ready_place [OF core i(2)]
  have hr: "highest_ready q (k\<lparr>xYieldPending := b\<rparr>) = highest_ready q k" for q b
    by (induction q; subst (1 2) highest_ready.simps) auto
  have "vTaskSwitchContext k = Some ?k'"
    using run p(1) i(1) by (simp add: vTaskSwitchContext_def taskSELECT_HIGHEST_PRIORITY_TASK_def hr)
  moreover have best: "prio k u \<le> p" if u: "ready k u" for u
    using p(3) mem [OF u] top [OF u] by (metis empty_iff empty_set)
  moreover have "kinv ?k'"
  proof -
    have "state_place ?k' u l" if "kcont k (StateItem u) = Some l" for u l
      using kcore_D(2) [OF core that] best [of u] that by (auto simp: state_place_def ready_def split: list_id.splits)
    then have "kcore ?k'" using core ls_wf_next [OF kcore_D(1) [OF core] i(2)] unfolding kcore_def by simp
    then show ?thesis using inv by (simp add: kinv_def ktime_def)
  qed
  ultimately show ?thesis using c by (intro exI [of _ ?k'] exI [of _ ?c]) auto
qed

section \<open>Sequences of ticks, switches and delays\<close>

text \<open>
  The events of a system whose tasks only delay themselves: the tick interrupt, the software
  interrupt when it is pending, and a call of \<open>vTaskDelay\<close> by the running task, which is possible
  when no switch is pending; the idle task never blocks.
\<close>

datatype kevent = Tick | Switch | Delay u32

fun kstep :: "nat \<Rightarrow> kevent \<Rightarrow> kernel \<Rightarrow> kernel option" where
  "kstep idle Tick k = SysTick_Handler k"
| "kstep idle Switch k =
     (if swi_pending k then vTaskSwitchContext (k\<lparr>swi_pending := False\<rparr>) else Some k)"
| "kstep idle (Delay n) k =
     (if \<not> swi_pending k \<and> pxCurrentTCB k \<noteq> idle then vTaskDelay n k else Some k)"

primrec krun :: "nat \<Rightarrow> kevent list \<Rightarrow> kernel \<Rightarrow> kernel option" where
  "krun idle [] k = Some k"
| "krun idle (e # es) k = Option.bind (kstep idle e k) (krun idle es)"

definition sched_ok :: "nat \<Rightarrow> kernel \<Rightarrow> bool" where
  "sched_ok idle k \<longleftrightarrow> kinv k \<and> uxSchedulerSuspended k = 0 \<and> xPendedTicks k = 0 \<and> uxCurrentNumberOfTasks k > 0 \<and>
     ready k idle \<and> (\<not> swi_pending k \<longrightarrow> ready k (pxCurrentTCB k))"

text \<open>A task that was suspended and not one that waits for an event without a time limit.\<close>

definition suspended :: "kernel \<Rightarrow> nat \<Rightarrow> bool" where
  "suspended k t \<longleftrightarrow> kcont k (StateItem t) = Some SuspendedTaskList \<and> kcont k (EventItem t) = None"

definition stepped :: "kevent \<Rightarrow> kernel \<Rightarrow> kernel \<Rightarrow> bool" where
  "stepped e k k' \<longleftrightarrow> xTickCount k' = xTickCount k + (if e = Tick then 1 else 0) \<and>
     (\<forall>t. delayed k t \<longrightarrow>
        (if e = Tick \<and> kval k (StateItem t) = xTickCount k + 1 then ready k' t
         else delayed k' t \<and> kval k' (StateItem t) = kval k (StateItem t))) \<and>
     (\<forall>t. suspended k t \<longrightarrow> suspended k' t)"

lemma suspended_cong: "ls k' = ls k \<Longrightarrow> suspended k' t = suspended k t"
  by (simp add: suspended_def)

lemma suspended_not: "suspended k t \<Longrightarrow> \<not> delayed k t \<and> \<not> ready k t"
  by (simp add: suspended_def delayed_def ready_def)

lemma kinv_swi [simp]: "kinv (k\<lparr>swi_pending := b\<rparr>) = kinv k"
  using kcore_fields [of "k\<lparr>swi_pending := b\<rparr>" k] by (simp add: kinv_def ktime_def)

lemma ready_not_delayed: "ready k t \<Longrightarrow> \<not> delayed k t"
  by (simp add: ready_def delayed_def)

lemma tick_step:
  assumes ok: "sched_ok idle k"
  shows "\<exists>k'. SysTick_Handler k = Some k' \<and> sched_ok idle k' \<and> stepped Tick k k'"
proof -
  have inv: "kinv k" and run: "uxSchedulerSuspended k = 0" using ok by (simp_all add: sched_ok_def)
  obtain sw k1 where k1: "xTaskIncrementTick k = Some (sw, k1)" "ticked k k1"
    using xTaskIncrementTick_ticked [OF inv run] by blast
  obtain s m d ov n where e: "k1 = k\<lparr>ls := s, uxTopReadyPriority := m, xTickCount := xTickCount k + 1,
        pxDelayedTaskList := d, pxOverflowDelayedTaskList := ov,
        xNumOfOverflows := xNumOfOverflows k + (if xTickCount k + 1 = 0 then 1 else 0), xNextTaskUnblockTime := n\<rparr>"
    using k1(2) unfolding ticked_def by blast
  have f: "tcb k1 = tcb k" "xTickCount k1 = xTickCount k + 1" "pxCurrentTCB k1 = pxCurrentTCB k" "swi_pending k1 = swi_pending k"
    "uxSchedulerSuspended k1 = uxSchedulerSuspended k" "xPendedTicks k1 = xPendedTicks k" "uxCurrentNumberOfTasks k1 = uxCurrentNumberOfTasks k"
    by (simp_all add: e)
  have ct: "kcont k1 (StateItem t) = (if delayed k t \<and> kval k (StateItem t) = xTickCount k + 1
      then Some (ReadyList (prio k t)) else kcont k (StateItem t))" for t
    using k1(2) unfolding ticked_def by blast
  have kv: "kval k1 = kval k" and inv1: "kinv k1" using k1(2) unfolding ticked_def by blast+
  have keep: "ready k1 t" if "ready k t" for t using that ready_not_delayed [OF that] ct [of t] by (simp add: ready_def f)
  let ?k' = "if sw then portYIELD k1 else k1"
  have r: "ready ?k' t = ready k1 t" and dl: "delayed ?k' t = delayed k1 t" for t
    by (simp_all add: ready_def delayed_def portYIELD_def)
  have "kcont k1 (EventItem t) = kcont k (EventItem t)" if "\<not> delayed k t" for t
    using k1(2) that unfolding ticked_def by simp
  then have "suspended ?k' t" if "suspended k t" for t
    using that ct [of t] suspended_not [OF that] by (simp add: suspended_def portYIELD_def)
  then have "stepped Tick k ?k'"
    using ct kv unfolding stepped_def r dl by (auto simp: f portYIELD_def ready_def delayed_def)
  moreover have "kinv ?k'" using inv1 by (simp add: portYIELD_def)
  moreover have "sched_ok idle ?k'"
    using ok keep \<open>kinv ?k'\<close> unfolding sched_ok_def r by (auto simp: f portYIELD_def)
  ultimately show ?thesis using k1(1) by (simp add: SysTick_Handler_def)
qed

lemma switch_step:
  assumes ok: "sched_ok idle k"
  shows "\<exists>k'. kstep idle Switch k = Some k' \<and> sched_ok idle k' \<and> stepped Switch k k'"
proof (cases "swi_pending k")
  case False
  then show ?thesis using ok by (simp add: stepped_def)
next
  case True
  let ?k = "k\<lparr>swi_pending := False\<rparr>"
  have pre: "kinv ?k" "uxSchedulerSuspended ?k = 0" "ready ?k idle" using ok by (simp_all add: sched_ok_def ready_def)
  obtain k' c s where k': "vTaskSwitchContext ?k = Some k'" "kinv k'" "ready ?k c" "kcont k' = kcont ?k" "kval k' = kval ?k"
      "k' = ?k\<lparr>ls := s, xYieldPending := False, pxCurrentTCB := c, uxTopReadyPriority := prio ?k c\<rparr>"
    using vTaskSwitchContext_spec [OF pre] by blast
  have f: "tcb k' = tcb k" "xTickCount k' = xTickCount k" "pxCurrentTCB k' = c" "uxSchedulerSuspended k' = uxSchedulerSuspended k"
    "xPendedTicks k' = xPendedTicks k" "uxCurrentNumberOfTasks k' = uxCurrentNumberOfTasks k"
    by (simp_all add: k'(6))
  have r: "ready k' t = ready k t" "delayed k' t = delayed k t" for t
    using k'(4) by (simp_all add: ready_def delayed_def f(1))
  have "ready k c" using k'(3) by (simp add: ready_def)
  then have "sched_ok idle k'" using ok k'(2) unfolding sched_ok_def r f by simp
  moreover have "stepped Switch k k'" using k'(4,5) unfolding stepped_def r f by (simp add: suspended_def)
  ultimately show ?thesis using k'(1) True by simp
qed

text \<open>Resuming a scheduler that held nothing back only lowers the nesting count.\<close>

lemma xTaskResumeAll_quiet:
  assumes "uxSchedulerSuspended k = 1" and "kseq k PendingReadyList = []" and "xPendedTicks k = 0"
    and "uxCurrentNumberOfTasks k > 0"
  shows "xTaskResumeAll k = Some (xYieldPending k,
    if xYieldPending k then portYIELD (k\<lparr>uxSchedulerSuspended := 0\<rparr>) else k\<lparr>uxSchedulerSuspended := 0\<rparr>)"
  using assms by (subst xTaskResumeAll_def) (simp add: configASSERT_def ready_pending.simps)

lemma suspend_block_resume:
  assumes ok: "sched_ok idle k" and cur: "\<not> swi_pending k" "pxCurrentTCB k \<noteq> idle" and nz: "n \<noteq> 0"
  shows "\<exists>k2 y k3 k'. prvAddCurrentTaskToDelayedList n False (vTaskSuspendAll k) = Some k2 \<and>
    xTaskResumeAll k2 = Some (y, k3) \<and> k' = (if y then k3 else portYIELD k3) \<and> sched_ok idle k' \<and> stepped (Delay n) k k' \<and>
    delayed k' (pxCurrentTCB k) \<and> kval k' (StateItem (pxCurrentTCB k)) = xTickCount k + n"
proof -
  let ?c = "pxCurrentTCB k" and ?k1 = "vTaskSuspendAll k"
  have inv: "kinv k" and rd: "ready k ?c" using ok cur by (simp_all add: sched_ok_def)
  have core1: "kcore ?k1" using inv kcore_fields [of ?k1 k] by (simp add: vTaskSuspendAll_def kinv_def)
  have time1: "ktime ?k1" using inv by (simp add: vTaskSuspendAll_def kinv_def ktime_def)
  have rd1: "kcont ?k1 (StateItem ?c) = Some (ReadyList (prio k ?c))" using rd by (simp add: vTaskSuspendAll_def ready_def)
  have cur1: "?c = pxCurrentTCB ?k1" by (simp add: vTaskSuspendAll_def)
  have bl: "block_list n False ?k1 = DelayedTaskList1 \<or> block_list n False ?k1 = DelayedTaskList2"
    using kcore_D(4) [OF core1] by (auto simp: block_list_def)
  have nb: "block_list n False ?k1 \<noteq> SuspendedTaskList" using bl by auto
  obtain k2 s nx where k2: "prvAddCurrentTaskToDelayedList n False ?k1 = Some k2" "kcore k2" "ktime k2"
      "kcont k2 = (kcont ?k1)(StateItem ?c := Some (block_list n False ?k1))"
      "\<forall>i. i \<noteq> StateItem ?c \<longrightarrow> kval k2 i = kval ?k1 i" "kval k2 (StateItem ?c) = xTickCount ?k1 + n"
      "k2 = (set_tcb ?c (ucDelayAborted_update (\<lambda>_. False)) ?k1)\<lparr>ls := s, xNextTaskUnblockTime := nx\<rparr>"
    using prvAddCurrentTaskToDelayedList_spec [OF kcore_imp_but [OF core1] time1 cur1 rd1 nz, of False] nb by blast
  have f: "uxSchedulerSuspended k2 = 1" "xPendedTicks k2 = 0" "uxCurrentNumberOfTasks k2 > 0" "xTickCount k2 = xTickCount k"
    "pxCurrentTCB k2 = ?c" "prio k2 t = prio k t" for t
    using ok by (simp_all add: k2(7) vTaskSuspendAll_def sched_ok_def)
  have nopend: "kseq k2 PendingReadyList = []"
  proof -
    have "kcont k i \<noteq> Some PendingReadyList" for i
      using ok kseq_iff [of k i PendingReadyList] by (simp add: sched_ok_def kinv_def)
    then have "kcont k2 i \<noteq> Some PendingReadyList" for i
      using bl by (auto simp: k2(4) vTaskSuspendAll_def)
    then show ?thesis using kseq_iff [OF k2(2)] by (metis last_in_set)
  qed
  let ?k' = "k2\<lparr>uxSchedulerSuspended := 0, swi_pending := True\<rparr>"
  let ?k3 = "if xYieldPending k2 then portYIELD (k2\<lparr>uxSchedulerSuspended := 0\<rparr>) else k2\<lparr>uxSchedulerSuspended := 0\<rparr>"
  have run: "xTaskResumeAll k2 = Some (xYieldPending k2, ?k3)" by (rule xTaskResumeAll_quiet [OF f(1) nopend f(2,3)])
  have run': "?k' = (if xYieldPending k2 then ?k3 else portYIELD ?k3)" by (simp add: portYIELD_def)
  have r: "t \<noteq> ?c \<Longrightarrow> ready ?k' t = ready k t" "t \<noteq> ?c \<Longrightarrow> delayed ?k' t = delayed k t" for t
    by (simp_all add: ready_def delayed_def f(6) k2(4) vTaskSuspendAll_def)
  have inv': "kinv ?k'"
    using k2(2,3) nopend kcore_fields [of ?k' k2] by (simp add: kinv_def ktime_def)
  have "sched_ok idle ?k'" using ok inv' r(1) [of idle] cur f by (simp add: sched_ok_def)
  moreover have "stepped (Delay n) k ?k'"
    unfolding stepped_def
  proof (intro conjI allI impI)
    fix t assume d: "delayed k t"
    then have t: "t \<noteq> ?c" using ready_not_delayed [OF rd] by blast
    then show "if Delay n = Tick \<and> kval k (StateItem t) = xTickCount k + 1 then ready ?k' t
        else delayed ?k' t \<and> kval ?k' (StateItem t) = kval k (StateItem t)"
      using d r(2) [OF t] k2(5) by (simp add: vTaskSuspendAll_def)
  next
    fix t assume sp: "suspended k t"
    then have "t \<noteq> ?c" using suspended_not [OF sp] rd by blast
    then show "suspended ?k' t" using sp by (simp add: suspended_def k2(4) vTaskSuspendAll_def)
  qed (simp add: f)
  moreover have "delayed ?k' ?c" using bl by (simp add: delayed_def k2(4))
  moreover have "kval ?k' (StateItem ?c) = xTickCount k + n" using k2(6) by (simp add: vTaskSuspendAll_def)
  ultimately show ?thesis using run run' k2(1) by blast
qed

lemma vTaskDelay_blocks:
  assumes ok: "sched_ok idle k" and cur: "\<not> swi_pending k" "pxCurrentTCB k \<noteq> idle" and nz: "n \<noteq> 0"
  shows "\<exists>k'. vTaskDelay n k = Some k' \<and> sched_ok idle k' \<and> stepped (Delay n) k k' \<and>
    delayed k' (pxCurrentTCB k) \<and> kval k' (StateItem (pxCurrentTCB k)) = xTickCount k + n"
proof -
  obtain k2 y k3 where r: "prvAddCurrentTaskToDelayedList n False (vTaskSuspendAll k) = Some k2"
      "xTaskResumeAll k2 = Some (y, k3)"
      "sched_ok idle (if y then k3 else portYIELD k3) \<and> stepped (Delay n) k (if y then k3 else portYIELD k3) \<and>
       delayed (if y then k3 else portYIELD k3) (pxCurrentTCB k) \<and>
       kval (if y then k3 else portYIELD k3) (StateItem (pxCurrentTCB k)) = xTickCount k + n"
    using suspend_block_resume [OF assms] by blast
  have "vTaskDelay n k = Some (if y then k3 else portYIELD k3)"
    using nz ok r(1,2) by (simp add: vTaskDelay_def configASSERT_def sched_ok_def word_gt_0)
  then show ?thesis using r(3) by blast
qed

lemma delay_step:
  assumes ok: "sched_ok idle k"
  shows "\<exists>k'. kstep idle (Delay n) k = Some k' \<and> sched_ok idle k' \<and> stepped (Delay n) k k'"
proof (cases "\<not> swi_pending k \<and> pxCurrentTCB k \<noteq> idle \<and> n \<noteq> 0")
  case True
  then show ?thesis using vTaskDelay_blocks [OF ok, of n] by auto
next
  case False
  have "sched_ok idle (portYIELD k)" using ok by (simp add: sched_ok_def portYIELD_def ready_def)
  then show ?thesis
    using ok False by (auto simp: vTaskDelay_def stepped_def portYIELD_def delayed_def suspended_def)
qed

lemma kstep_stepped:
  assumes "sched_ok idle k"
  shows "\<exists>k'. kstep idle e k = Some k' \<and> sched_ok idle k' \<and> stepped e k k'"
  using tick_step [OF assms] switch_step [OF assms] delay_step [OF assms] by (cases e) auto

text \<open>The ticks that a task has still to wait.\<close>

definition remaining :: "kernel \<Rightarrow> nat \<Rightarrow> nat" where
  "remaining k t = unat (kval k (StateItem t) - xTickCount k)"

lemma remaining_pos: "kinv k \<Longrightarrow> delayed k t \<Longrightarrow> 0 < remaining k t"
  using delayed_iff [of k t] by (auto simp: kinv_def ktime_def remaining_def unat_gt_0)

lemma remaining_step:
  assumes inv: "kinv k" and d: "delayed k t" and st: "stepped e k k'"
  shows "e = Tick \<and> remaining k t = 1 \<and> ready k' t \<or>
    delayed k' t \<and> remaining k t = remaining k' t + (if e = Tick then 1 else 0)"
proof -
  let ?d = "kval k (StateItem t) - xTickCount k"
  have nz: "?d \<noteq> 0" using remaining_pos [OF inv d] by (auto simp: remaining_def)
  have one: "kval k (StateItem t) = xTickCount k + 1 \<longleftrightarrow> ?d = 1" by (auto simp: diff_eq_eq add.commute)
  have st': "if e = Tick \<and> kval k (StateItem t) = xTickCount k + 1 then ready k' t
      else delayed k' t \<and> kval k' (StateItem t) = kval k (StateItem t)" "xTickCount k' = xTickCount k + (if e = Tick then 1 else 0)"
    using st d unfolding stepped_def by blast+
  show ?thesis
  proof (cases "e = Tick")
    case True
    have "0 < unat ?d" using nz by (simp add: unat_gt_0)
    then have u: "unat ?d = unat (?d - 1) + 1" using unat_minus_one [OF nz] by simp
    show ?thesis
    proof (cases "?d = 1")
      case t1: True
      then show ?thesis using st' True one by (simp add: remaining_def)
    next
      case False
      then have d': "delayed k' t" and "kval k' (StateItem t) - xTickCount k' = ?d - 1"
        using st' True one by (simp_all add: diff_diff_eq)
      then have "remaining k t = remaining k' t + 1" using u unfolding remaining_def by metis
      then show ?thesis using True d' by simp
    qed
  next
    case False
    then show ?thesis using st' by (simp add: remaining_def)
  qed
qed

lemma delay_exact_run:
  assumes "sched_ok idle k" and "delayed k t"
  shows "(length (filter ((=) Tick) es) < remaining k t \<longrightarrow> (\<exists>k'. krun idle es k = Some k' \<and> delayed k' t)) \<and>
    (length (filter ((=) Tick) es) + 1 = remaining k t \<longrightarrow> (\<exists>k'. krun idle (es @ [Tick]) k = Some k' \<and> ready k' t))"
  using assms
proof (induction es arbitrary: k)
  case Nil
  then have inv: "kinv k" by (simp add: sched_ok_def)
  obtain k' where k': "kstep idle Tick k = Some k'" "stepped Tick k k'" "sched_ok idle k'"
    using kstep_stepped [OF Nil(1), of Tick] by blast
  have "kinv k'" using k'(3) by (simp add: sched_ok_def)
  then show ?case
    using Nil k' remaining_step [OF inv Nil(2) k'(2)] remaining_pos [of k' t] by auto
next
  case (Cons e es)
  then have inv: "kinv k" by (simp add: sched_ok_def)
  obtain k' where k': "kstep idle e k = Some k'" "stepped e k k'" "sched_ok idle k'"
    using kstep_stepped [OF Cons.prems(1), of e] by blast
  show ?case
    using Cons.IH [OF k'(3)] k'(1) remaining_step [OF inv Cons.prems(2) k'(2)] by (auto split: if_splits)
qed

section \<open>Resuming the scheduler\<close>

lemma wake_event_first:
  assumes e: "kcont k (EventItem t) = Some le" and c: "kcont k (StateItem t) = Some l" and ne: "le \<noteq> l"
  shows "Option.bind (list_remove (EventItem t) k) (\<lambda>k1. Option.bind (list_remove (StateItem t) k1) (\<lambda>k2.
      f (prvAddTaskToReadyList t k2))) = Option.bind (wake t k) f"
proof -
  have tw: "g(le := a, l := b) = g(l := b, le := a)" for g :: "list_id \<Rightarrow> 'x" and a b using ne by (rule fun_upd_twist)
  have tc: "g(EventItem t := a, StateItem t := b) = g(StateItem t := b, EventItem t := a)"
    for g :: "list_item \<Rightarrow> 'x" and a b by (rule fun_upd_twist) simp
  show ?thesis
    using e c ne by (simp add: wake_def remove_event_item_def list_remove_def ls_remove_def tw tc)
qed

definition resumed :: "kernel \<Rightarrow> kernel \<Rightarrow> bool" where
  "resumed k k' \<longleftrightarrow> kcore k' \<and> ktime k' \<and> kseq k' PendingReadyList = [] \<and> kval k' = kval k \<and>
     (\<forall>t. kcont k' (StateItem t) = (if kcont k (EventItem t) = Some PendingReadyList then Some (ReadyList (prio k t))
            else kcont k (StateItem t)) \<and>
          kcont k' (EventItem t) = (if kcont k (EventItem t) = Some PendingReadyList then None else kcont k (EventItem t))) \<and>
     (\<exists>s m y. k' = k\<lparr>ls := s, uxTopReadyPriority := m, xYieldPending := y\<rparr>)"

lemma ready_pending_spec:
  assumes "kcore k" and "ktime k"
  shows "\<exists>k'. ready_pending k = Some k' \<and> resumed k k'"
  using assms
proof (induction "length (kseq k PendingReadyList)" arbitrary: k rule: less_induct)
  case less
  note core = less.prems(1)
  show ?case
  proof (cases "kseq k PendingReadyList")
    case Nil
    then have "kcont k i \<noteq> Some PendingReadyList" for i using kseq_iff [OF core, of i PendingReadyList] by simp
    moreover have "\<exists>s m y. k = k\<lparr>ls := s, uxTopReadyPriority := m, xYieldPending := y\<rparr>"
      by (rule exI [of _ "ls k"], rule exI [of _ "uxTopReadyPriority k"], rule exI [of _ "xYieldPending k"]) simp
    ultimately have "resumed k k" unfolding resumed_def using less.prems Nil by simp
    then show ?thesis using Nil by (simp add: ready_pending.simps)
  next
    case (Cons i "is")
    have ci: "kcont k i = Some PendingReadyList" using Cons kseq_iff [OF core] by (metis list.set_intros(1))
    obtain t where t: "i = EventItem t"
      using ci kcore_D(2) [OF core, of "owner i" PendingReadyList] by (cases i) (auto simp: state_place_def)
    have bl: "blocked_list (kcont k (StateItem t))" using kcore_D(3) [OF core, of t] ci t by simp
    then obtain l where l: "kcont k (StateItem t) = Some l" "l \<noteq> PendingReadyList" by (auto simp: blocked_list_def)
    obtain k1 where k1: "wake t k = Some k1" "kcore k1" "kval k1 = kval k"
        "kcont k1 = (kcont k)(StateItem t := Some (ReadyList (prio k t)), EventItem t := None)"
        "\<forall>l'. l' \<noteq> ReadyList (prio k t) \<longrightarrow> kseq k1 l' = remove1 (EventItem t) (remove1 (StateItem t) (kseq k l'))"
        "\<exists>s m. k1 = k\<lparr>ls := s, uxTopReadyPriority := m\<rparr>"
      using kcore_wake [OF core l(1)] by blast
    obtain s m where e1: "k1 = k\<lparr>ls := s, uxTopReadyPriority := m\<rparr>" using k1(6) by blast
    let ?k2 = "if prio k1 t \<ge> prio k1 (pxCurrentTCB k1) then k1\<lparr>xYieldPending := True\<rparr> else k1"
    have step: "ready_pending k = ready_pending ?k2"
      using Cons t wake_event_first [of k t PendingReadyList l "\<lambda>k3. ready_pending (if prio k3 t \<ge> prio k3 (pxCurrentTCB k3)
          then k3\<lparr>xYieldPending := True\<rparr> else k3)"] ci l k1(1)
      by (subst ready_pending.simps) (simp add: Let_def)
    have eq: "ls ?k2 = ls k1" "tcb ?k2 = tcb k" "xTickCount ?k2 = xTickCount k" "xNextTaskUnblockTime ?k2 = xNextTaskUnblockTime k"
      "pxDelayedTaskList ?k2 = pxDelayedTaskList k" "pxOverflowDelayedTaskList ?k2 = pxOverflowDelayedTaskList k"
      by (simp_all add: e1)
    have "StateItem t \<notin> set (kseq k PendingReadyList)" using kseq_iff [OF core] l by simp
    then have "kseq k1 PendingReadyList = is" using k1(5) Cons t by (simp add: remove1_idem)
    then have len: "length (kseq ?k2 PendingReadyList) < length (kseq k PendingReadyList)" using Cons by (simp add: eq(1))
    have core2: "kcore ?k2" using k1(2) kcore_fields [of ?k2 k1] by simp
    have "pxDelayedTaskList k \<noteq> ReadyList (prio k t)" "pxOverflowDelayedTaskList k \<noteq> ReadyList (prio k t)"
      using kcore_D(4) [OF core] by auto
    then have time2: "ktime ?k2" using less.prems(2) unfolding ktime_def eq k1(3,4) by auto
    obtain k' where k': "ready_pending ?k2 = Some k'" "resumed ?k2 k'" using less.hyps [OF len core2 time2] by blast
    have "\<exists>s m y. k' = k\<lparr>ls := s, uxTopReadyPriority := m, xYieldPending := y\<rparr>"
    proof -
      obtain s' m' y' where "k' = ?k2\<lparr>ls := s', uxTopReadyPriority := m', xYieldPending := y'\<rparr>"
        using k'(2) unfolding resumed_def by blast
      then have "k' = k\<lparr>ls := s', uxTopReadyPriority := m', xYieldPending := y'\<rparr>" by (simp add: e1)
      then show ?thesis by blast
    qed
    moreover have "kcont k' (StateItem u) = (if kcont k (EventItem u) = Some PendingReadyList then Some (ReadyList (prio k u))
            else kcont k (StateItem u)) \<and>
        kcont k' (EventItem u) = (if kcont k (EventItem u) = Some PendingReadyList then None else kcont k (EventItem u))" for u
      using k'(2) ci t unfolding resumed_def eq k1(4) by simp
    ultimately have "resumed k k'" using k'(2) unfolding resumed_def eq k1(3) by blast
    then show ?thesis using step k'(1) by simp
  qed
qed

lemma kinv_yield [simp]: "kinv (k\<lparr>xYieldPending := b\<rparr>) = kinv k"
  using kcore_fields [of "k\<lparr>xYieldPending := b\<rparr>" k] by (simp add: kinv_def ktime_def)

lemma ticked_stepped:
  assumes "ticked k k'"
  shows "stepped Tick k k'" and "tcb k' = tcb k"
proof -
  show t: "tcb k' = tcb k" using assms unfolding ticked_def by auto
  have "xTickCount k' = xTickCount k + 1" using assms unfolding ticked_def by auto
  then show "stepped Tick k k'"
    using assms t unfolding ticked_def stepped_def by (auto simp: ready_def delayed_def suspended_def)
qed

text \<open>The state after \<open>n\<close> ticks.\<close>

definition elapsed :: "nat \<Rightarrow> kernel \<Rightarrow> kernel \<Rightarrow> bool" where
  "elapsed n k k' \<longleftrightarrow> kinv k' \<and> uxSchedulerSuspended k' = 0 \<and> tcb k' = tcb k \<and> xTickCount k' = xTickCount k + of_nat n \<and>
     (\<forall>t. delayed k t \<longrightarrow> (if remaining k t \<le> n then ready k' t else delayed k' t)) \<and>
     (\<forall>t. \<not> delayed k t \<longrightarrow> kcont k' (StateItem t) = kcont k (StateItem t))"

lemma elapsed_tick:
  assumes inv: "kinv k" and tk: "ticked k k1" and el: "elapsed n k1 k'"
  shows "elapsed (Suc n) k k'"
proof -
  note st = ticked_stepped [OF tk]
  have inv1: "kinv k1" using tk unfolding ticked_def by blast
  have tcbs: "tcb k' = tcb k" using el st(2) by (simp add: elapsed_def)
  have "if remaining k t \<le> Suc n then ready k' t else delayed k' t" if d: "delayed k t" for t
    using remaining_step [OF inv d st(1)]
  proof
    assume r: "Tick = Tick \<and> remaining k t = 1 \<and> ready k1 t"
    then have "\<not> delayed k1 t" using ready_not_delayed by blast
    then have "kcont k' (StateItem t) = kcont k1 (StateItem t)" using el by (simp add: elapsed_def)
    then have "ready k' t" using r tcbs st(2) by (simp add: ready_def)
    then show ?thesis using r by simp
  next
    assume r: "delayed k1 t \<and> remaining k t = remaining k1 t + (if Tick = Tick then 1 else 0)"
    then show ?thesis using el by (simp add: elapsed_def)
  qed
  moreover have "kcont k' (StateItem t) = kcont k (StateItem t)" if d: "\<not> delayed k t" for t
  proof -
    have "kcont k1 (StateItem t) = kcont k (StateItem t)" using tk d unfolding ticked_def by auto
    then have "\<not> delayed k1 t" using d by (simp add: delayed_def)
    then show ?thesis using el \<open>kcont k1 (StateItem t) = kcont k (StateItem t)\<close> by (simp add: elapsed_def)
  qed
  ultimately show ?thesis using el tcbs st(1) by (simp add: elapsed_def stepped_def)
qed

lemma pended_ticks_elapsed:
  assumes "kinv k" and "uxSchedulerSuspended k = 0"
  shows "\<exists>k'. pended_ticks n k = Some k' \<and> elapsed n k k'"
  using assms
proof (induction n arbitrary: k)
  case 0
  then show ?case by (auto simp: elapsed_def dest: remaining_pos)
next
  case (Suc n)
  obtain sw k1 where k1: "xTaskIncrementTick k = Some (sw, k1)" "ticked k k1"
    using xTaskIncrementTick_ticked [OF Suc.prems] by blast
  let ?k2 = "if sw then k1\<lparr>xYieldPending := True\<rparr> else k1"
  have inv1: "kinv ?k2" using k1(2) unfolding ticked_def by simp
  have run1: "uxSchedulerSuspended ?k2 = 0" using k1(2) Suc.prems(2) unfolding ticked_def by auto
  obtain k' where k': "pended_ticks n ?k2 = Some k'" "elapsed n ?k2 k'" using Suc.IH [OF inv1 run1] by blast
  have "elapsed n k1 k'"
    using k'(2) by (auto simp: elapsed_def remaining_def delayed_def split: if_splits)
  then show ?case using elapsed_tick [OF Suc.prems(1) k1(2)] k1(1) k'(1) by simp
qed

lemma kinv_reset_next:
  assumes "kcore k" and "ktime k"
  shows "kcore (prvResetNextTaskUnblockTime k)" and "ktime (prvResetNextTaskUnblockTime k)"
proof -
  show "kcore (prvResetNextTaskUnblockTime k)"
    using assms(1) kcore_fields [of "prvResetNextTaskUnblockTime k" k] by (simp add: prvResetNextTaskUnblockTime_def)
  have "(case kseq k (pxDelayedTaskList k) of [] \<Rightarrow> portMAX_DELAY | i # _ \<Rightarrow> kval k i) \<le> kval k (StateItem t)"
    if "kcont k (StateItem t) = Some (pxDelayedTaskList k)" for t
    using kcore_D(5) [OF assms(1)] kseq_iff [OF assms(1), of "StateItem t" "pxDelayedTaskList k"] that
    by (auto split: list.splits)
  then show "ktime (prvResetNextTaskUnblockTime k)"
    using assms(2) by (simp add: ktime_def prvResetNextTaskUnblockTime_def)
qed

lemma kinv_pended [simp]: "kinv (k\<lparr>xPendedTicks := b\<rparr>) = kinv k"
  using kcore_fields [of "k\<lparr>xPendedTicks := b\<rparr>" k] by (simp add: kinv_def ktime_def)

lemma elapsed_out:
  "elapsed n k (k'\<lparr>xPendedTicks := b\<rparr>) = elapsed n k k'" "elapsed n k (portYIELD k') = elapsed n k k'"
  by (simp_all add: elapsed_def portYIELD_def ready_def delayed_def)

lemma xTaskResumeAll_elapsed:
  assumes inv: "kinv k" and one: "uxSchedulerSuspended k = 1" and some: "uxCurrentNumberOfTasks k > 0"
  shows "\<exists>y k' k3. xTaskResumeAll k = Some (y, k') \<and> elapsed (unat (xPendedTicks k)) k3 k' \<and> xPendedTicks k' = 0 \<and>
    (y \<longrightarrow> swi_pending k') \<and> tcb k3 = tcb k \<and> xTickCount k3 = xTickCount k \<and> kval k3 = kval k \<and>
    (\<forall>t. kcont k3 (StateItem t) = (if kcont k (EventItem t) = Some PendingReadyList then Some (ReadyList (prio k t))
            else kcont k (StateItem t)))"
proof -
  let ?k1 = "k\<lparr>uxSchedulerSuspended := 0\<rparr>"
  have "kcore ?k1" "ktime ?k1" using inv kcore_fields [of ?k1 k] by (simp_all add: kinv_def ktime_def)
  then obtain k2 where k2: "ready_pending ?k1 = Some k2" "resumed ?k1 k2" using ready_pending_spec by blast
  obtain s m y where e2: "k2 = ?k1\<lparr>ls := s, uxTopReadyPriority := m, xYieldPending := y\<rparr>"
    using k2(2) unfolding resumed_def by blast
  define k3 where "k3 = (if kseq ?k1 PendingReadyList \<noteq> [] then prvResetNextTaskUnblockTime k2 else k2)"
  have r2: "kcore k2" "ktime k2" "kseq k2 PendingReadyList = []" "kval k2 = kval k"
    "\<forall>t. kcont k2 (StateItem t) = (if kcont k (EventItem t) = Some PendingReadyList then Some (ReadyList (prio k t))
            else kcont k (StateItem t))"
    using k2(2) unfolding resumed_def by auto
  have f3: "ls k3 = ls k2" "tcb k3 = tcb k" "xTickCount k3 = xTickCount k" "uxSchedulerSuspended k3 = 0" "xPendedTicks k3 = xPendedTicks k"
    by (simp_all add: k3_def e2 prvResetNextTaskUnblockTime_def)
  have "kcore k3" "ktime k3" using r2(1,2) kinv_reset_next [OF r2(1,2)] by (simp_all add: k3_def)
  then have inv3: "kinv k3" using r2(3) f3 by (simp add: kinv_def)
  have "\<exists>k4. (if xPendedTicks k3 > 0 then map_option (\<lambda>c. c\<lparr>xPendedTicks := 0\<rparr>) (pended_ticks (unat (xPendedTicks k3)) k3)
      else Some k3) = Some k4 \<and> elapsed (unat (xPendedTicks k)) k3 k4 \<and> xPendedTicks k4 = 0"
  proof (cases "xPendedTicks k3 > 0")
    case True
    then show ?thesis using pended_ticks_elapsed [OF inv3 f3(4), of "unat (xPendedTicks k)"] f3(5) by (auto simp: elapsed_out)
  next
    case False
    then have "xPendedTicks k = 0" using f3(5) by (simp add: word_gt_0)
    then show ?thesis using pended_ticks_elapsed [OF inv3 f3(4), of 0] f3(5) by auto
  qed
  then obtain k4 where k4: "(if xPendedTicks k3 > 0 then map_option (\<lambda>c. c\<lparr>xPendedTicks := 0\<rparr>) (pended_ticks (unat (xPendedTicks k3)) k3)
      else Some k3) = Some k4" "elapsed (unat (xPendedTicks k)) k3 k4" "xPendedTicks k4 = 0" by blast
  have run: "xTaskResumeAll k = Some (if xYieldPending k4 then (True, portYIELD k4) else (False, k4))"
  proof -
    have "xTaskResumeAll k = Option.bind (if xPendedTicks k3 > 0
        then map_option (\<lambda>c. c\<lparr>xPendedTicks := 0\<rparr>) (pended_ticks (unat (xPendedTicks k3)) k3) else Some k3)
        (\<lambda>k4. Some (if xYieldPending k4 then (True, portYIELD k4) else (False, k4)))"
      unfolding k3_def using one some k2(1) by (simp add: xTaskResumeAll_def configASSERT_def Let_def)
    then show ?thesis by (simp only: k4(1)) simp
  qed
  show ?thesis
  proof (cases "xYieldPending k4")
    case True
    then show ?thesis using run k4(2,3) f3 r2(4,5)
      by (intro exI [of _ True] exI [of _ "portYIELD k4"] exI [of _ k3]) (simp add: elapsed_out, simp add: portYIELD_def)
  next
    case False
    then show ?thesis using run k4(2,3) f3 r2(4,5)
      by (intro exI [of _ False] exI [of _ k4] exI [of _ k3]) simp
  qed
qed

section \<open>Properties\<close>

text \<open>
  A system with an idle task and one other task, both ready, shortly before the tick count wraps;
  used by the witnesses.
\<close>

definition two_tasks :: kernel where
  "two_tasks = \<lparr>
     tcb = (\<lambda>t. \<lparr>uxPriority = (if t = 2 then 5 else 0), uxBasePriority = (if t = 2 then 5 else 0), uxMutexesHeld = 0,
              ulNotifiedValue = 0, ucNotifyState = taskNOT_WAITING_NOTIFICATION, ucDelayAborted = False\<rparr>),
     ls = \<lparr>seq = (\<lambda>l. if l = ReadyList 0 then [StateItem 1] else if l = ReadyList 5 then [StateItem 2] else []),
           idx = (\<lambda>_. None),
           cont = (\<lambda>i. if i = StateItem 1 then Some (ReadyList 0) else if i = StateItem 2 then Some (ReadyList 5) else None),
           ival = (\<lambda>_. 0)\<rparr>,
     pxDelayedTaskList = DelayedTaskList1, pxOverflowDelayedTaskList = DelayedTaskList2, pxCurrentTCB = 2,
     uxDeletedTasksWaitingCleanUp = 0, uxCurrentNumberOfTasks = 2, xTickCount = 0xfffffffe, uxTopReadyPriority = 5,
     xSchedulerRunning = True, xPendedTicks = 0, xYieldPending = False, xNumOfOverflows = 0, uxTaskNumber = 2,
     xNextTaskUnblockTime = portMAX_DELAY, uxSchedulerSuspended = 0, swi_pending = False\<rparr>"

lemma two_tasks_ok: "sched_ok 1 two_tasks"
proof -
  have "ls_wf (ls two_tasks)" by (auto simp: two_tasks_def ls_wf_def)
  moreover have "kcont two_tasks (EventItem t) = None" for t by (simp add: two_tasks_def)
  moreover have "state_place two_tasks t l" if "kcont two_tasks (StateItem t) = Some l" for t l
    using that by (auto simp: two_tasks_def state_place_def split: if_splits)
  ultimately have "kcore two_tasks" unfolding kcore_def by (simp add: two_tasks_def)
  moreover have "ktime two_tasks" by (auto simp: two_tasks_def ktime_def split: if_splits)
  ultimately show ?thesis by (simp add: sched_ok_def kinv_def) (simp add: two_tasks_def ready_def)
qed

text \<open>
  C5: The tick interrupt when the scheduler is not suspended: it returns (in particular the
  assertion that the delayed list is empty at the wrap-around holds), moves exactly the tasks whose
  wake time is the new tick count to the ready lists, taking them off their event lists, leaves
  every other task where it is, counts overflows, and keeps the scheduler invariant.
\<close>

theorem xTaskIncrementTick_wakes:
  assumes "kinv k" and "uxSchedulerSuspended k = 0"
  shows "\<exists>sw k'. xTaskIncrementTick k = Some (sw, k') \<and> kinv k' \<and> xTickCount k' = xTickCount k + 1 \<and>
    xNumOfOverflows k' = xNumOfOverflows k + (if xTickCount k + 1 = 0 then 1 else 0) \<and>
    (\<forall>t. let due = delayed k t \<and> kval k (StateItem t) = xTickCount k + 1
         in kcont k' (StateItem t) = (if due then Some (ReadyList (prio k t)) else kcont k (StateItem t)) \<and>
            kcont k' (EventItem t) = (if due then None else kcont k (EventItem t)))"
  using xTaskIncrementTick_ticked [OF assms] unfolding ticked_def by auto

theorem xTaskIncrementTick_wakes_witness:
  "\<exists>sw k'. xTaskIncrementTick two_tasks = Some (sw, k') \<and> kinv k' \<and> xTickCount k' = 0xffffffff"
  using xTaskIncrementTick_wakes [of two_tasks] two_tasks_ok by (auto simp: sched_ok_def) (auto simp: two_tasks_def)

text \<open>
  C1: A delay lasts exactly as many ticks as were asked for, across the wrap-around of the tick
  count and whatever context switches and delays of other tasks happen in between: \<open>vTaskDelay\<close>
  returns, while fewer ticks have come the task is still delayed, and the tick with that number
  makes it ready.
\<close>

theorem vTaskDelay_exact:
  assumes "sched_ok idle k" and "\<not> swi_pending k" and "pxCurrentTCB k \<noteq> idle" and "n \<noteq> 0"
  shows "\<exists>k1. vTaskDelay n k = Some k1 \<and>
    (\<forall>es. length (filter ((=) Tick) es) < unat n \<longrightarrow>
       (\<exists>k'. krun idle es k1 = Some k' \<and> delayed k' (pxCurrentTCB k))) \<and>
    (\<forall>es. length (filter ((=) Tick) es) + 1 = unat n \<longrightarrow>
       (\<exists>k'. krun idle (es @ [Tick]) k1 = Some k' \<and> ready k' (pxCurrentTCB k)))"
proof -
  obtain k1 where k1: "vTaskDelay n k = Some k1" "sched_ok idle k1" "stepped (Delay n) k k1"
      "delayed k1 (pxCurrentTCB k)" "kval k1 (StateItem (pxCurrentTCB k)) = xTickCount k + n"
    using vTaskDelay_blocks [OF assms] by blast
  have "xTickCount k1 = xTickCount k" using k1(3) by (simp add: stepped_def)
  then have "remaining k1 (pxCurrentTCB k) = unat n" using k1(5) by (simp add: remaining_def)
  then show ?thesis using delay_exact_run [OF k1(2,4)] k1(1) by simp
qed

theorem vTaskDelay_exact_witness:
  "\<exists>k1. vTaskDelay 3 two_tasks = Some k1 \<and>
    (\<exists>k'. krun 1 [Switch, Tick, Tick] k1 = Some k' \<and> delayed k' 2) \<and>
    (\<exists>k'. krun 1 ([Switch, Tick, Tick] @ [Tick]) k1 = Some k' \<and> ready k' 2)"
proof -
  have pre: "\<not> swi_pending two_tasks" "pxCurrentTCB two_tasks \<noteq> 1" "(3 :: u32) \<noteq> 0" by (simp_all add: two_tasks_def)
  have c: "pxCurrentTCB two_tasks = 2" by (simp add: two_tasks_def)
  obtain k1 where k1: "vTaskDelay 3 two_tasks = Some k1"
      "\<forall>es. length (filter ((=) Tick) es) < unat (3 :: u32) \<longrightarrow> (\<exists>k'. krun 1 es k1 = Some k' \<and> delayed k' 2)"
      "\<forall>es. length (filter ((=) Tick) es) + 1 = unat (3 :: u32) \<longrightarrow> (\<exists>k'. krun 1 (es @ [Tick]) k1 = Some k' \<and> ready k' 2)"
    using vTaskDelay_exact [OF two_tasks_ok pre] unfolding c by blast
  have "length (filter ((=) Tick) [Switch, Tick, Tick]) < unat (3 :: u32)" and
    "length (filter ((=) Tick) [Switch, Tick, Tick]) + 1 = unat (3 :: u32)" by simp_all
  then show ?thesis using k1 by blast
qed

text \<open>
  C4: \<open>vTaskSwitchContext\<close>, while some task is ready and the scheduler is not suspended, returns
  with a ready task of the highest priority among all ready tasks as the running task, clears the
  pending yield, moves no task to another list and keeps the invariant.
\<close>

theorem vTaskSwitchContext_highest:
  assumes "kinv k" and "uxSchedulerSuspended k = 0" and "ready k t"
  shows "\<exists>k'. vTaskSwitchContext k = Some k' \<and> ready k' (pxCurrentTCB k') \<and>
    (\<forall>u. ready k u \<longrightarrow> prio k u \<le> prio k' (pxCurrentTCB k')) \<and> \<not> xYieldPending k' \<and> kcont k' = kcont k \<and> kinv k'"
proof -
  obtain k' c s where k': "vTaskSwitchContext k = Some k'" "ready k c" "\<forall>u. ready k u \<longrightarrow> prio k u \<le> prio k c" "kinv k'"
      "kcont k' = kcont k" "k' = k\<lparr>ls := s, xYieldPending := False, pxCurrentTCB := c, uxTopReadyPriority := prio k c\<rparr>"
    using vTaskSwitchContext_spec [OF assms] by blast
  have "pxCurrentTCB k' = c" "tcb k' = tcb k" "\<not> xYieldPending k'" by (simp_all add: k'(6))
  then show ?thesis using k' by (simp add: ready_def)
qed

theorem vTaskSwitchContext_highest_witness:
  "\<exists>k'. vTaskSwitchContext two_tasks = Some k' \<and> 5 \<le> prio k' (pxCurrentTCB k') \<and> kinv k'"
proof -
  have "kinv two_tasks" "uxSchedulerSuspended two_tasks = 0" "ready two_tasks 1" using two_tasks_ok by (simp_all add: sched_ok_def)
  moreover have "ready two_tasks 2" "prio two_tasks 2 = 5" by (simp_all add: two_tasks_def ready_def)
  ultimately show ?thesis using vTaskSwitchContext_highest by metis
qed

text \<open>
  C3: Nothing that happened while the scheduler was suspended is lost. The outermost
  \<open>xTaskResumeAll\<close> returns; the tick count moves on by the number of ticks held back; every task
  that became ready through an event is ready; every other delayed task is ready if its time came
  during the suspension, and still delayed if not; the held-back ticks are used up and the
  scheduler invariant holds.
\<close>

theorem xTaskResumeAll_catches_up:
  assumes "kinv k" and "uxSchedulerSuspended k = 1" and "uxCurrentNumberOfTasks k > 0"
  shows "\<exists>y k'. xTaskResumeAll k = Some (y, k') \<and> kinv k' \<and> uxSchedulerSuspended k' = 0 \<and> xPendedTicks k' = 0 \<and>
    xTickCount k' = xTickCount k + xPendedTicks k \<and>
    (\<forall>t. kcont k (EventItem t) = Some PendingReadyList \<longrightarrow> ready k' t) \<and>
    (\<forall>t. delayed k t \<and> kcont k (EventItem t) \<noteq> Some PendingReadyList \<longrightarrow>
       (if remaining k t \<le> unat (xPendedTicks k) then ready k' t else delayed k' t))"
proof -
  obtain y k' k3 where r: "xTaskResumeAll k = Some (y, k')" "elapsed (unat (xPendedTicks k)) k3 k'" "xPendedTicks k' = 0"
      "tcb k3 = tcb k" "xTickCount k3 = xTickCount k" "kval k3 = kval k"
      "\<forall>t. kcont k3 (StateItem t) = (if kcont k (EventItem t) = Some PendingReadyList then Some (ReadyList (prio k t))
            else kcont k (StateItem t))"
    using xTaskResumeAll_elapsed [OF assms] by blast
  have "ready k' t" if "kcont k (EventItem t) = Some PendingReadyList" for t
  proof -
    have "kcont k3 (StateItem t) = Some (ReadyList (prio k t))" using r(7) that by simp
    then show ?thesis using r(2,4) by (simp add: elapsed_def delayed_def ready_def)
  qed
  moreover have "if remaining k t \<le> unat (xPendedTicks k) then ready k' t else delayed k' t"
    if "delayed k t" "kcont k (EventItem t) \<noteq> Some PendingReadyList" for t
  proof -
    have "kcont k3 (StateItem t) = kcont k (StateItem t)" using r(7) that(2) by simp
    then have "delayed k3 t" "remaining k3 t = remaining k t" using that(1) r(5,6) by (simp_all add: delayed_def remaining_def)
    then show ?thesis using r(2) by (simp add: elapsed_def)
  qed
  ultimately show ?thesis using r by (simp add: elapsed_def)
qed

theorem xTaskResumeAll_catches_up_witness:
  "\<exists>y k'. xTaskResumeAll (two_tasks\<lparr>uxSchedulerSuspended := 1, xPendedTicks := 5\<rparr>) = Some (y, k') \<and> kinv k' \<and>
    xPendedTicks k' = 0 \<and> xTickCount k' = 3"
proof -
  let ?k = "two_tasks\<lparr>uxSchedulerSuspended := 1, xPendedTicks := 5\<rparr>"
  have "kinv ?k" using two_tasks_ok kcore_fields [of ?k two_tasks] by (simp add: sched_ok_def kinv_def ktime_def)
  moreover have "xTickCount ?k + xPendedTicks ?k = 3" "uxCurrentNumberOfTasks ?k > 0" by (simp_all add: two_tasks_def)
  ultimately show ?thesis using xTaskResumeAll_catches_up [of ?k] by auto
qed

end
