(* ===== verification/Kernel_Time.thy ===== *)
theory Kernel_Time
  imports Kernel_Ticks
begin

text \<open>
  Time-outs and periodic delays of \<open>FreeRTOS/tasks.c\<close>. Time is measured against the true number of
  ticks, a natural number; the kernel sees it as a 32-bit tick count and a count of its overflows.
\<close>

section \<open>The true number of ticks\<close>

text \<open>\<open>passed e k0 k\<close>: between the states \<open>k0\<close> and \<open>k\<close> exactly \<open>e\<close> ticks were counted.\<close>

definition passed :: "nat \<Rightarrow> kernel \<Rightarrow> kernel \<Rightarrow> bool" where
  "passed e k0 k \<longleftrightarrow> xTickCount k = xTickCount k0 + of_nat e \<and>
     xNumOfOverflows k = xNumOfOverflows k0 + of_nat ((unat (xTickCount k0) + e) div 2 ^ 32)"

lemma passed_start: "passed 0 k k"
proof -
  have "unat (xTickCount k) < 2 ^ 32" using unsigned_less [of "xTickCount k"] by simp
  then show ?thesis by (simp add: passed_def)
qed

lemma unat_add_of_nat: "unat (x + of_nat e :: u32) = (unat x + e) mod 2 ^ 32"
  by (simp add: unat_word_ariths unat_of_nat mod_add_right_eq)

lemma tick_zero_iff: "(x + of_nat e + 1 = (0 :: u32)) \<longleftrightarrow> (unat x + e + 1) mod 2 ^ 32 = 0"
proof -
  have "x + of_nat e + 1 = x + of_nat (e + 1)" by (simp add: add.commute)
  then show ?thesis using unat_add_of_nat [of x "e + 1"] by (metis add.assoc unat_eq_zero)
qed

text \<open>Each tick adds one.\<close>

lemma ticked_passed:
  assumes "ticked k k'" and p: "passed e k0 k"
  shows "passed (Suc e) k0 k'"
proof -
  have t: "xTickCount k' = xTickCount k + 1" and ov: "xNumOfOverflows k' = xNumOfOverflows k + (if xTickCount k + 1 = 0 then 1 else 0)"
    using assms(1) unfolding ticked_def by auto
  let ?n = "unat (xTickCount k0) + e"
  have "(?n + 1) div 2 ^ 32 = ?n div 2 ^ 32 + (if (?n + 1) mod 2 ^ 32 = 0 then 1 else 0)"
    by (simp add: div_Suc)
  then show ?thesis using p t ov tick_zero_iff [of "xTickCount k0" e] by (auto simp: passed_def)
qed

section \<open>Time-outs\<close>

lemma u32_elapsed:
  fixes t0 :: u32
  assumes "e < 2 ^ 32"
  shows "unat (t0 + of_nat e - t0) = e"
  using assms by (simp add: unat_of_nat)

text \<open>
  C6: The time-out check is exact, across the wrap-around of the tick count, as long as it is made
  before the tick count has come round a second time: it reports a time-out exactly when at least
  the ticks waited for have passed since the time was recorded, and otherwise it reduces the
  time to wait by exactly the ticks that have passed and records the new time.
\<close>

theorem xTaskCheckForTimeOut_exact:
  assumes p: "passed e k0 k" and bound: "unat (xTickCount k0) + e < 2 ^ 33"
    and "\<not> ucDelayAborted (tcb k (pxCurrentTCB k))" and "w \<noteq> portMAX_DELAY"
  shows "xTaskCheckForTimeOut (vTaskSetTimeOutState k0) w k =
    (if unat w \<le> e then (True, vTaskSetTimeOutState k0, 0, k)
     else (False, vTaskSetTimeOutState k, w - of_nat e, k))"
proof -
  let ?a = "xTickCount k0" and ?t = "xTickCount k"
  have tick: "?t = ?a + of_nat e" and ov: "xNumOfOverflows k = xNumOfOverflows k0 + of_nat ((unat ?a + e) div 2 ^ 32)"
    using p unfolding passed_def by blast+
  have small: "unat ?a < 2 ^ 32" "unat w < 2 ^ 32" using unsigned_less [of ?a] unsigned_less [of w] by simp_all
  have el: "?t - ?a < w \<longleftrightarrow> e < unat w" if "e < 2 ^ 32"
    using that u32_elapsed [OF that, of ?a] by (simp add: tick word_less_nat_alt)
  have ut: "unat ?t = (unat ?a + e) mod 2 ^ 32" by (simp add: tick unat_add_of_nat)
  show ?thesis
  proof (cases "unat ?a + e < 2 ^ 32")
    case True
    then have "xNumOfOverflows k = xNumOfOverflows k0" "e < 2 ^ 32" using ov by simp_all
    then show ?thesis using assms(3,4) el
      by (simp add: xTaskCheckForTimeOut_def vTaskSetTimeOutState_def vTaskInternalSetTimeOutState_def Let_def tick not_less)
  next
    case False
    then have "(unat ?a + e) div 2 ^ 32 = 1" "unat ?t = unat ?a + e - 2 ^ 32"
      using bound ut by (simp_all add: div_nat_eqI le_mod_geq)
    then have ovne: "xNumOfOverflows k \<noteq> xNumOfOverflows k0" and ge: "?t \<ge> ?a \<longleftrightarrow> 2 ^ 32 \<le> e"
      using ov False by (auto simp: word_le_nat_alt)
    show ?thesis
    proof (cases "2 ^ 32 \<le> e")
      case True
      then show ?thesis using assms(3,4) ovne ge small
        by (simp add: xTaskCheckForTimeOut_def vTaskSetTimeOutState_def Let_def)
    next
      case False
      then show ?thesis using assms(3,4) ge el
        by (simp add: xTaskCheckForTimeOut_def vTaskSetTimeOutState_def vTaskInternalSetTimeOutState_def Let_def tick not_less)
    qed
  qed
qed

theorem xTaskCheckForTimeOut_exact_witness:
  "xTaskCheckForTimeOut (vTaskSetTimeOutState two_tasks) 10
     (two_tasks\<lparr>xTickCount := 2, xNumOfOverflows := 1\<rparr>) =
   (False, vTaskSetTimeOutState (two_tasks\<lparr>xTickCount := 2, xNumOfOverflows := 1\<rparr>), 6,
     two_tasks\<lparr>xTickCount := 2, xNumOfOverflows := 1\<rparr>)"
proof -
  let ?k = "two_tasks\<lparr>xTickCount := 2, xNumOfOverflows := 1\<rparr>"
  have "passed 4 two_tasks ?k" by (simp add: passed_def two_tasks_def)
  moreover have "unat (xTickCount two_tasks) + 4 < 2 ^ 33" "\<not> ucDelayAborted (tcb ?k (pxCurrentTCB ?k))"
    "(10 :: u32) \<noteq> portMAX_DELAY" by (simp_all add: two_tasks_def portMAX_DELAY_def)
  ultimately show ?thesis using xTaskCheckForTimeOut_exact [of 4 two_tasks ?k 10] by simp
qed

section \<open>Periodic delays\<close>

text \<open>The four comparisons of \<open>xTaskDelayUntil\<close> decide whether the wake time is still ahead.\<close>

lemma delay_until_condition:
  fixes t p i :: u32
  shows "(if t < p then p + i < p \<and> p + i > t else p + i < p \<or> p + i > t) \<longleftrightarrow> t - p < i"
  by uint_arith

text \<open>
  C7: \<open>xTaskDelayUntil\<close> keeps an exact period: the recorded wake time advances by exactly the
  increment; the call delays the task if and only if fewer ticks than the increment have passed
  since the previous wake time, and then the task is to wake at exactly the previous wake time plus
  the increment, also across the wrap-around; otherwise the task stays ready.
\<close>

theorem xTaskDelayUntil_exact:
  assumes ok: "sched_ok idle k" and cur: "\<not> swi_pending k" "pxCurrentTCB k \<noteq> idle" and i: "i \<noteq> 0"
  shows "\<exists>k'. xTaskDelayUntil p i k = Some (xTickCount k - p < i, p + i, k') \<and> sched_ok idle k' \<and>
    (if xTickCount k - p < i
     then delayed k' (pxCurrentTCB k) \<and> kval k' (StateItem (pxCurrentTCB k)) = p + i
     else ready k' (pxCurrentTCB k))"
proof (cases "xTickCount k - p < i")
  case True
  let ?n = "p + i - xTickCount k"
  have nz: "?n \<noteq> 0" using True by uint_arith
  obtain k2 y k3 where r: "prvAddCurrentTaskToDelayedList ?n False (vTaskSuspendAll k) = Some k2"
      "xTaskResumeAll k2 = Some (y, k3)"
      "sched_ok idle (if y then k3 else portYIELD k3) \<and>
       delayed (if y then k3 else portYIELD k3) (pxCurrentTCB k) \<and>
       kval (if y then k3 else portYIELD k3) (StateItem (pxCurrentTCB k)) = xTickCount k + ?n"
    using suspend_block_resume [OF ok cur nz] by blast
  have "xTaskDelayUntil p i k = Some (True, p + i, if y then k3 else portYIELD k3)"
    using ok i r(1,2) True delay_until_condition [of "xTickCount k" p i]
    by (simp add: xTaskDelayUntil_def configASSERT_def sched_ok_def word_gt_0 vTaskSuspendAll_def Let_def)
  then show ?thesis using r(3) True by auto
next
  case False
  let ?k1 = "vTaskSuspendAll k"
  have q: "uxSchedulerSuspended ?k1 = 1" "kseq ?k1 PendingReadyList = []" "xPendedTicks ?k1 = 0" "uxCurrentNumberOfTasks ?k1 > 0"
    using ok by (simp_all add: sched_ok_def vTaskSuspendAll_def kinv_def)
  have same: "?k1\<lparr>uxSchedulerSuspended := 0\<rparr> = k" using ok by (simp add: vTaskSuspendAll_def sched_ok_def)
  have "xTaskDelayUntil p i k = Some (False, p + i, portYIELD k)"
    using ok i False delay_until_condition [of "xTickCount k" p i] xTaskResumeAll_quiet [OF q] same
    by (auto simp: xTaskDelayUntil_def configASSERT_def sched_ok_def word_gt_0 vTaskSuspendAll_def Let_def portYIELD_def)
  moreover have "sched_ok idle (portYIELD k)" "ready (portYIELD k) (pxCurrentTCB k)"
    using ok cur by (simp_all add: sched_ok_def portYIELD_def ready_def)
  ultimately show ?thesis using False by auto
qed

theorem xTaskDelayUntil_exact_witness:
  "\<exists>k'. xTaskDelayUntil 0xfffffff0 20 two_tasks = Some (True, 4, k') \<and> delayed k' 2 \<and> kval k' (StateItem 2) = 4"
proof -
  have pre: "\<not> swi_pending two_tasks" "pxCurrentTCB two_tasks \<noteq> 1" "(20 :: u32) \<noteq> 0" by (simp_all add: two_tasks_def)
  have c: "pxCurrentTCB two_tasks = 2" "xTickCount two_tasks = 0xfffffffe" by (simp_all add: two_tasks_def)
  have w: "(0xfffffff0 + 20 :: u32) = 4" "(0xfffffffe - 0xfffffff0 < (20 :: u32)) = True" by simp_all
  show ?thesis using xTaskDelayUntil_exact [OF two_tasks_ok pre, of "0xfffffff0"] unfolding c w by auto
qed

end
