(* ===== verification/Kernel_Control.thy ===== *)
theory Kernel_Control
  imports Kernel_Time
begin

text \<open>
  Task control in \<open>FreeRTOS/tasks.c\<close>: deletion, suspension, priorities, the priority inheritance of
  mutexes, aborted delays and direct-to-task notifications (one notification per task, the default of
  \<open>configTASK_NOTIFICATION_ARRAY_ENTRIES\<close>). The calls that block in the middle are given as their two
  critical sections.
\<close>

section \<open>Deletion and state\<close>

definition vTaskDelete :: "nat \<Rightarrow> kernel \<Rightarrow> kernel option" where
  "vTaskDelete xTaskToDelete k = do {
     let t = prvGetTCBFromHandle xTaskToDelete k;
     k1 \<leftarrow> list_remove (StateItem t) k;
     k2 \<leftarrow> remove_event_item t k1;
     let k3 = k2\<lparr>uxTaskNumber := uxTaskNumber k2 + 1\<rparr>;
     let k4 = (if t = pxCurrentTCB k3
               then (list_insert_end TasksWaitingTermination (StateItem t) k3)
                      \<lparr>uxDeletedTasksWaitingCleanUp := uxDeletedTasksWaitingCleanUp k3 + 1\<rparr>
               else prvResetNextTaskUnblockTime (k3\<lparr>uxCurrentNumberOfTasks := uxCurrentNumberOfTasks k3 - 1\<rparr>));
     if xSchedulerRunning k4 \<and> t = pxCurrentTCB k4
     then do { configASSERT (uxSchedulerSuspended k4 = 0); Some (portYIELD k4) }
     else Some k4
   }"

partial_function (option) prvCheckTasksWaitingTermination :: "kernel \<Rightarrow> kernel option" where
  "prvCheckTasksWaitingTermination k =
     (if uxDeletedTasksWaitingCleanUp k > 0
      then (case kseq k TasksWaitingTermination of
              [] \<Rightarrow> None
            | i # _ \<Rightarrow> Option.bind (list_remove (StateItem (owner i)) k) (\<lambda>k1.
                prvCheckTasksWaitingTermination
                  (k1\<lparr>uxCurrentNumberOfTasks := uxCurrentNumberOfTasks k1 - 1,
                     uxDeletedTasksWaitingCleanUp := uxDeletedTasksWaitingCleanUp k1 - 1\<rparr>)))
      else Some k)"

datatype eTaskState = eRunning | eReady | eBlocked | eSuspended | eDeleted

definition eTaskGetState :: "nat \<Rightarrow> kernel \<Rightarrow> eTaskState" where
  "eTaskGetState t k =
     (if t = pxCurrentTCB k then eRunning
      else (let pxStateList = kcont k (StateItem t)
            in if pxStateList = Some (pxDelayedTaskList k) \<or> pxStateList = Some (pxOverflowDelayedTaskList k)
               then eBlocked
               else if pxStateList = Some SuspendedTaskList
               then (if kcont k (EventItem t) = None
                     then (if ucNotifyState (tcb k t) = taskWAITING_NOTIFICATION then eBlocked else eSuspended)
                     else eBlocked)
               else if pxStateList = Some TasksWaitingTermination \<or> pxStateList = None then eDeleted
               else eReady))"

section \<open>Priorities\<close>

definition uxTaskPriorityGet :: "nat \<Rightarrow> kernel \<Rightarrow> nat" where
  "uxTaskPriorityGet xTask k = prio k (prvGetTCBFromHandle xTask k)"

definition vTaskPrioritySet :: "nat \<Rightarrow> nat \<Rightarrow> kernel \<Rightarrow> kernel option" where
  "vTaskPrioritySet xTask uxNewPriority k = do {
     configASSERT (uxNewPriority < configMAX_PRIORITIES);
     let t = prvGetTCBFromHandle xTask k;
     let uxCurrentBasePriority = uxBasePriority (tcb k t);
     if uxCurrentBasePriority \<noteq> uxNewPriority
     then do {
       let xYieldRequired =
         (if uxNewPriority > uxCurrentBasePriority
          then t \<noteq> pxCurrentTCB k \<and> uxNewPriority \<ge> prio k (pxCurrentTCB k)
          else t = pxCurrentTCB k);
       let uxPriorityUsedOnEntry = prio k t;
       let k1 = (if uxBasePriority (tcb k t) = prio k t then set_tcb t (uxPriority_update (\<lambda>_. uxNewPriority)) k else k);
       let k2 = set_tcb t (uxBasePriority_update (\<lambda>_. uxNewPriority)) k1;
       let k3 = set_event_value t uxNewPriority k2;
       k4 \<leftarrow> (if kcont k3 (StateItem t) = Some (ReadyList uxPriorityUsedOnEntry)
             then map_option (prvAddTaskToReadyList t) (list_remove (StateItem t) k3)
             else Some k3);
       Some (if xYieldRequired then portYIELD k4 else k4)
     }
     else Some k
   }"

section \<open>Suspending and resuming a task\<close>

definition vTaskSuspend :: "nat \<Rightarrow> kernel \<Rightarrow> kernel option" where
  "vTaskSuspend xTaskToSuspend k = do {
     let t = prvGetTCBFromHandle xTaskToSuspend k;
     k1 \<leftarrow> list_remove (StateItem t) k;
     k2 \<leftarrow> remove_event_item t k1;
     let k3 = list_insert_end SuspendedTaskList (StateItem t) k2;
     let k4 = (if ucNotifyState (tcb k3 t) = taskWAITING_NOTIFICATION
               then set_tcb t (ucNotifyState_update (\<lambda>_. taskNOT_WAITING_NOTIFICATION)) k3 else k3);
     let k5 = (if xSchedulerRunning k4 then prvResetNextTaskUnblockTime k4 else k4);
     if t = pxCurrentTCB k5
     then (if xSchedulerRunning k5
           then do { configASSERT (uxSchedulerSuspended k5 = 0); Some (portYIELD k5) }
           else if of_nat (length (kseq k5 SuspendedTaskList)) = uxCurrentNumberOfTasks k5
           then Some (k5\<lparr>pxCurrentTCB := 0\<rparr>)
           else vTaskSwitchContext k5)
     else Some k5
   }"

definition prvTaskIsTaskSuspended :: "nat \<Rightarrow> kernel \<Rightarrow> bool" where
  "prvTaskIsTaskSuspended t k \<longleftrightarrow>
     kcont k (StateItem t) = Some SuspendedTaskList \<and> kcont k (EventItem t) \<noteq> Some PendingReadyList \<and>
     kcont k (EventItem t) = None"

definition vTaskResume :: "nat \<Rightarrow> kernel \<Rightarrow> kernel option" where
  "vTaskResume t k = do {
     configASSERT (t \<noteq> 0);
     if t \<noteq> pxCurrentTCB k \<and> prvTaskIsTaskSuspended t k
     then do {
       k1 \<leftarrow> list_remove (StateItem t) k;
       let k2 = prvAddTaskToReadyList t k1;
       Some (if prio k2 t \<ge> prio k2 (pxCurrentTCB k2) then portYIELD k2 else k2)
     }
     else Some k
   }"

definition xTaskResumeFromISR :: "nat \<Rightarrow> kernel \<Rightarrow> (bool \<times> kernel) option" where
  "xTaskResumeFromISR t k = do {
     configASSERT (t \<noteq> 0);
     if prvTaskIsTaskSuspended t k
     then (if uxSchedulerSuspended k = 0
           then do {
             let y = (prio k t \<ge> prio k (pxCurrentTCB k));
             let k1 = (if y then k\<lparr>xYieldPending := True\<rparr> else k);
             k2 \<leftarrow> list_remove (StateItem t) k1;
             Some (y, prvAddTaskToReadyList t k2)
           }
           else Some (False, list_insert_end PendingReadyList (EventItem t) k))
     else Some (False, k)
   }"

definition xTaskAbortDelay :: "nat \<Rightarrow> kernel \<Rightarrow> (bool \<times> kernel) option" where
  "xTaskAbortDelay t k = do {
     configASSERT (t \<noteq> 0);
     let k1 = vTaskSuspendAll k;
     (r, k2) \<leftarrow>
       (if eTaskGetState t k1 = eBlocked
        then do {
          c1 \<leftarrow> list_remove (StateItem t) k1;
          c2 \<leftarrow> (if kcont c1 (EventItem t) \<noteq> None
                then map_option (set_tcb t (ucDelayAborted_update (\<lambda>_. True))) (list_remove (EventItem t) c1)
                else Some c1);
          let c3 = prvAddTaskToReadyList t c2;
          Some (True, if prio c3 t > prio c3 (pxCurrentTCB c3) then c3\<lparr>xYieldPending := True\<rparr> else c3)
        }
        else Some (False, k1));
     (_, k3) \<leftarrow> xTaskResumeAll k2;
     Some (r, k3)
   }"

section \<open>Priority inheritance\<close>

definition set_prio :: "nat \<Rightarrow> nat \<Rightarrow> kernel \<Rightarrow> kernel" where
  "set_prio t p k = set_tcb t (uxPriority_update (\<lambda>_. p)) k"

definition xTaskPriorityInherit :: "nat \<Rightarrow> kernel \<Rightarrow> (bool \<times> kernel) option" where
  "xTaskPriorityInherit h k =
     (if h \<noteq> 0
      then (if prio k h < prio k (pxCurrentTCB k)
            then (let p = prio k (pxCurrentTCB k);
                      k1 = set_event_value h p k
                  in if kcont k1 (StateItem h) = Some (ReadyList (prio k1 h))
                     then map_option (\<lambda>k2. (True, prvAddTaskToReadyList h (set_prio h p k2))) (list_remove (StateItem h) k1)
                     else Some (True, set_prio h p k1))
            else Some (uxBasePriority (tcb k h) < prio k (pxCurrentTCB k), k))
      else Some (False, k))"

definition xTaskPriorityDisinherit :: "nat \<Rightarrow> kernel \<Rightarrow> (bool \<times> kernel) option" where
  "xTaskPriorityDisinherit t k =
     (if t \<noteq> 0
      then do {
        configASSERT (t = pxCurrentTCB k);
        configASSERT (uxMutexesHeld (tcb k t) \<noteq> 0);
        let k1 = set_tcb t (uxMutexesHeld_update (\<lambda>m. m - 1)) k;
        if prio k1 t \<noteq> uxBasePriority (tcb k1 t) \<and> uxMutexesHeld (tcb k1 t) = 0
        then do {
          k2 \<leftarrow> list_remove (StateItem t) k1;
          let k3 = set_prio t (uxBasePriority (tcb k2 t)) k2;
          let k4 = set_item_value (EventItem t) (event_value (prio k3 t)) k3;
          Some (True, prvAddTaskToReadyList t k4)
        }
        else Some (False, k1)
      }
      else Some (False, k))"

definition vTaskPriorityDisinheritAfterTimeout :: "nat \<Rightarrow> nat \<Rightarrow> kernel \<Rightarrow> kernel option" where
  "vTaskPriorityDisinheritAfterTimeout t uxHighestPriorityWaitingTask k =
     (if t \<noteq> 0
      then do {
        configASSERT (uxMutexesHeld (tcb k t) \<noteq> 0);
        let uxPriorityToUse =
          (if uxBasePriority (tcb k t) < uxHighestPriorityWaitingTask then uxHighestPriorityWaitingTask
           else uxBasePriority (tcb k t));
        if prio k t \<noteq> uxPriorityToUse \<and> uxMutexesHeld (tcb k t) = 1
        then do {
          configASSERT (t \<noteq> pxCurrentTCB k);
          let uxPriorityUsedOnEntry = prio k t;
          let k1 = set_event_value t uxPriorityToUse (set_prio t uxPriorityToUse k);
          if kcont k1 (StateItem t) = Some (ReadyList uxPriorityUsedOnEntry)
          then map_option (prvAddTaskToReadyList t) (list_remove (StateItem t) k1)
          else Some k1
        }
        else Some k
      }
      else Some k)"

definition pvTaskIncrementMutexHeldCount :: "kernel \<Rightarrow> nat \<times> kernel" where
  "pvTaskIncrementMutexHeldCount k =
     (if pxCurrentTCB k \<noteq> 0
      then (pxCurrentTCB k, set_tcb (pxCurrentTCB k) (uxMutexesHeld_update (\<lambda>m. m + 1)) k)
      else (pxCurrentTCB k, k))"

section \<open>Notifications\<close>

datatype eNotifyAction = eNoAction | eSetBits | eIncrement | eSetValueWithOverwrite | eSetValueWithoutOverwrite

text \<open>Before the wait, and after it.\<close>

definition ulTaskGenericNotifyTake_wait :: "u32 \<Rightarrow> kernel \<Rightarrow> kernel option" where
  "ulTaskGenericNotifyTake_wait xTicksToWait k =
     (let t = pxCurrentTCB k
      in if ulNotifiedValue (tcb k t) = 0
         then (let k1 = set_tcb t (ucNotifyState_update (\<lambda>_. taskWAITING_NOTIFICATION)) k
               in if xTicksToWait > 0
                  then map_option portYIELD (prvAddCurrentTaskToDelayedList xTicksToWait True k1)
                  else Some k1)
         else Some k)"

definition ulTaskGenericNotifyTake_return :: "bool \<Rightarrow> kernel \<Rightarrow> u32 \<times> kernel" where
  "ulTaskGenericNotifyTake_return xClearCountOnExit k =
     (let t = pxCurrentTCB k;
          ulReturn = ulNotifiedValue (tcb k t);
          k1 = (if ulReturn \<noteq> 0
                then set_tcb t (ulNotifiedValue_update (\<lambda>_. if xClearCountOnExit then 0 else ulReturn - 1)) k else k)
      in (ulReturn, set_tcb t (ucNotifyState_update (\<lambda>_. taskNOT_WAITING_NOTIFICATION)) k1))"

definition xTaskGenericNotifyWait_wait :: "u32 \<Rightarrow> u32 \<Rightarrow> kernel \<Rightarrow> kernel option" where
  "xTaskGenericNotifyWait_wait ulBitsToClearOnEntry xTicksToWait k =
     (let t = pxCurrentTCB k
      in if ucNotifyState (tcb k t) \<noteq> taskNOTIFICATION_RECEIVED
         then (let k1 = set_tcb t (ulNotifiedValue_update (\<lambda>v. v AND NOT ulBitsToClearOnEntry)) k;
                   k2 = set_tcb t (ucNotifyState_update (\<lambda>_. taskWAITING_NOTIFICATION)) k1
               in if xTicksToWait > 0
                  then map_option portYIELD (prvAddCurrentTaskToDelayedList xTicksToWait True k2)
                  else Some k2)
         else Some k)"

definition xTaskGenericNotifyWait_return :: "u32 \<Rightarrow> kernel \<Rightarrow> bool \<times> u32 \<times> kernel" where
  "xTaskGenericNotifyWait_return ulBitsToClearOnExit k =
     (let t = pxCurrentTCB k;
          v = ulNotifiedValue (tcb k t);
          r = (ucNotifyState (tcb k t) = taskNOTIFICATION_RECEIVED);
          k1 = (if r then set_tcb t (ulNotifiedValue_update (\<lambda>v. v AND NOT ulBitsToClearOnExit)) k else k)
      in (r, v, set_tcb t (ucNotifyState_update (\<lambda>_. taskNOT_WAITING_NOTIFICATION)) k1))"

text \<open>The value and the state of the notified task, and whether the notification was taken.\<close>

definition notify_update :: "u32 \<Rightarrow> eNotifyAction \<Rightarrow> TCB \<Rightarrow> bool \<times> TCB" where
  "notify_update ulValue eAction c =
     (let c1 = c\<lparr>ucNotifyState := taskNOTIFICATION_RECEIVED\<rparr>
      in case eAction of
           eSetBits \<Rightarrow> (True, c1\<lparr>ulNotifiedValue := ulNotifiedValue c OR ulValue\<rparr>)
         | eIncrement \<Rightarrow> (True, c1\<lparr>ulNotifiedValue := ulNotifiedValue c + 1\<rparr>)
         | eSetValueWithOverwrite \<Rightarrow> (True, c1\<lparr>ulNotifiedValue := ulValue\<rparr>)
         | eSetValueWithoutOverwrite \<Rightarrow>
             (if ucNotifyState c \<noteq> taskNOTIFICATION_RECEIVED then (True, c1\<lparr>ulNotifiedValue := ulValue\<rparr>)
              else (False, c1))
         | eNoAction \<Rightarrow> (True, c1))"

text \<open>The result, the previous value and the kernel.\<close>

definition xTaskGenericNotify :: "nat \<Rightarrow> u32 \<Rightarrow> eNotifyAction \<Rightarrow> kernel \<Rightarrow> (bool \<times> u32 \<times> kernel) option" where
  "xTaskGenericNotify t ulValue eAction k = do {
     configASSERT (t \<noteq> 0);
     let prev = ulNotifiedValue (tcb k t);
     let ucOriginalNotifyState = ucNotifyState (tcb k t);
     let (r, c) = notify_update ulValue eAction (tcb k t);
     let k1 = k\<lparr>tcb := (tcb k)(t := c)\<rparr>;
     if ucOriginalNotifyState = taskWAITING_NOTIFICATION
     then do {
       k2 \<leftarrow> list_remove (StateItem t) k1;
       let k3 = prvAddTaskToReadyList t k2;
       configASSERT (kcont k3 (EventItem t) = None);
       Some (r, prev, if prio k3 t > prio k3 (pxCurrentTCB k3) then portYIELD k3 else k3)
     }
     else Some (r, prev, k1)
   }"

text \<open>From an interrupt; the last boolean is \<open>*pxHigherPriorityTaskWoken\<close> being set.\<close>

definition xTaskGenericNotifyFromISR ::
  "nat \<Rightarrow> u32 \<Rightarrow> eNotifyAction \<Rightarrow> kernel \<Rightarrow> (bool \<times> u32 \<times> bool \<times> kernel) option" where
  "xTaskGenericNotifyFromISR t ulValue eAction k = do {
     configASSERT (t \<noteq> 0);
     let prev = ulNotifiedValue (tcb k t);
     let ucOriginalNotifyState = ucNotifyState (tcb k t);
     let (r, c) = notify_update ulValue eAction (tcb k t);
     let k1 = k\<lparr>tcb := (tcb k)(t := c)\<rparr>;
     if ucOriginalNotifyState = taskWAITING_NOTIFICATION
     then do {
       configASSERT (kcont k1 (EventItem t) = None);
       k2 \<leftarrow> (if uxSchedulerSuspended k1 = 0
             then map_option (prvAddTaskToReadyList t) (list_remove (StateItem t) k1)
             else Some (list_insert_end PendingReadyList (EventItem t) k1));
       let w = (prio k2 t > prio k2 (pxCurrentTCB k2));
       Some (r, prev, w, if w then k2\<lparr>xYieldPending := True\<rparr> else k2)
     }
     else Some (r, prev, False, k1)
   }"

definition vTaskGenericNotifyGiveFromISR :: "nat \<Rightarrow> kernel \<Rightarrow> (bool \<times> kernel) option" where
  "vTaskGenericNotifyGiveFromISR t k = do {
     configASSERT (t \<noteq> 0);
     let ucOriginalNotifyState = ucNotifyState (tcb k t);
     let k1 = set_tcb t (\<lambda>c. c\<lparr>ucNotifyState := taskNOTIFICATION_RECEIVED, ulNotifiedValue := ulNotifiedValue c + 1\<rparr>) k;
     if ucOriginalNotifyState = taskWAITING_NOTIFICATION
     then do {
       configASSERT (kcont k1 (EventItem t) = None);
       k2 \<leftarrow> (if uxSchedulerSuspended k1 = 0
             then map_option (prvAddTaskToReadyList t) (list_remove (StateItem t) k1)
             else Some (list_insert_end PendingReadyList (EventItem t) k1));
       let w = (prio k2 t > prio k2 (pxCurrentTCB k2));
       Some (w, if w then k2\<lparr>xYieldPending := True\<rparr> else k2)
     }
     else Some (False, k1)
   }"

definition xTaskGenericNotifyStateClear :: "nat \<Rightarrow> kernel \<Rightarrow> bool \<times> kernel" where
  "xTaskGenericNotifyStateClear xTask k =
     (let t = prvGetTCBFromHandle xTask k
      in if ucNotifyState (tcb k t) = taskNOTIFICATION_RECEIVED
         then (True, set_tcb t (ucNotifyState_update (\<lambda>_. taskNOT_WAITING_NOTIFICATION)) k)
         else (False, k))"

definition ulTaskGenericNotifyValueClear :: "nat \<Rightarrow> u32 \<Rightarrow> kernel \<Rightarrow> u32 \<times> kernel" where
  "ulTaskGenericNotifyValueClear xTask ulBitsToClear k =
     (let t = prvGetTCBFromHandle xTask k
      in (ulNotifiedValue (tcb k t), set_tcb t (ulNotifiedValue_update (\<lambda>v. v AND NOT ulBitsToClear)) k))"

section \<open>The invariant while one task is being moved\<close>

text \<open>
  The control operations take a task's items off their lists and put them back; in between, the
  scheduler invariant holds for all other tasks.
\<close>

definition kbut :: "nat \<Rightarrow> kernel \<Rightarrow> bool" where
  "kbut t k \<longleftrightarrow> kcore_but t k \<and> ktime k \<and> (uxSchedulerSuspended k = 0 \<longrightarrow> kseq k PendingReadyList = [])"

lemma kinv_kbut: "kinv k \<Longrightarrow> kbut t k"
  using kcore_imp_but by (simp add: kinv_def kbut_def)

lemma kbut_kinv:
  assumes "kbut t k" and "kcont k (EventItem t) = None \<or> blocked_list (kcont k (StateItem t))"
  shows "kinv k"
  using assms unfolding kinv_def kbut_def kcore_def kcore_but_def by (metis option.distinct(1))

lemma event_blocked: "kinv k \<Longrightarrow> kcont k (EventItem t) = None \<or> blocked_list (kcont k (StateItem t))"
  using kcore_D(3) [of k t] by (cases "kcont k (EventItem t)") (auto simp: kinv_def)

lemma kbut_D:
  assumes "kbut t k"
  shows "ls_wf (ls k)" "\<And>u l. kcont k (StateItem u) = Some l \<Longrightarrow> state_place k u l"
    "\<And>u l. kcont k (EventItem u) = Some l \<Longrightarrow> event_place l \<and> (u = t \<or> blocked_list (kcont k (StateItem u)))"
    "pxDelayedTaskList k = DelayedTaskList1 \<and> pxOverflowDelayedTaskList k = DelayedTaskList2 \<or>
     pxDelayedTaskList k = DelayedTaskList2 \<and> pxOverflowDelayedTaskList k = DelayedTaskList1"
    "sorted (map (kval k) (kseq k (pxDelayedTaskList k)))" "sorted (map (kval k) (kseq k (pxOverflowDelayedTaskList k)))"
    "ktime k" "uxSchedulerSuspended k = 0 \<Longrightarrow> kcont k i \<noteq> Some PendingReadyList"
proof -
  show "uxSchedulerSuspended k = 0 \<Longrightarrow> kcont k i \<noteq> Some PendingReadyList"
    using assms ls_wf_D(2) [of "ls k" i PendingReadyList] by (simp add: kbut_def kcore_but_def)
qed (use assms in \<open>simp_all add: kbut_def kcore_but_def\<close>)

text \<open>
  One rule for all changes of one task: its items move, but not onto a delayed list or the pending
  list, and its priority may change.
\<close>

definition same_time :: "kernel \<Rightarrow> kernel \<Rightarrow> bool" where
  "same_time k k' \<longleftrightarrow> pxDelayedTaskList k' = pxDelayedTaskList k \<and> pxOverflowDelayedTaskList k' = pxOverflowDelayedTaskList k \<and>
     xTickCount k' = xTickCount k \<and> xNextTaskUnblockTime k' = xNextTaskUnblockTime k \<and>
     uxSchedulerSuspended k' = uxSchedulerSuspended k \<and> uxTopReadyPriority k \<le> uxTopReadyPriority k'"

lemma state_place_mono:
  assumes "state_place k t l" and "prio k' t = prio k t \<and> uxTopReadyPriority k \<le> uxTopReadyPriority k' \<or> (\<forall>p. l \<noteq> ReadyList p)"
  shows "state_place k' t l"
  using assms by (auto simp: state_place_def split: list_id.splits)

lemma kbut_change:
  assumes k: "kbut t k" and wf: "ls_wf (ls k')" and tm: "same_time k k'"
    and prio: "\<And>u. u \<noteq> t \<Longrightarrow> prio k' u = prio k u"
    and other: "\<And>u. u \<noteq> t \<Longrightarrow> kcont k' (StateItem u) = kcont k (StateItem u) \<and> kcont k' (EventItem u) = kcont k (EventItem u)"
    and st: "\<And>l. kcont k' (StateItem t) = Some l \<Longrightarrow> state_place k' t l \<and> (delayed k' t \<longrightarrow> kcont k (StateItem t) = Some l)"
    and ev: "kcont k' (EventItem t) = kcont k (EventItem t) \<or> kcont k' (EventItem t) = None \<or>
      (\<exists>l. kcont k' (EventItem t) = Some l \<and> event_place l \<and> (l = PendingReadyList \<longrightarrow> uxSchedulerSuspended k \<noteq> 0))"
    and sorted: "sorted (map (kval k) (kseq k' (pxDelayedTaskList k)))" "sorted (map (kval k) (kseq k' (pxOverflowDelayedTaskList k)))"
    and iv: "\<And>u. kval k' (StateItem u) = kval k (StateItem u)"
  shows "kbut t k'"
proof -
  note D = kbut_D [OF k] and F = tm [unfolded same_time_def]
  have "state_place k' u l" if u: "kcont k' (StateItem u) = Some l" for u l
    using that other [of u] st D(2) [of u l] prio [of u] F by (cases "u = t") (auto simp: state_place_def split: list_id.splits)
  moreover have e: "event_place l \<and> (u = t \<or> blocked_list (kcont k' (StateItem u)))" if "kcont k' (EventItem u) = Some l" for u l
    using that other [of u] ev D(3) [of u l] by (cases "u = t") auto
  moreover have srt: "sorted (map (kval k') (kseq k' l))" if "l = pxDelayedTaskList k \<or> l = pxOverflowDelayedTaskList k" for l
  proof -
    have eq: "map (kval k') (kseq k' l) = map (kval k) (kseq k' l)"
    proof (rule map_cong [OF refl])
      fix i assume "i \<in> set (kseq k' l)"
      then have "kcont k' i = Some l" using ls_wf_D(2) [OF wf] by blast
      then have "\<exists>u. i = StateItem u" using e [of "owner i" l] that D(4) by (cases i) (auto simp: event_place_def)
      then show "kval k' i = kval k i" using iv by blast
    qed
    show ?thesis unfolding eq using sorted that by blast
  qed
  ultimately have "kcore_but t k'" using wf D(4) srt F unfolding kcore_but_def by simp
  moreover have "kcont k (StateItem u) = Some l"
    if "kcont k' (StateItem u) = Some l" "l = pxDelayedTaskList k \<or> l = pxOverflowDelayedTaskList k" for u l
    using that st other [of u] D(4) F by (cases "u = t") (auto simp: delayed_def)
  then have "ktime k'" using D(7) iv F unfolding ktime_def by metis
  moreover have "kseq k' PendingReadyList = []" if run: "uxSchedulerSuspended k = 0"
  proof -
    have "kcont k' i \<noteq> Some PendingReadyList" for i
      using D(8) [OF run, of i] other [of "owner i"] st [of PendingReadyList] ev run
      by (cases i; cases "owner i = t") (auto simp: state_place_def)
    then show ?thesis using ls_wf_D(2) [OF wf] by (metis last_in_set)
  qed
  ultimately show ?thesis using F by (simp add: kbut_def)
qed

text \<open>The steps of the control operations.\<close>

lemma kbut_remove_state:
  assumes k: "kbut t k" and c: "kcont k (StateItem t) = Some l"
  shows "\<exists>k'. list_remove (StateItem t) k = Some k' \<and> kbut t k' \<and> kcont k' = (kcont k)(StateItem t := None) \<and>
    kval k' = kval k \<and> (\<exists>s. k' = k\<lparr>ls := s\<rparr>)"
proof -
  note D = kbut_D [OF k]
  obtain s where s: "list_remove (StateItem t) k = Some (k\<lparr>ls := s\<rparr>)" "ls_wf s"
      "seq s = (kseq k)(l := remove1 (StateItem t) (kseq k l))" "cont s = (kcont k)(StateItem t := None)" "ival s = kval k"
    using list_remove_Some [OF D(1) c] by blast
  have "sorted (map (kval k) (seq s l'))" if "sorted (map (kval k) (kseq k l'))" for l'
    using that by (auto simp: s(3) intro: sorted_map_remove1)
  then have "kbut t (k\<lparr>ls := s\<rparr>)" using D(5,6) s by (intro kbut_change [OF k]) (auto simp: same_time_def)
  then show ?thesis using s by auto
qed

lemma kbut_remove_event:
  assumes k: "kbut t k"
  shows "\<exists>k'. remove_event_item t k = Some k' \<and> kbut t k' \<and> kcont k' = (kcont k)(EventItem t := None) \<and>
    kval k' = kval k \<and> (\<exists>s. k' = k\<lparr>ls := s\<rparr>)"
proof -
  note D = kbut_D [OF k]
  obtain s where s: "remove_event_item t k = Some (k\<lparr>ls := s\<rparr>)" "ls_wf s"
      "\<forall>l. seq s l = remove1 (EventItem t) (kseq k l)" "cont s = (kcont k)(EventItem t := None)" "ival s = kval k"
    using remove_event_item_Some [OF D(1)] by blast
  have "sorted (map (kval k) (seq s l'))" if "sorted (map (kval k) (kseq k l'))" for l'
    using that by (auto simp: s(3) intro: sorted_map_remove1)
  then have "kbut t (k\<lparr>ls := s\<rparr>)" using D(5,6) s
    by (intro kbut_change [OF k]) (auto simp: same_time_def intro: state_place_mono [OF D(2)])
  then show ?thesis using s by auto
qed

lemma kbut_append:
  assumes k: "kbut t k" and c: "kcont k (StateItem t) = None" and l: "state_place k t l" "l \<noteq> DelayedTaskList1" "l \<noteq> DelayedTaskList2"
  shows "kbut t (list_insert_end l (StateItem t) k)"
  using kbut_D [OF k] ls_wf_insert_end [OF kbut_D(1) [OF k] c, of l] l
  by (intro kbut_change [OF k]) (auto simp: same_time_def list_insert_end_def delayed_def state_place_def split: list_id.splits)

lemma kbut_add_ready:
  assumes k: "kbut t k" and c: "kcont k (StateItem t) = None"
  shows "kbut t (prvAddTaskToReadyList t k)"
  using kbut_D [OF k] ls_wf_insert_end [OF kbut_D(1) [OF k] c, of "ReadyList (prio k t)"]
  unfolding prvAddTaskToReadyList_eq
  by (intro kbut_change [OF k]) (auto simp: same_time_def delayed_def state_place_def)

text \<open>The task control block and the event value of a task that is on no ready list.\<close>

lemma kbut_tcb:
  assumes k: "kbut t k" and r: "uxPriority (f (tcb k t)) = prio k t \<or> (\<forall>p. kcont k (StateItem t) \<noteq> Some (ReadyList p))"
  shows "kbut t (set_tcb t f k)"
  using kbut_D(1,5,6) [OF k] r
  by (intro kbut_change [OF k]) (auto simp: same_time_def intro: state_place_mono [OF kbut_D(2) [OF k]])

lemma kbut_event_value:
  assumes k: "kbut t k"
  shows "kbut t (set_item_value (EventItem t) v k)"
  using kbut_D(1,5,6) [OF k]
  by (intro kbut_change [OF k]) (auto simp: same_time_def set_item_value_def intro: state_place_mono [OF kbut_D(2) [OF k]])

section \<open>Changing the priority of a task\<close>

text \<open>What the operations on one task leave alone.\<close>

definition only_task :: "nat \<Rightarrow> kernel \<Rightarrow> kernel \<Rightarrow> bool" where
  "only_task t k k' \<longleftrightarrow> (\<forall>u. u \<noteq> t \<longrightarrow> tcb k' u = tcb k u) \<and> (\<forall>i. owner i \<noteq> t \<longrightarrow> kcont k' i = kcont k i) \<and>
     (\<forall>u. u \<noteq> t \<longrightarrow> kval k' (StateItem u) = kval k (StateItem u)) \<and> pxCurrentTCB k' = pxCurrentTCB k \<and> xTickCount k' = xTickCount k \<and>
     uxSchedulerSuspended k' = uxSchedulerSuspended k \<and> xPendedTicks k' = xPendedTicks k \<and>
     uxCurrentNumberOfTasks k' = uxCurrentNumberOfTasks k"

lemma bind_Some_map: "Option.bind x (\<lambda>y. Some (g y)) = map_option g x"
  by (cases x) simp_all

lemma list_remove_set_tcb: "list_remove i (set_tcb t f k) = map_option (set_tcb t f) (list_remove i k)"
  by (auto simp: list_remove_def option.map_comp fun_eq_iff intro!: option.map_cong)

lemma list_remove_tcb: "list_remove i k = Some k' \<Longrightarrow> tcb k' = tcb k"
  by (auto simp: list_remove_def)

lemma ready_iff:
  "kinv k \<Longrightarrow> kcont k (StateItem t) = Some (ReadyList p) \<longleftrightarrow> ready k t \<and> p = prio k t"
  using kcore_D(2) [of k t "ReadyList p"] by (auto simp: kinv_def ready_def state_place_def)

text \<open>The task control block of a task is replaced and a ready task is moved to the list of its priority.\<close>

definition reprioritise :: "nat \<Rightarrow> (TCB \<Rightarrow> TCB) \<Rightarrow> kernel \<Rightarrow> kernel option" where
  "reprioritise t f k =
     (if ready k t then map_option (\<lambda>k1. prvAddTaskToReadyList t (set_tcb t f k1)) (list_remove (StateItem t) k)
      else Some (set_tcb t f k))"

definition reprioritised :: "nat \<Rightarrow> TCB \<Rightarrow> kernel \<Rightarrow> kernel \<Rightarrow> bool" where
  "reprioritised t c k k' \<longleftrightarrow> kinv k' \<and> only_task t k k' \<and> tcb k' t = c \<and> kcont k' (EventItem t) = kcont k (EventItem t) \<and>
     kcont k' (StateItem t) = (if ready k t then Some (ReadyList (uxPriority c)) else kcont k (StateItem t)) \<and>
     (\<forall>l. kseq k' (EventList l) = kseq k (EventList l))"

text \<open>Moving a task to its ready list does not touch the event lists.\<close>

lemma relist_ready_events:
  assumes "list_remove (StateItem t) k = Some k1" and "kcont k (StateItem t) \<noteq> Some (EventList l)"
  shows "kseq (prvAddTaskToReadyList t k1) (EventList l) = kseq k (EventList l)" and "kseq k1 (EventList l) = kseq k (EventList l)"
  using assms by (auto simp: prvAddTaskToReadyList_eq list_remove_def ls_remove_def split: option.splits)

lemma reprioritise_spec:
  assumes inv: "kinv k"
  shows "\<exists>k'. reprioritise t f k = Some k' \<and> reprioritised t (f (tcb k t)) k k'"
proof (cases "ready k t")
  case True
  note but = kinv_kbut [OF inv, of t]
  obtain k1 s where k1: "list_remove (StateItem t) k = Some k1" "kbut t k1" "kcont k1 = (kcont k)(StateItem t := None)"
      "kval k1 = kval k" "k1 = k\<lparr>ls := s\<rparr>"
    using kbut_remove_state [OF but True [unfolded ready_def]] by blast
  let ?k' = "prvAddTaskToReadyList t (set_tcb t f k1)"
  have "kbut t (set_tcb t f k1)" by (rule kbut_tcb [OF k1(2)]) (simp add: k1(3))
  then have "kbut t ?k'" by (rule kbut_add_ready) (simp add: k1(3))
  moreover have ev: "kcont k (EventItem t) = None"
    using event_blocked [OF inv, of t] True by (simp add: ready_def blocked_list_def)
  ultimately have "kinv ?k'" using k1(3) by (intro kbut_kinv) (auto simp: prvAddTaskToReadyList_eq)
  moreover have "kseq ?k' (EventList l) = kseq k (EventList l)" for l
    using relist_ready_events(2) [OF k1(1), of l] True by (simp add: ready_def prvAddTaskToReadyList_eq)
  ultimately have "reprioritised t (f (tcb k t)) k ?k'"
    using True k1(3,4) ev by (auto simp: reprioritised_def only_task_def prvAddTaskToReadyList_eq k1(5))
  then show ?thesis using True k1(1) by (simp add: reprioritise_def)
next
  case False
  let ?k' = "set_tcb t f k"
  have "\<forall>p. kcont k (StateItem t) \<noteq> Some (ReadyList p)" using False ready_iff [OF inv] by blast
  then have "kbut t ?k'" by (intro kbut_tcb [OF kinv_kbut [OF inv]]) blast
  then have "kinv ?k'" by (rule kbut_kinv) (use event_blocked [OF inv, of t] in simp)
  then show ?thesis using False by (simp add: reprioritise_def reprioritised_def only_task_def)
qed

lemma kinv_item_value:
  assumes "kinv k"
  shows "kinv (set_item_value (EventItem t) v k)"
  by (rule kbut_kinv [OF kbut_event_value [OF kinv_kbut [OF assms]]])
    (use event_blocked [OF assms, of t] in \<open>simp add: set_item_value_def\<close>)

lemma kinv_event_value: "kinv k \<Longrightarrow> kinv (set_event_value t p k)"
  by (simp add: set_event_value_def kinv_item_value)

lemma list_remove_item_value: "list_remove i (set_item_value j v k) = map_option (set_item_value j v) (list_remove i k)"
  by (simp add: list_remove_def set_item_value_def ls_remove_def ls_set_value_def split: option.splits)

lemma event_value_fields [simp]:
  "tcb (set_event_value t p k) = tcb k" "kcont (set_event_value t p k) = kcont k" "kseq (set_event_value t p k) = kseq k"
  "pxCurrentTCB (set_event_value t p k) = pxCurrentTCB k"
  "ready (set_event_value t p k) u = ready k u"
  "only_task t (set_event_value t p k) k' = only_task t k k'"
  "reprioritised t c (set_event_value t p k) k' = reprioritised t c k k'"
  "set_event_value t p (k\<lparr>tcb := x\<rparr>) = (set_event_value t p k)\<lparr>tcb := x\<rparr>"
  by (simp_all add: set_event_value_def set_item_value_def ready_def only_task_def reprioritised_def)

lemma xTaskPriorityInherit_reprioritise:
  assumes "kinv k" and "h \<noteq> 0" and "prio k h < prio k (pxCurrentTCB k)"
  shows "xTaskPriorityInherit h k = map_option (Pair True)
    (reprioritise h (uxPriority_update (\<lambda>_. prio k (pxCurrentTCB k))) (set_event_value h (prio k (pxCurrentTCB k)) k))"
  using assms by (simp add: xTaskPriorityInherit_def reprioritise_def set_prio_def ready_def [of k] Let_def option.map_comp comp_def)

lemma set_item_value_tcb: "set_item_value i v (set_tcb t f k) = set_tcb t f (set_item_value i v k)"
  by (simp add: set_item_value_def)

lemma item_value_fields [simp]:
  "tcb (set_item_value i v k) = tcb k" "kcont (set_item_value i v k) = kcont k" "kseq (set_item_value i v k) = kseq k"
  "pxCurrentTCB (set_item_value i v k) = pxCurrentTCB k" "ready (set_item_value i v k) u = ready k u"
  "reprioritised t c (set_item_value (EventItem t) v k) k' = reprioritised t c k k'"
  by (simp_all add: set_item_value_def ready_def only_task_def reprioritised_def)

lemma disinherit_reprioritise:
  assumes "kinv k" and "ready k t"
  shows "Option.bind (list_remove (StateItem t) k) (\<lambda>k2. Some (r, prvAddTaskToReadyList t
      (set_item_value (EventItem t) v (set_prio t (uxBasePriority (tcb k2 t)) k2)))) =
    map_option (Pair r) (reprioritise t (\<lambda>c. c\<lparr>uxPriority := uxBasePriority c\<rparr>) (set_item_value (EventItem t) v k))"
  using assms
  by (cases "list_remove (StateItem t) k")
    (simp_all add: reprioritise_def list_remove_item_value set_prio_def set_item_value_tcb)

text \<open>A task whose control block was already replaced.\<close>

lemma relist_reprioritise:
  "(if kcont k (StateItem t) = Some (ReadyList (prio k t))
      then map_option (prvAddTaskToReadyList t) (list_remove (StateItem t) (set_tcb t f k)) else Some (set_tcb t f k)) = reprioritise t f k"
  by (simp add: reprioritise_def ready_def list_remove_set_tcb option.map_comp comp_def)

section \<open>Suspending and resuming\<close>

lemma kinv_reset: "kinv k \<Longrightarrow> kinv (prvResetNextTaskUnblockTime k)"
  using kinv_reset_next [of k] by (simp add: kinv_def prvResetNextTaskUnblockTime_def)

text \<open>Taking both items of a task off their lists.\<close>

lemma unlist_Some:
  assumes inv: "kinv k" and c: "kcont k (StateItem t) \<noteq> None"
  shows "\<exists>k1 k2. list_remove (StateItem t) k = Some k1 \<and> remove_event_item t k1 = Some k2 \<and> kbut t k2 \<and>
    kcont k2 = (kcont k)(StateItem t := None, EventItem t := None) \<and> kval k2 = kval k \<and> (\<exists>s. k2 = k\<lparr>ls := s\<rparr>)"
proof -
  obtain l where l: "kcont k (StateItem t) = Some l" using c by blast
  obtain k1 s1 where k1: "list_remove (StateItem t) k = Some k1" "kbut t k1" "kcont k1 = (kcont k)(StateItem t := None)"
      "kval k1 = kval k" "k1 = k\<lparr>ls := s1\<rparr>"
    using kbut_remove_state [OF kinv_kbut [OF inv] l] by blast
  obtain k2 s2 where k2: "remove_event_item t k1 = Some k2" "kbut t k2" "kcont k2 = (kcont k1)(EventItem t := None)"
      "kval k2 = kval k1" "k2 = k1\<lparr>ls := s2\<rparr>"
    using kbut_remove_event [OF k1(2)] by blast
  have "k2 = k\<lparr>ls := s2\<rparr>" using k2(5) k1(5) by simp
  then show ?thesis using k1 k2 by (metis (no_types))
qed

lemma vTaskSuspend_spec:
  assumes inv: "kinv k" and c: "kcont k (StateItem t) \<noteq> None" and h: "prvGetTCBFromHandle h k = t"
    and run: "xSchedulerRunning k" "uxSchedulerSuspended k = 0"
  shows "\<exists>k'. vTaskSuspend h k = Some k' \<and> kinv k' \<and> only_task t k k' \<and> suspended k' t \<and>
    (swi_pending k' \<longleftrightarrow> swi_pending k \<or> t = pxCurrentTCB k)"
proof -
  obtain k1 k2 s where k2: "list_remove (StateItem t) k = Some k1" "remove_event_item t k1 = Some k2" "kbut t k2"
      "kcont k2 = (kcont k)(StateItem t := None, EventItem t := None)" "kval k2 = kval k" "k2 = k\<lparr>ls := s\<rparr>"
    using unlist_Some [OF inv c] by blast
  define k3 where "k3 = list_insert_end SuspendedTaskList (StateItem t) k2"
  define k4 where "k4 = (if ucNotifyState (tcb k3 t) = taskWAITING_NOTIFICATION
               then set_tcb t (ucNotifyState_update (\<lambda>_. taskNOT_WAITING_NOTIFICATION)) k3 else k3)"
  have b3: "kbut t k3" unfolding k3_def by (rule kbut_append [OF k2(3)]) (simp_all add: k2(4) state_place_def)
  have "kbut t (set_tcb t (ucNotifyState_update (\<lambda>_. taskNOT_WAITING_NOTIFICATION)) k3)" by (rule kbut_tcb [OF b3]) simp
  then have "kbut t k4" using b3 by (simp add: k4_def)
  moreover have c4: "kcont k4 = (kcont k)(StateItem t := Some SuspendedTaskList, EventItem t := None)"
    by (auto simp: k4_def k3_def list_insert_end_def k2(4))
  ultimately have "kinv k4" using kbut_kinv [of t k4] by simp
  then have i5: "kinv (prvResetNextTaskUnblockTime k4)" by (rule kinv_reset)
  have f: "xSchedulerRunning k4" "uxSchedulerSuspended k4 = 0" "pxCurrentTCB k4 = pxCurrentTCB k" "swi_pending k4 = swi_pending k"
    using run by (simp_all add: k4_def k3_def list_insert_end_def k2(6))
  have o: "only_task t k k4" using c4 k2(5) by (auto simp: only_task_def) (auto simp: k4_def k3_def list_insert_end_def k2(6))
  let ?k5 = "prvResetNextTaskUnblockTime k4"
  have "vTaskSuspend h k = (let k5 = (if xSchedulerRunning k4 then ?k5 else k4)
    in if t = pxCurrentTCB k5
       then (if xSchedulerRunning k5
             then Option.bind (configASSERT (uxSchedulerSuspended k5 = 0)) (\<lambda>_. Some (portYIELD k5))
             else if of_nat (length (kseq k5 SuspendedTaskList)) = uxCurrentNumberOfTasks k5
             then Some (k5\<lparr>pxCurrentTCB := 0\<rparr>)
             else vTaskSwitchContext k5)
       else Some k5)"
    by (simp only: vTaskSuspend_def k4_def k3_def Let_def h k2(1,2) bind.bind_lunit)
  then have "vTaskSuspend h k = (if t = pxCurrentTCB k then Some (portYIELD ?k5) else Some ?k5)"
    using f by (simp add: configASSERT_def prvResetNextTaskUnblockTime_def)
  moreover have "suspended ?k5 t" "only_task t k ?k5" "swi_pending ?k5 = swi_pending k"
    using o c4 f(4) by (simp_all add: suspended_def only_task_def prvResetNextTaskUnblockTime_def)
  moreover have "only_task t k (portYIELD ?k5) = only_task t k ?k5" "suspended (portYIELD ?k5) t = suspended ?k5 t" "swi_pending (portYIELD ?k5)"
    "kinv (portYIELD ?k5) = kinv ?k5"
    by (simp_all add: only_task_def suspended_def portYIELD_def)
  ultimately show ?thesis using i5 by (cases "t = pxCurrentTCB k") simp_all
qed

text \<open>Making a task ready that is on no event list.\<close>

lemma make_ready:
  assumes inv: "kinv k" and c: "kcont k (StateItem t) \<noteq> None" and e: "kcont k (EventItem t) = None"
  shows "\<exists>k1 k2. list_remove (StateItem t) k = Some k1 \<and> k2 = prvAddTaskToReadyList t k1 \<and> kinv k2 \<and> only_task t k k2 \<and> ready k2 t \<and>
    kcont k2 (EventItem t) = None \<and> (\<exists>s m. k2 = k\<lparr>ls := s, uxTopReadyPriority := m\<rparr>)"
proof -
  obtain k1 s where k1: "list_remove (StateItem t) k = Some k1" "kbut t k1" "kcont k1 = (kcont k)(StateItem t := None)"
      "kval k1 = kval k" "k1 = k\<lparr>ls := s\<rparr>"
    using kbut_remove_state [OF kinv_kbut [OF inv]] c by blast
  let ?k2 = "prvAddTaskToReadyList t k1"
  have "kbut t ?k2" by (rule kbut_add_ready [OF k1(2)]) (simp add: k1(3))
  then have "kinv ?k2" by (rule kbut_kinv) (simp add: prvAddTaskToReadyList_eq k1(3) e)
  moreover have "only_task t k ?k2" "ready ?k2 t" "kcont ?k2 (EventItem t) = None"
    using k1(4) by (auto simp: only_task_def prvAddTaskToReadyList_eq ready_def k1(3) e) (auto simp: k1(5))
  moreover have "\<exists>s m. ?k2 = k\<lparr>ls := s, uxTopReadyPriority := m\<rparr>" unfolding prvAddTaskToReadyList_eq k1(5) by auto
  ultimately show ?thesis using k1(1) by blast
qed

lemma sched_ok_only_task:
  assumes ok: "sched_ok idle k" and inv: "kinv k'" and o: "only_task t k k'" and t: "t \<noteq> idle \<or> ready k' idle"
    and cur: "t = pxCurrentTCB k \<Longrightarrow> swi_pending k' \<or> ready k' t" and sw: "swi_pending k \<Longrightarrow> swi_pending k'"
  shows "sched_ok idle k'"
proof -
  have r: "ready k' u = ready k u" if "u \<noteq> t" for u using o that by (simp add: only_task_def ready_def)
  show ?thesis using assms r [of idle] r [of "pxCurrentTCB k"] by (auto simp: sched_ok_def only_task_def)
qed

lemma krun_suspended:
  assumes "sched_ok idle k" and "suspended k t"
  shows "\<exists>k'. krun idle es k = Some k' \<and> sched_ok idle k' \<and> suspended k' t"
  using assms
proof (induction es arbitrary: k)
  case (Cons e es)
  obtain k' where k': "kstep idle e k = Some k'" "sched_ok idle k'" "stepped e k k'" using kstep_stepped [OF Cons.prems(1)] by blast
  then have "suspended k' t" using Cons.prems(2) by (simp add: stepped_def)
  then show ?case using Cons.IH k' by simp
qed simp

lemma vTaskResume_ready:
  assumes ok: "sched_ok idle k" and sp: "suspended k t" and t: "t \<noteq> 0" "t \<noteq> pxCurrentTCB k"
  shows "\<exists>k'. vTaskResume t k = Some k' \<and> sched_ok idle k' \<and> ready k' t \<and> only_task t k k' \<and>
    (prio k (pxCurrentTCB k) \<le> prio k t \<longrightarrow> swi_pending k')"
proof -
  have inv: "kinv k" using ok by (simp add: sched_ok_def)
  obtain k1 k2 s m where k2: "list_remove (StateItem t) k = Some k1" "k2 = prvAddTaskToReadyList t k1" "kinv k2" "only_task t k k2"
      "ready k2 t" "k2 = k\<lparr>ls := s, uxTopReadyPriority := m\<rparr>"
    using make_ready [OF inv, of t] sp by (auto simp: suspended_def)
  let ?k' = "if prio k (pxCurrentTCB k) \<le> prio k t then portYIELD k2 else k2"
  have p: "prio k2 u = prio k u" "pxCurrentTCB k2 = pxCurrentTCB k" "swi_pending k2 = swi_pending k" for u by (simp_all add: k2(6))
  have "vTaskResume t k = Some ?k'"
    using t sp k2(1) p unfolding k2(2) by (simp add: vTaskResume_def configASSERT_def prvTaskIsTaskSuspended_def suspended_def Let_def)
  moreover have y: "kinv ?k'" "only_task t k ?k'" "ready ?k' t" "swi_pending k \<Longrightarrow> swi_pending ?k'"
    using k2(3-5) p by (simp_all add: only_task_def ready_def portYIELD_def)
  moreover have "sched_ok idle ?k'"
    by (rule sched_ok_only_task [OF ok y(1,2)]) (use y t in auto)
  ultimately show ?thesis by (simp add: portYIELD_def)
qed

section \<open>Blocking the running task\<close>

definition blocked_current :: "u32 \<Rightarrow> bool \<Rightarrow> kernel \<Rightarrow> kernel \<Rightarrow> bool" where
  "blocked_current n indef k k' \<longleftrightarrow> kinv k' \<and>
     kcont k' = (kcont k)(StateItem (pxCurrentTCB k) := Some (block_list n indef k)) \<and>
     (block_list n indef k \<noteq> SuspendedTaskList \<longrightarrow> kval k' (StateItem (pxCurrentTCB k)) = xTickCount k + n) \<and>
     (\<forall>i. i \<noteq> StateItem (pxCurrentTCB k) \<longrightarrow> kval k' i = kval k i) \<and>
     (\<exists>s nx. k' = (set_tcb (pxCurrentTCB k) (ucDelayAborted_update (\<lambda>_. False)) k)\<lparr>ls := s, xNextTaskUnblockTime := nx\<rparr>)"

lemma block_list_cases:
  assumes "kbut c k"
  shows "block_list n indef k = SuspendedTaskList \<or> block_list n indef k = DelayedTaskList1 \<or> block_list n indef k = DelayedTaskList2"
  using kbut_D(4) [OF assms] by (auto simp: block_list_def)

lemma block_current:
  assumes but: "kbut (pxCurrentTCB k) k" and rd: "ready k (pxCurrentTCB k)" and n: "n \<noteq> 0"
  shows "\<exists>k'. prvAddCurrentTaskToDelayedList n indef k = Some k' \<and> blocked_current n indef k k'"
proof -
  have core: "kcore_but (pxCurrentTCB k) k" and tm: "ktime k" using but by (simp_all add: kbut_def)
  obtain k' s nx where k': "prvAddCurrentTaskToDelayedList n indef k = Some k'" "kcore k'" "ktime k'"
      "kcont k' = (kcont k)(StateItem (pxCurrentTCB k) := Some (block_list n indef k))"
      "block_list n indef k \<noteq> SuspendedTaskList \<longrightarrow> kval k' (StateItem (pxCurrentTCB k)) = xTickCount k + n"
      "\<forall>i. i \<noteq> StateItem (pxCurrentTCB k) \<longrightarrow> kval k' i = kval k i"
      "k' = (set_tcb (pxCurrentTCB k) (ucDelayAborted_update (\<lambda>_. False)) k)\<lparr>ls := s, xNextTaskUnblockTime := nx\<rparr>"
    using prvAddCurrentTaskToDelayedList_spec [OF core tm refl rd [unfolded ready_def] n, of indef] by blast
  have "kseq k' PendingReadyList = []" if "uxSchedulerSuspended k = 0"
  proof -
    have "kcont k' i \<noteq> Some PendingReadyList" for i
      using kbut_D(8) [OF but that, of i] block_list_cases [OF but, of n indef] by (auto simp: k'(4))
    then show ?thesis using kseq_iff [OF k'(2)] by (metis last_in_set)
  qed
  then have "kinv k'" using k'(2,3) by (simp add: kinv_def) (simp add: k'(7))
  then show ?thesis using k' by (auto simp: blocked_current_def)
qed

text \<open>What a caller sees of the other tasks, and of itself.\<close>

lemma blocked_current_D:
  assumes "blocked_current n indef k k'"
  shows "kinv k'" "only_task (pxCurrentTCB k) k k'" "kcont k' (EventItem t) = kcont k (EventItem t)"
    "tcb k' (pxCurrentTCB k) = (tcb k (pxCurrentTCB k))\<lparr>ucDelayAborted := False\<rparr>"
    "kcont k' (StateItem (pxCurrentTCB k)) = Some (block_list n indef k)" "swi_pending k' = swi_pending k"
    "xSchedulerRunning k' = xSchedulerRunning k"
proof -
  obtain s nx where e: "k' = (set_tcb (pxCurrentTCB k) (ucDelayAborted_update (\<lambda>_. False)) k)\<lparr>ls := s, xNextTaskUnblockTime := nx\<rparr>"
    using assms unfolding blocked_current_def by blast
  have c: "kcont k' i = kcont k i" if "i \<noteq> StateItem (pxCurrentTCB k)" for i using assms that by (simp add: blocked_current_def)
  then show "kcont k' (EventItem t) = kcont k (EventItem t)" by simp
  have v: "kval k' (StateItem u) = kval k (StateItem u)" if "u \<noteq> pxCurrentTCB k" for u
    using assms that by (simp add: blocked_current_def)
  show "kinv k'" "kcont k' (StateItem (pxCurrentTCB k)) = Some (block_list n indef k)"
    using assms by (simp_all add: blocked_current_def)
  have "kcont k' i = kcont k i" if "owner i \<noteq> pxCurrentTCB k" for i using c [of i] that by (cases i) auto
  then show "only_task (pxCurrentTCB k) k k'" using v by (simp add: only_task_def) (simp add: e)
qed (use assms in \<open>auto simp: blocked_current_def\<close>)

section \<open>Notifications\<close>

lemma notify_update_fields:
  "uxPriority (snd (notify_update v a c)) = uxPriority c" "uxBasePriority (snd (notify_update v a c)) = uxBasePriority c"
  "ucNotifyState (snd (notify_update v a c)) = taskNOTIFICATION_RECEIVED"
  by (simp_all add: notify_update_def Let_def split: eNotifyAction.split)

lemma kinv_tcb:
  assumes "kinv k" and "uxPriority c = prio k t"
  shows "kinv (k\<lparr>tcb := (tcb k)(t := c)\<rparr>)"
proof -
  have "kbut t (set_tcb t (\<lambda>_. c) k)" by (rule kbut_tcb [OF kinv_kbut [OF assms(1)]]) (simp add: assms(2))
  then show ?thesis using kbut_kinv event_blocked [OF assms(1), of t] by simp
qed

text \<open>
  What a notification does, from a task and from an interrupt: the notified task has the new value
  and, if it waited, is ready, or, while the scheduler is suspended, held on the pending-ready list.
\<close>

definition notified :: "nat \<Rightarrow> TCB \<Rightarrow> kernel \<Rightarrow> kernel \<Rightarrow> bool" where
  "notified t c k k' \<longleftrightarrow> kinv k' \<and> only_task t k k' \<and> tcb k' t = c \<and>
     (if ucNotifyState (tcb k t) = taskWAITING_NOTIFICATION
      then ready k' t \<or> uxSchedulerSuspended k \<noteq> 0 \<and> kcont k' (EventItem t) = Some PendingReadyList
      else \<forall>i. kcont k' i = kcont k i)"

lemma notified_cong [simp]:
  "notified t c k (portYIELD k') = notified t c k k'" "notified t c k (k'\<lparr>xYieldPending := b\<rparr>) = notified t c k k'"
  by (simp_all add: notified_def only_task_def ready_def portYIELD_def)

lemma notify_makes_ready:
  assumes inv: "kinv k" and w: "ucNotifyState (tcb k t) = taskWAITING_NOTIFICATION"
    and wt: "kcont k (StateItem t) \<noteq> None" "kcont k (EventItem t) = None" and c: "uxPriority c = prio k t"
  shows "\<exists>k1 k2. list_remove (StateItem t) (k\<lparr>tcb := (tcb k)(t := c)\<rparr>) = Some k1 \<and> k2 = prvAddTaskToReadyList t k1 \<and>
    notified t c k k2 \<and> ready k2 t \<and> kcont k2 (EventItem t) = None \<and> pxCurrentTCB k2 = pxCurrentTCB k \<and> swi_pending k2 = swi_pending k"
proof -
  let ?k = "k\<lparr>tcb := (tcb k)(t := c)\<rparr>"
  obtain k1 k2 s m where k2: "list_remove (StateItem t) ?k = Some k1" "k2 = prvAddTaskToReadyList t k1" "kinv k2" "only_task t ?k k2"
      "ready k2 t" "kcont k2 (EventItem t) = None" "k2 = ?k\<lparr>ls := s, uxTopReadyPriority := m\<rparr>"
    using make_ready [OF kinv_tcb [OF inv c], of t] wt by auto
  have "only_task t k k2" using k2(4) by (simp add: only_task_def)
  moreover have "tcb k2 t = c" "pxCurrentTCB k2 = pxCurrentTCB k" "swi_pending k2 = swi_pending k" by (simp_all add: k2(7))
  ultimately show ?thesis using k2 w by (simp add: notified_def)
qed

lemma xTaskGenericNotify_notified:
  assumes inv: "kinv k" and t: "t \<noteq> 0"
    and wt: "ucNotifyState (tcb k t) = taskWAITING_NOTIFICATION \<Longrightarrow> kcont k (StateItem t) \<noteq> None \<and> kcont k (EventItem t) = None"
  shows "\<exists>k'. xTaskGenericNotify t v a k = Some (fst (notify_update v a (tcb k t)), ulNotifiedValue (tcb k t), k') \<and>
    notified t (snd (notify_update v a (tcb k t))) k k' \<and>
    (ucNotifyState (tcb k t) = taskWAITING_NOTIFICATION \<longrightarrow> ready k' t \<and> (prio k (pxCurrentTCB k) < prio k t \<longrightarrow> swi_pending k')) \<and>
    (swi_pending k \<longrightarrow> swi_pending k')"
proof -
  obtain r c where rc: "notify_update v a (tcb k t) = (r, c)" by fastforce
  have p: "uxPriority c = prio k t" using notify_update_fields(1) [of v a "tcb k t"] rc by simp
  show ?thesis
  proof (cases "ucNotifyState (tcb k t) = taskWAITING_NOTIFICATION")
    case True
    obtain k1 k2 where k2: "list_remove (StateItem t) (k\<lparr>tcb := (tcb k)(t := c)\<rparr>) = Some k1" "k2 = prvAddTaskToReadyList t k1"
        "notified t c k k2" "ready k2 t" "kcont k2 (EventItem t) = None" "pxCurrentTCB k2 = pxCurrentTCB k" "swi_pending k2 = swi_pending k"
      using notify_makes_ready [OF inv True wt [OF True, THEN conjunct1] wt [OF True, THEN conjunct2] p] by blast
    have pr: "prio k2 u = prio k u" for u using k2(3) p by (cases "u = t") (auto simp: notified_def only_task_def)
    let ?k' = "if prio k (pxCurrentTCB k) < prio k t then portYIELD k2 else k2"
    have "xTaskGenericNotify t v a k = Some (r, ulNotifiedValue (tcb k t), ?k')"
      using t True k2(1,5,6) pr rc unfolding k2(2) by (simp add: xTaskGenericNotify_def configASSERT_def Let_def)
    moreover have "notified t c k ?k'" using k2(3) by simp
    moreover have "ready ?k' t" using k2(4) by (simp add: ready_def portYIELD_def)
    ultimately show ?thesis using rc k2(7) by (simp add: portYIELD_def)
  next
    case False
    then have "notified t c k (k\<lparr>tcb := (tcb k)(t := c)\<rparr>)" using kinv_tcb [OF inv p] by (simp add: notified_def only_task_def)
    then show ?thesis using False t rc by (simp add: xTaskGenericNotify_def configASSERT_def Let_def)
  qed
qed

section \<open>Inheritance\<close>

lemma inherit_spec:
  assumes "kinv k" and "h \<noteq> 0" and "uxBasePriority (tcb k h) \<le> prio k h"
  shows "\<exists>r k'. xTaskPriorityInherit h k = Some (r, k') \<and>
    reprioritised h ((tcb k h)\<lparr>uxPriority := max (prio k h) (prio k (pxCurrentTCB k))\<rparr>) k k' \<and>
    (r \<longleftrightarrow> uxBasePriority (tcb k h) < prio k (pxCurrentTCB k))"
proof (cases "prio k h < prio k (pxCurrentTCB k)")
  case True
  then show ?thesis
    using xTaskPriorityInherit_reprioritise [OF assms(1,2)] assms(3)
      reprioritise_spec [OF kinv_event_value [OF assms(1)], of h "uxPriority_update (\<lambda>_. prio k (pxCurrentTCB k))" h "prio k (pxCurrentTCB k)"]
    by (auto simp: max_def)
next
  case False
  then have "max (prio k h) (prio k (pxCurrentTCB k)) = prio k h" by simp
  then show ?thesis
    using False assms by (simp add: xTaskPriorityInherit_def reprioritised_def only_task_def ready_def)
qed

lemma disinherit_spec:
  assumes "kinv k" and "t \<noteq> 0" and "t = pxCurrentTCB k" and "ready k t" and "uxMutexesHeld (tcb k t) \<noteq> 0"
  shows "\<exists>r k' c. xTaskPriorityDisinherit t k = Some (r, k') \<and> reprioritised t c k k' \<and>
    c = (tcb k t)\<lparr>uxMutexesHeld := uxMutexesHeld (tcb k t) - 1,
          uxPriority := (if uxMutexesHeld (tcb k t) = 1 then uxBasePriority (tcb k t) else prio k t)\<rparr> \<and>
    (r \<longleftrightarrow> uxPriority c \<noteq> prio k t)"
proof -
  let ?f = "uxMutexesHeld_update (\<lambda>m. m - 1)" and ?g = "\<lambda>c :: TCB. c\<lparr>uxPriority := uxBasePriority c\<rparr>"
  let ?k1 = "set_tcb t ?f k"
  have "kbut t ?k1" by (rule kbut_tcb [OF kinv_kbut [OF assms(1)]]) simp
  then have inv1: "kinv ?k1" by (rule kbut_kinv) (use event_blocked [OF assms(1), of t] in simp)
  have rd1: "ready ?k1 t" using assms(4) by (simp add: ready_def)
  have one: "uxMutexesHeld (tcb k t) - 1 = 0 \<longleftrightarrow> uxMutexesHeld (tcb k t) = 1" by simp
  show ?thesis
  proof (cases "prio k t \<noteq> uxBasePriority (tcb k t) \<and> uxMutexesHeld (tcb k t) = 1")
    case True
    let ?v = "event_value (uxBasePriority (tcb k t))"
    obtain k' where k': "reprioritise t ?g (set_item_value (EventItem t) ?v ?k1) = Some k'" "reprioritised t (?g (?f (tcb k t))) ?k1 k'"
      using reprioritise_spec [OF kinv_item_value [OF inv1], of t ?g t ?v] by auto
    have "xTaskPriorityDisinherit t k = Option.bind (list_remove (StateItem t) ?k1) (\<lambda>k2. Some (True, prvAddTaskToReadyList t
      (set_item_value (EventItem t) ?v (set_prio t (uxBasePriority (tcb k2 t)) k2))))"
    proof (cases "list_remove (StateItem t) ?k1")
      case (Some k2)
      have "tcb k2 t = ?f (tcb k t)" using list_remove_tcb [OF Some] by simp
      then show ?thesis using True assms(2) assms(3) [symmetric] Some
        by (simp add: xTaskPriorityDisinherit_def configASSERT_def set_prio_def)
    qed (use True assms(2) assms(3) [symmetric] in \<open>simp add: xTaskPriorityDisinherit_def configASSERT_def\<close>)
    then have run: "xTaskPriorityDisinherit t k = Some (True, k')" unfolding disinherit_reprioritise [OF inv1 rd1] k'(1) by simp
    have "reprioritised t (?g (?f (tcb k t))) k k'"
      using k'(2) by (simp add: reprioritised_def only_task_def ready_def)
    then show ?thesis using run True
      by (intro exI [of _ True] exI [of _ k'] exI [of _ "?g (?f (tcb k t))"]) simp
  next
    case False
    then show ?thesis
      using assms inv1 rd1
      by (intro exI [of _ False] exI [of _ ?k1] exI [of _ "tcb ?k1 t"])
        (auto simp: xTaskPriorityDisinherit_def configASSERT_def reprioritised_def only_task_def ready_def)
  qed
qed

lemma disinherit_timeout_spec:
  assumes "kinv k" and "t \<noteq> 0" and "t \<noteq> pxCurrentTCB k" and "uxMutexesHeld (tcb k t) \<noteq> 0"
  shows "\<exists>k'. vTaskPriorityDisinheritAfterTimeout t w k = Some k' \<and>
    reprioritised t ((tcb k t)\<lparr>uxPriority := (if uxMutexesHeld (tcb k t) = 1 then max (uxBasePriority (tcb k t)) w else prio k t)\<rparr>) k k'"
proof (cases "prio k t \<noteq> max (uxBasePriority (tcb k t)) w \<and> uxMutexesHeld (tcb k t) = 1")
  case True
  let ?p = "max (uxBasePriority (tcb k t)) w" and ?f = "uxPriority_update (\<lambda>_. max (uxBasePriority (tcb k t)) w)"
  obtain k' where k': "reprioritise t ?f (set_event_value t ?p k) = Some k'" "reprioritised t (?f (tcb k t)) k k'"
    using reprioritise_spec [OF kinv_event_value [OF assms(1)], of t ?f t ?p] by auto
  have p: "(if uxBasePriority (tcb k t) < w then w else uxBasePriority (tcb k t)) = ?p" by simp
  have "vTaskPriorityDisinheritAfterTimeout t w k = reprioritise t ?f (set_event_value t ?p k)"
    using True assms(2,3) unfolding vTaskPriorityDisinheritAfterTimeout_def p relist_reprioritise [symmetric]
    by (simp add: configASSERT_def Let_def set_prio_def)
  then show ?thesis using True k' by auto
next
  case False
  then have "(tcb k t)\<lparr>uxPriority := (if uxMutexesHeld (tcb k t) = 1 then max (uxBasePriority (tcb k t)) w else prio k t)\<rparr> = tcb k t"
    by auto
  moreover have "vTaskPriorityDisinheritAfterTimeout t w k = Some k"
    using False assms by (auto simp: vTaskPriorityDisinheritAfterTimeout_def configASSERT_def Let_def max_def)
  ultimately show ?thesis using assms(1) by (simp add: reprioritised_def only_task_def ready_def)
qed

section \<open>Properties\<close>


lemma two_tasks_fields:
  "kinv two_tasks" "pxCurrentTCB two_tasks = 2" "prio two_tasks 1 = 0" "prio two_tasks 2 = 5" "uxBasePriority (tcb two_tasks 1) = 0"
  "uxBasePriority (tcb two_tasks 2) = 5" "uxMutexesHeld (tcb two_tasks t) = 0" "ready two_tasks 1" "ready two_tasks 2"
  "xSchedulerRunning two_tasks" "\<not> swi_pending two_tasks" "ulNotifiedValue (tcb two_tasks t) = 0"
  "ucNotifyState (tcb two_tasks t) = taskNOT_WAITING_NOTIFICATION"
  using two_tasks_ok by (simp_all add: sched_ok_def) (simp_all add: two_tasks_def ready_def)


text \<open>
  When the running task gives a mutex back, it holds one mutex less; with the last one it
  falls back to its base priority, otherwise it keeps the inherited priority. It stays ready, no
  other task is changed, and the result asks for a context switch exactly when the priority fell.
\<close>

theorem xTaskPriorityDisinherit_restores:
  assumes "kinv k" and "t \<noteq> 0" and "t = pxCurrentTCB k" and "ready k t" and "uxMutexesHeld (tcb k t) \<noteq> 0"
  shows "\<exists>r k' c. xTaskPriorityDisinherit t k = Some (r, k') \<and> reprioritised t c k k' \<and>
    c = (tcb k t)\<lparr>uxMutexesHeld := uxMutexesHeld (tcb k t) - 1,
          uxPriority := (if uxMutexesHeld (tcb k t) = 1 then uxBasePriority (tcb k t) else prio k t)\<rparr> \<and>
    (r \<longleftrightarrow> uxPriority c \<noteq> prio k t)"
  by (rule disinherit_spec [OF assms])

theorem xTaskPriorityDisinherit_restores_witness:
  "\<exists>k'. xTaskPriorityDisinherit 2 (set_tcb 2 (\<lambda>c. c\<lparr>uxBasePriority := 3, uxMutexesHeld := 1\<rparr>) two_tasks) = Some (True, k') \<and> prio k' 2 = 3"
proof -
  let ?k = "set_tcb 2 (\<lambda>c. c\<lparr>uxBasePriority := 3, uxMutexesHeld := 1\<rparr>) two_tasks"
  have "kinv ?k" using kinv_tcb [OF two_tasks_fields(1)] by simp
  moreover have "ready ?k 2" using two_tasks_fields(9) by (simp add: ready_def)
  moreover have "2 = pxCurrentTCB ?k" "uxMutexesHeld (tcb ?k 2) \<noteq> 0" by (simp_all add: two_tasks_fields)
  ultimately obtain r k' c where "xTaskPriorityDisinherit 2 ?k = Some (r, k')" "reprioritised 2 c ?k k'" "r \<longleftrightarrow> uxPriority c \<noteq> prio ?k 2"
      "c = (tcb ?k 2)\<lparr>uxMutexesHeld := uxMutexesHeld (tcb ?k 2) - 1,
          uxPriority := (if uxMutexesHeld (tcb ?k 2) = 1 then uxBasePriority (tcb ?k 2) else prio ?k 2)\<rparr>"
    using xTaskPriorityDisinherit_restores [of ?k 2] by auto
  then show ?thesis by (auto simp: two_tasks_fields reprioritised_def simp del: One_nat_def)
qed

text \<open>
  When the running task stops waiting for a mutex because its time is up, a holder of just
  that mutex falls to the higher of its base priority and the highest priority still waiting; a
  holder of several mutexes keeps its priority. No other task is changed and the invariant holds.
\<close>

theorem vTaskPriorityDisinheritAfterTimeout_lowers:
  assumes "kinv k" and "t \<noteq> 0" and "t \<noteq> pxCurrentTCB k" and "uxMutexesHeld (tcb k t) \<noteq> 0"
  shows "\<exists>k'. vTaskPriorityDisinheritAfterTimeout t w k = Some k' \<and>
    reprioritised t ((tcb k t)\<lparr>uxPriority := (if uxMutexesHeld (tcb k t) = 1 then max (uxBasePriority (tcb k t)) w else prio k t)\<rparr>) k k'"
  by (rule disinherit_timeout_spec [OF assms])

theorem vTaskPriorityDisinheritAfterTimeout_lowers_witness:
  "\<exists>k'. vTaskPriorityDisinheritAfterTimeout 1 3 (set_tcb 1 (uxMutexesHeld_update (\<lambda>_. 1)) two_tasks) = Some k' \<and> prio k' 1 = 3"
proof -
  let ?k = "set_tcb 1 (uxMutexesHeld_update (\<lambda>_. 1)) two_tasks"
  have "kinv ?k" using kinv_tcb [OF two_tasks_fields(1)] by simp
  then show ?thesis
    using vTaskPriorityDisinheritAfterTimeout_lowers [of ?k 1 3] by (auto simp: two_tasks_fields reprioritised_def simp del: One_nat_def)
qed

text \<open>
  \<open>vTaskPrioritySet\<close> sets the base priority; the priority in use follows unless the task runs
  at an inherited priority. A ready task is moved to the list of its new priority, no other task is
  changed and the invariant holds; a switch is requested when the running task lowers itself or
  another task is raised to at least the priority of the running task.
\<close>

theorem vTaskPrioritySet_sets:
  assumes "kinv k" and "p < configMAX_PRIORITIES" and "t \<noteq> 0" and "uxBasePriority (tcb k t) \<noteq> p"
  shows "\<exists>k'. vTaskPrioritySet t p k = Some k' \<and>
    reprioritised t ((tcb k t)\<lparr>uxPriority := (if uxBasePriority (tcb k t) = prio k t then p else prio k t), uxBasePriority := p\<rparr>) k k' \<and>
    (t = pxCurrentTCB k \<and> p < uxBasePriority (tcb k t) \<or>
     t \<noteq> pxCurrentTCB k \<and> p > uxBasePriority (tcb k t) \<and> p \<ge> prio k (pxCurrentTCB k) \<longrightarrow> swi_pending k')"
proof -
  let ?f = "\<lambda>c. c\<lparr>uxPriority := (if uxBasePriority (tcb k t) = prio k t then p else prio k t), uxBasePriority := p\<rparr>"
  obtain k4 where k4: "reprioritise t ?f (set_event_value t p k) = Some k4" "reprioritised t (?f (tcb k t)) k k4"
    using reprioritise_spec [OF kinv_event_value [OF assms(1)], of t ?f t p] by auto
  have y: "reprioritised t c k (portYIELD k') = reprioritised t c k k'" for c k'
    by (simp add: reprioritised_def only_task_def portYIELD_def)
  have "vTaskPrioritySet t p k = map_option (\<lambda>k4. if (if p > uxBasePriority (tcb k t) then t \<noteq> pxCurrentTCB k \<and> p \<ge> prio k (pxCurrentTCB k)
      else t = pxCurrentTCB k) then portYIELD k4 else k4) (reprioritise t ?f (set_event_value t p k))"
    using assms(2,3,4) unfolding vTaskPrioritySet_def relist_reprioritise [symmetric]
    by (cases "uxBasePriority (tcb k t) = prio k t") (simp_all add: configASSERT_def Let_def prvGetTCBFromHandle_def bind_Some_map)
  moreover have "swi_pending (portYIELD k4)" by (simp add: portYIELD_def)
  ultimately show ?thesis using k4 assms(4) y by (cases "p > uxBasePriority (tcb k t)") auto
qed

theorem vTaskPrioritySet_sets_witness:
  "\<exists>k'. vTaskPrioritySet 1 7 two_tasks = Some k' \<and> prio k' 1 = 7 \<and> kcont k' (StateItem 1) = Some (ReadyList 7) \<and> swi_pending k'"
  using vTaskPrioritySet_sets [of two_tasks 7 1] by (auto simp: two_tasks_fields reprioritised_def simp del: One_nat_def)



text \<open>
  C16: A task that waits for a notification gets it. A running task whose notification value is 0
  blocks in \<open>ulTaskNotifyTake\<close>; an increment from any other task then makes it ready, with a switch
  requested when it outranks the running task, and when it runs again the call returns 1 and leaves
  the value 0 and the notification state cleared. The scheduler invariant holds throughout.
\<close>

theorem notify_wakes_taker:
  assumes "sched_ok idle k" and "\<not> swi_pending k" and "pxCurrentTCB k = c" and "c \<noteq> idle" and "c \<noteq> 0"
    and "ulNotifiedValue (tcb k c) = 0" and "n \<noteq> 0"
  shows "\<exists>k1 k2. ulTaskGenericNotifyTake_wait n k = Some k1 \<and> sched_ok idle k1 \<and> \<not> ready k1 c \<and>
    xTaskGenericNotify c 0 eIncrement (k1\<lparr>pxCurrentTCB := idle\<rparr>) = Some (True, 0, k2) \<and> ready k2 c \<and> kinv k2 \<and>
    (prio k idle < prio k c \<longrightarrow> swi_pending k2) \<and>
    fst (ulTaskGenericNotifyTake_return b (k2\<lparr>pxCurrentTCB := c\<rparr>)) = 1 \<and>
    (let t = tcb (snd (ulTaskGenericNotifyTake_return b (k2\<lparr>pxCurrentTCB := c\<rparr>))) c
     in ulNotifiedValue t = 0 \<and> ucNotifyState t = taskNOT_WAITING_NOTIFICATION)"
proof -
  have inv: "kinv k" and rd: "ready k c" using assms by (simp_all add: sched_ok_def)
  let ?k0 = "set_tcb c (ucNotifyState_update (\<lambda>_. taskWAITING_NOTIFICATION)) k"
  have inv0: "kinv ?k0" using kinv_tcb [OF inv] by simp
  have cur0: "pxCurrentTCB ?k0 = c" using assms(3) by simp
  have rd0: "ready ?k0 (pxCurrentTCB ?k0)" using rd assms(3) by (simp add: ready_def)
  obtain kb where kb: "prvAddCurrentTaskToDelayedList n True ?k0 = Some kb" "blocked_current n True ?k0 kb"
    using block_current [OF kinv_kbut [OF inv0] rd0 assms(7), of True] by blast
  note B = blocked_current_D [OF kb(2), unfolded cur0]
  let ?k1 = "portYIELD kb"
  have run1: "ulTaskGenericNotifyTake_wait n k = Some ?k1"
    using assms(3,6,7) kb(1) by (simp add: ulTaskGenericNotifyTake_wait_def Let_def word_gt_0)
  have o1: "only_task c k ?k1" using B(2) by (simp add: only_task_def portYIELD_def)
  have ok1: "sched_ok idle ?k1"
    by (rule sched_ok_only_task [OF assms(1) _ o1]) (use B(1) assms(4) in \<open>simp_all add: portYIELD_def\<close>)
  have nr1: "\<not> ready ?k1 c"
    using B(5) block_list_cases [OF kinv_kbut [OF inv0], of n True] by (auto simp: ready_def portYIELD_def)
  let ?k1' = "?k1\<lparr>pxCurrentTCB := idle\<rparr>"
  have inv1: "kinv ?k1'"
    using ok1 kcore_fields [of ?k1' ?k1] by (simp add: sched_ok_def kinv_def ktime_def)
  have ev: "kcont k (EventItem c) = None" using event_blocked [OF inv, of c] rd by (simp add: ready_def blocked_list_def)
  have t1: "tcb ?k1' c = (tcb k c)\<lparr>ucNotifyState := taskWAITING_NOTIFICATION, ucDelayAborted := False\<rparr>"
    using B(4) by (simp add: portYIELD_def)
  have wt: "kcont ?k1' (StateItem c) \<noteq> None \<and> kcont ?k1' (EventItem c) = None"
    using B(3,5) ev by (simp add: portYIELD_def)
  have pi: "prio ?k1' idle = prio k idle" using o1 assms(4) by (simp add: only_task_def)
  obtain k2 where k2: "xTaskGenericNotify c 0 eIncrement ?k1' = Some (True, 0, k2)" "ready k2 c" "kinv k2"
      "prio k idle < prio k c \<longrightarrow> swi_pending k2"
      "tcb k2 c = (tcb ?k1' c)\<lparr>ucNotifyState := taskNOTIFICATION_RECEIVED, ulNotifiedValue := 1\<rparr>"
    using xTaskGenericNotify_notified [OF inv1 assms(5) wt, of 0 eIncrement] t1 pi assms(6)
    by (auto simp: notify_update_def notified_def)
  then show ?thesis
    using run1 ok1 nr1 by (simp add: ulTaskGenericNotifyTake_return_def Let_def)
qed

theorem notify_wakes_taker_witness:
  "\<exists>k1 k2. ulTaskGenericNotifyTake_wait 10 two_tasks = Some k1 \<and>
    xTaskGenericNotify 2 0 eIncrement (k1\<lparr>pxCurrentTCB := 1\<rparr>) = Some (True, 0, k2) \<and> ready k2 2 \<and> swi_pending k2"
  using notify_wakes_taker [OF two_tasks_ok, of 2 10 True] by (auto simp: two_tasks_fields simp del: One_nat_def)

text \<open>
  The value and the result of a notification for each action: bits are set, the value is
  incremented modulo \<open>2^32\<close>, overwritten, or overwritten only if no notification is pending, which
  is the only case reported as failure. A waiting task becomes ready, any other task keeps its
  lists, no other task changes and the invariant holds.
\<close>

theorem xTaskGenericNotify_value:
  assumes "kinv k" and "t \<noteq> 0"
    and "ucNotifyState (tcb k t) = taskWAITING_NOTIFICATION \<Longrightarrow> kcont k (StateItem t) \<noteq> None \<and> kcont k (EventItem t) = None"
  shows "\<exists>k'. xTaskGenericNotify t v a k =
      Some (\<not> (a = eSetValueWithoutOverwrite \<and> ucNotifyState (tcb k t) = taskNOTIFICATION_RECEIVED), ulNotifiedValue (tcb k t), k') \<and>
    kinv k' \<and> only_task t k k' \<and> ucNotifyState (tcb k' t) = taskNOTIFICATION_RECEIVED \<and>
    ulNotifiedValue (tcb k' t) =
      (case a of eNoAction \<Rightarrow> ulNotifiedValue (tcb k t)
       | eSetBits \<Rightarrow> ulNotifiedValue (tcb k t) OR v
       | eIncrement \<Rightarrow> ulNotifiedValue (tcb k t) + 1
       | eSetValueWithOverwrite \<Rightarrow> v
       | eSetValueWithoutOverwrite \<Rightarrow> if ucNotifyState (tcb k t) = taskNOTIFICATION_RECEIVED then ulNotifiedValue (tcb k t) else v) \<and>
    (if ucNotifyState (tcb k t) = taskWAITING_NOTIFICATION then ready k' t else \<forall>i. kcont k' i = kcont k i)"
proof -
  obtain k' where k': "xTaskGenericNotify t v a k = Some (fst (notify_update v a (tcb k t)), ulNotifiedValue (tcb k t), k')"
      "notified t (snd (notify_update v a (tcb k t))) k k'"
      "ucNotifyState (tcb k t) = taskWAITING_NOTIFICATION \<longrightarrow> ready k' t"
    using xTaskGenericNotify_notified [OF assms, of v a] by blast
  have c: "tcb k' t = snd (notify_update v a (tcb k t))" using k'(2) by (simp add: notified_def)
  show ?thesis
    using k' notify_update_fields(3) [of v a "tcb k t"] c
    by (cases a) (auto simp: notified_def notify_update_def Let_def)
qed

theorem xTaskGenericNotify_value_witness:
  "\<exists>k'. xTaskGenericNotify 1 6 eSetBits two_tasks = Some (True, 0, k') \<and> ulNotifiedValue (tcb k' 1) = 6"
  using xTaskGenericNotify_value [of two_tasks 1 6 eSetBits] by (auto simp: two_tasks_fields simp del: One_nat_def)



end
