(* ===== verification/Kernel_Events.thy ===== *)
theory Kernel_Events
  imports Kernel_Control
begin

text \<open>
  Event lists: what \<open>vTaskPlaceOnEventList\<close> and \<open>xTaskRemoveFromEventList\<close> of \<open>FreeRTOS/tasks.c\<close> do to
  the scheduler state. Queues, semaphores, event groups and stream buffers use these two operations.
\<close>

section \<open>Event items\<close>

lemma kbut_event_insert_end:
  assumes k: "kbut t k" and c: "kcont k (EventItem t) = None"
    and l: "event_place l" "l = PendingReadyList \<Longrightarrow> uxSchedulerSuspended k \<noteq> 0"
  shows "kbut t (list_insert_end l (EventItem t) k)"
proof -
  have ne: "pxDelayedTaskList k \<noteq> l" "pxOverflowDelayedTaskList k \<noteq> l" using l(1) kbut_D(4) [OF k] by (auto simp: event_place_def)
  show ?thesis
    using kbut_D(1,5,6) [OF k] ls_wf_insert_end [OF kbut_D(1) [OF k] c, of l] l ne
    by (intro kbut_change [OF k]) (auto simp: same_time_def list_insert_end_def intro: state_place_mono [OF kbut_D(2) [OF k]])
qed

lemma kbut_event_insert:
  assumes k: "kbut t k" and c: "kcont k (EventItem t) = None"
  shows "kbut t (list_insert (EventList e) (EventItem t) k)"
proof -
  have ne: "pxDelayedTaskList k \<noteq> EventList e" "pxOverflowDelayedTaskList k \<noteq> EventList e" using kbut_D(4) [OF k] by auto
  show ?thesis
    using kbut_D(1,5,6) [OF k] ls_wf_insert [OF kbut_D(1) [OF k] c, of "EventList e"] ne
    by (intro kbut_change [OF k]) (auto simp: same_time_def list_insert_def event_place_def intro: state_place_mono [OF kbut_D(2) [OF k]])
qed

text \<open>The first waiting task of an event list.\<close>

lemma event_head:
  assumes inv: "kinv k" and hd: "kseq k (EventList e) = i # is"
  shows "\<exists>t. i = EventItem t \<and> kcont k (EventItem t) = Some (EventList e) \<and> blocked_list (kcont k (StateItem t))"
proof -
  have core: "kcore k" using inv by (simp add: kinv_def)
  have ci: "kcont k i = Some (EventList e)" using kseq_iff [OF core, of i "EventList e"] hd by simp
  show ?thesis
  proof (cases i)
    case (StateItem t)
    then show ?thesis using kcore_D(2) [OF core, of t "EventList e"] ci by (simp add: state_place_def)
  next
    case (EventItem t)
    then show ?thesis using kcore_D(3) [OF core, of t "EventList e"] ci by simp
  qed
qed

section \<open>Waking the first task of an event list\<close>

text \<open>
  The task is ready at once, or, while the scheduler is suspended, on the pending-ready list, which
  \<open>xTaskResumeAll\<close> empties into the ready lists.
\<close>

definition woken_up :: "nat \<Rightarrow> kernel \<Rightarrow> bool" where
  "woken_up t k \<longleftrightarrow> ready k t \<and> kcont k (EventItem t) = None \<or>
     uxSchedulerSuspended k \<noteq> 0 \<and> kcont k (EventItem t) = Some PendingReadyList"

definition event_removed :: "nat \<Rightarrow> nat \<Rightarrow> bool \<Rightarrow> kernel \<Rightarrow> kernel \<Rightarrow> bool" where
  "event_removed e t y k k' \<longleftrightarrow> kinv k' \<and> only_task t k k' \<and> tcb k' t = tcb k t \<and> woken_up t k' \<and>
     kseq k' (EventList e) = tl (kseq k (EventList e)) \<and>
     (\<forall>l. l \<noteq> e \<longrightarrow> kseq k' (EventList l) = kseq k (EventList l)) \<and>
     (y \<longleftrightarrow> prio k (pxCurrentTCB k) < prio k t) \<and> (y \<longrightarrow> xYieldPending k') \<and> swi_pending k' = swi_pending k \<and>
     xSchedulerRunning k' = xSchedulerRunning k"

lemma list_remove_event:
  assumes "kcont k (EventItem t) = Some (EventList e)" and "kseq k (EventList e) = EventItem t # is"
  shows "\<exists>s. list_remove (EventItem t) k = Some (k\<lparr>ls := s\<rparr>) \<and> remove_event_item t k = Some (k\<lparr>ls := s\<rparr>) \<and>
    seq s = (kseq k)(EventList e := is)"
proof -
  obtain n s where "ls_remove (EventItem t) (ls k) = Some (n, s)" "seq s = (kseq k)(EventList e := is)"
    using assms by (simp add: ls_remove_def)
  then show ?thesis using assms(1) by (simp add: list_remove_def remove_event_item_def) blast
qed

lemma xTaskRemoveFromEventList_spec:
  assumes inv: "kinv k" and ne: "kseq k (EventList e) \<noteq> []"
  shows "\<exists>t is y k'. kseq k (EventList e) = EventItem t # is \<and> xTaskRemoveFromEventList e k = Some (y, k') \<and> event_removed e t y k k'"
proof -
  obtain i "is" where hd0: "kseq k (EventList e) = i # is" using ne by (cases "kseq k (EventList e)") auto
  obtain t where t: "i = EventItem t" "kcont k (EventItem t) = Some (EventList e)" "blocked_list (kcont k (StateItem t))"
    using event_head [OF inv hd0] by blast
  have hd: "kseq k (EventList e) = EventItem t # is" using hd0 t(1) by simp
  obtain s1 where s1: "list_remove (EventItem t) k = Some (k\<lparr>ls := s1\<rparr>)" "remove_event_item t k = Some (k\<lparr>ls := s1\<rparr>)"
      "seq s1 = (kseq k)(EventList e := is)"
    using list_remove_event [OF t(2) hd] by blast
  let ?k1 = "k\<lparr>ls := s1\<rparr>"
  have b1: "kbut t ?k1" "kcont ?k1 = (kcont k)(EventItem t := None)" "kval ?k1 = kval k"
    using kbut_remove_event [OF kinv_kbut [OF inv], of t] s1(2) by auto
  have st: "kcont k (StateItem t) \<noteq> None" using t(3) by (auto simp: blocked_list_def)
  obtain k2 where k2: "(if uxSchedulerSuspended ?k1 = 0 then map_option (prvAddTaskToReadyList t) (list_remove (StateItem t) ?k1)
      else Some (list_insert_end PendingReadyList (EventItem t) ?k1)) = Some k2"
      "kinv k2" "only_task t k k2" "tcb k2 = tcb k" "woken_up t k2" "\<forall>l. kseq k2 (EventList l) = kseq ?k1 (EventList l)"
      "swi_pending k2 = swi_pending k" "xSchedulerRunning k2 = xSchedulerRunning k"
  proof (cases "uxSchedulerSuspended k = 0")
    case True
    have i1: "kinv ?k1" using kbut_kinv [OF b1(1)] b1(2) by simp
    obtain k1' k2 s m where k2: "list_remove (StateItem t) ?k1 = Some k1'" "k2 = prvAddTaskToReadyList t k1'" "kinv k2" "only_task t ?k1 k2"
        "ready k2 t" "kcont k2 (EventItem t) = None" "k2 = ?k1\<lparr>ls := s, uxTopReadyPriority := m\<rparr>"
      using make_ready [OF i1, of t] st b1(2) by auto
    have "kseq k2 (EventList l) = kseq ?k1 (EventList l)" for l
      using relist_ready_events(1) [OF k2(1)] t(3) b1(2) unfolding k2(2) by (auto simp: blocked_list_def)
    moreover have "only_task t k k2" using k2(4) b1(2,3) by (auto simp: only_task_def)
    moreover have "tcb k2 = tcb k" "swi_pending k2 = swi_pending k" "xSchedulerRunning k2 = xSchedulerRunning k" by (simp_all add: k2(7))
    ultimately show ?thesis using True k2(1) k2(2) [symmetric] k2(3,5,6) by (intro that [of k2]) (simp_all add: woken_up_def)
  next
    case False
    let ?k2 = "list_insert_end PendingReadyList (EventItem t) ?k1"
    have "kbut t ?k2" by (rule kbut_event_insert_end [OF b1(1)]) (use b1(2) False in \<open>simp_all add: event_place_def\<close>)
    then have "kinv ?k2" using kbut_kinv [of t ?k2] t(3) b1(2) by (simp add: list_insert_end_def)
    moreover have "only_task t k ?k2" using b1(2,3) by (auto simp: only_task_def list_insert_end_def)
    ultimately show ?thesis using False b1(2) by (intro that [of ?k2]) (simp_all add: woken_up_def list_insert_end_def)
  qed
  let ?y = "prio k (pxCurrentTCB k) < prio k t" and ?k' = "\<lambda>y. if y then k2\<lparr>xYieldPending := True\<rparr> else k2"
  have cur: "pxCurrentTCB k2 = pxCurrentTCB k" using k2(3) by (simp add: only_task_def)
  have "xTaskRemoveFromEventList e k = Some (?y, ?k' ?y)"
    using hd s1(1) k2(1) k2(4) cur unfolding xTaskRemoveFromEventList_def by (simp add: Let_def)
  moreover have "event_removed e t ?y k (?k' ?y)"
    using k2(2-8) s1(3) hd by (simp add: event_removed_def only_task_def woken_up_def ready_def)
  ultimately show ?thesis using hd by blast
qed

section \<open>Blocking on an event list\<close>

definition event_placed :: "nat \<Rightarrow> u32 \<Rightarrow> kernel \<Rightarrow> kernel \<Rightarrow> bool" where
  "event_placed e n k k' \<longleftrightarrow> (let c = pxCurrentTCB k in
     kinv k' \<and> only_task c k k' \<and> tcb k' c = (tcb k c)\<lparr>ucDelayAborted := False\<rparr> \<and>
     kcont k' (EventItem c) = Some (EventList e) \<and> kcont k' (StateItem c) = Some (block_list n True k) \<and>
     (n \<noteq> portMAX_DELAY \<longrightarrow> kval k' (StateItem c) = xTickCount k + n) \<and>
     kseq k' (EventList e) = ordered_insert (kval k) (EventItem c) (kseq k (EventList e)) \<and>
     (\<forall>l. l \<noteq> e \<longrightarrow> kseq k' (EventList l) = kseq k (EventList l)) \<and>
     swi_pending k' = swi_pending k \<and> xSchedulerRunning k' = xSchedulerRunning k \<and> xYieldPending k' = xYieldPending k)"

lemma delayed_list_events:
  assumes "prvAddCurrentTaskToDelayedList n b k = Some k'" and "kcont k (StateItem (pxCurrentTCB k)) = Some (ReadyList p)"
    and "pxDelayedTaskList k \<noteq> EventList l" "pxOverflowDelayedTaskList k \<noteq> EventList l"
  shows "kseq k' (EventList l) = kseq k (EventList l)"
  using assms
  by (auto simp: prvAddCurrentTaskToDelayedList_def list_remove_def ls_remove_def list_insert_end_def list_insert_def set_item_value_def
      Let_def split: if_splits)

lemma vTaskPlaceOnEventList_spec:
  assumes inv: "kinv k" and rd: "ready k (pxCurrentTCB k)" and n: "n \<noteq> 0"
  shows "\<exists>k'. vTaskPlaceOnEventList e n k = Some k' \<and> event_placed e n k k'"
proof -
  let ?c = "pxCurrentTCB k"
  let ?k1 = "list_insert (EventList e) (EventItem ?c) k"
  have ev: "kcont k (EventItem ?c) = None" using event_blocked [OF inv, of ?c] rd by (simp add: ready_def blocked_list_def)
  have b1: "kbut ?c ?k1" by (rule kbut_event_insert [OF kinv_kbut [OF inv] ev])
  have c1: "pxCurrentTCB ?k1 = ?c" "kcont ?k1 = (kcont k)(EventItem ?c := Some (EventList e))" "kval ?k1 = kval k" "tcb ?k1 = tcb k"
    "block_list n True ?k1 = block_list n True k" "xTickCount ?k1 = xTickCount k"
    by (simp_all add: list_insert_def block_list_def)
  have rd1: "ready ?k1 ?c" using rd by (simp add: ready_def c1)
  obtain k' where k': "prvAddCurrentTaskToDelayedList n True ?k1 = Some k'" "blocked_current n True ?k1 k'"
    using block_current [of ?k1] b1 rd1 n unfolding c1(1) by blast
  note B = blocked_current_D [OF k'(2), unfolded c1]
  have "kseq k' (EventList l) = kseq ?k1 (EventList l)" for l
    by (rule delayed_list_events [OF k'(1), of "prio k ?c"])
      (use rd kbut_D(4) [OF kinv_kbut [OF inv]] in \<open>auto simp: ready_def c1 list_insert_def\<close>)
  then have q: "kseq k' (EventList e) = ordered_insert (kval k) (EventItem ?c) (kseq k (EventList e))"
    "l \<noteq> e \<Longrightarrow> kseq k' (EventList l) = kseq k (EventList l)" for l by (simp_all add: list_insert_def)
  have o: "only_task ?c k k'" using B(2) by (auto simp: only_task_def c1 list_insert_def)
  have v: "n \<noteq> portMAX_DELAY \<longrightarrow> kval k' (StateItem ?c) = xTickCount k + n"
  proof
    assume "n \<noteq> portMAX_DELAY"
    then have "block_list n True k \<noteq> SuspendedTaskList" using kbut_D(4) [OF kinv_kbut [OF inv]] by (auto simp: block_list_def)
    then show "kval k' (StateItem ?c) = xTickCount k + n" using k'(2) unfolding blocked_current_def c1 by simp
  qed
  have y: "xYieldPending k' = xYieldPending k" using k'(2) unfolding blocked_current_def by (auto simp: list_insert_def)
  have "event_placed e n k k'" unfolding event_placed_def Let_def using B o q v y by (simp add: list_insert_def)
  then show ?thesis using k'(1) by (simp add: vTaskPlaceOnEventList_def)
qed

end
