(* ===== verification/Kernel_Queue.thy ===== *)
theory Kernel_Queue
  imports Kernel_Events Heap4
begin

text \<open>
  \<open>FreeRTOS/queue.c\<close>: queues, semaphores and mutexes. A queue is a record with the fields of
  \<open>Queue_t\<close>; the union \<open>u\<close> is its two words, so that \<open>pcTail\<close> and \<open>xMutexHolder\<close>, and \<open>pcReadFrom\<close> and
  \<open>uxRecursiveCallCount\<close>, share storage. Pointers are integers and \<open>0\<close> is \<open>NULL\<close>; the two lists of
  waiting tasks are named by their addresses. \<open>pvItemToQueue\<close> is \<open>None\<close> for \<open>NULL\<close>. An operation maps
  queue and kernel to its result, queue and kernel, and \<open>None\<close> where it does not return. A blocking
  call is a sequence of passes through its \<open>for\<close> loop; in a pass, each critical section is one step,
  and the part between \<open>prvLockQueue\<close> and \<open>prvUnlockQueue\<close>, in which interrupts are served, is
  a definition of its own. Queue sets, the registry and co-routines are not configured or left out.
\<close>

section \<open>State\<close>

datatype position = queueSEND_TO_BACK | queueSEND_TO_FRONT | queueOVERWRITE

record Queue_t =
  pcHead :: int
  pcWriteTo :: int
  u_first :: int
  u_second :: int
  xTasksWaitingToSend :: nat
  xTasksWaitingToReceive :: nat
  uxMessagesWaiting :: u32
  uxLength :: u32
  uxItemSize :: u32
  cRxLock :: int
  cTxLock :: int
  bytes :: "int \<Rightarrow> u8"

abbreviation pcTail :: "Queue_t \<Rightarrow> int" where "pcTail q \<equiv> u_first q"
abbreviation pcReadFrom :: "Queue_t \<Rightarrow> int" where "pcReadFrom q \<equiv> u_second q"
abbreviation xMutexHolder :: "Queue_t \<Rightarrow> nat" where "xMutexHolder q \<equiv> nat (u_first q)"
abbreviation uxRecursiveCallCount :: "Queue_t \<Rightarrow> u32" where "uxRecursiveCallCount q \<equiv> word_of_int (u_second q)"
abbreviation queueQUEUE_IS_MUTEX :: "Queue_t \<Rightarrow> bool" where "queueQUEUE_IS_MUTEX q \<equiv> pcHead q = 0"

abbreviation (input) queueUNLOCKED :: int where "queueUNLOCKED \<equiv> - 1"
abbreviation (input) queueLOCKED_UNMODIFIED :: int where "queueLOCKED_UNMODIFIED \<equiv> 0"
abbreviation (input) queueINT8_MAX :: int where "queueINT8_MAX \<equiv> 127"
abbreviation (input) SIZE_MAX :: u32 where "SIZE_MAX \<equiv> 0xffffffff"

definition memcpy_to :: "int \<Rightarrow> u8 list \<Rightarrow> nat \<Rightarrow> (int \<Rightarrow> u8) \<Rightarrow> int \<Rightarrow> u8" where
  "memcpy_to p xs n f = (\<lambda>a. if p \<le> a \<and> a < p + int n then xs ! nat (a - p) else f a)"

definition memcpy_from :: "int \<Rightarrow> nat \<Rightarrow> (int \<Rightarrow> u8) \<Rightarrow> u8 list" where
  "memcpy_from p n f = map (\<lambda>i. f (p + int i)) [0 ..< n]"

section \<open>Creation and reset\<close>

definition xQueueGenericReset :: "bool \<Rightarrow> Queue_t \<Rightarrow> kernel \<Rightarrow> (Queue_t \<times> kernel) option" where
  "xQueueGenericReset xNewQueue q k =
     (if uxLength q \<ge> 1 \<and> SIZE_MAX div uxLength q \<ge> uxItemSize q
      then (let q1 = q\<lparr>u_first := pcHead q + uint (uxLength q * uxItemSize q), uxMessagesWaiting := 0, pcWriteTo := pcHead q,
                       u_second := pcHead q + uint ((uxLength q - 1) * uxItemSize q),
                       cRxLock := queueUNLOCKED, cTxLock := queueUNLOCKED\<rparr>
            in if xNewQueue
               then Some (q1, k\<lparr>ls := ls_initialise (EventList (xTasksWaitingToReceive q))
                                  (ls_initialise (EventList (xTasksWaitingToSend q)) (ls k))\<rparr>)
               else if kseq k (EventList (xTasksWaitingToSend q)) \<noteq> []
               then map_option (\<lambda>(y, k1). (q1, if y then portYIELD k1 else k1)) (xTaskRemoveFromEventList (xTasksWaitingToSend q) k)
               else Some (q1, k))
      else None)"

definition prvInitialiseNewQueue :: "u32 \<Rightarrow> u32 \<Rightarrow> nat \<Rightarrow> nat \<Rightarrow> Queue_t \<Rightarrow> kernel \<Rightarrow> (Queue_t \<times> kernel) option" where
  "prvInitialiseNewQueue uxQueueLength uxItemSz pucQueueStorage pxNewQueue q k =
     xQueueGenericReset True
       (q\<lparr>pcHead := (if uxItemSz = 0 then int pxNewQueue else int pucQueueStorage),
          uxLength := uxQueueLength, uxItemSize := uxItemSz\<rparr>) k"

text \<open>
  The size of \<open>Queue_t\<close> and the places of its lists on the 32-bit target; \<open>q\<close> is what the allocated
  memory held before.
\<close>

abbreviation (input) sizeof_Queue_t :: nat where "sizeof_Queue_t \<equiv> 72"

definition xQueueGenericCreate ::
  "u32 \<Rightarrow> u32 \<Rightarrow> Queue_t \<Rightarrow> heap4 \<Rightarrow> kernel \<Rightarrow> ((nat \<times> Queue_t) option \<times> heap4 \<times> kernel) option" where
  "xQueueGenericCreate uxQueueLength uxItemSz q h k =
     (if uxQueueLength > 0 \<and> SIZE_MAX div uxQueueLength \<ge> uxItemSz \<and>
         SIZE_MAX - of_nat sizeof_Queue_t \<ge> uxQueueLength * uxItemSz
      then do {
        (p, h1) \<leftarrow> pvPortMalloc (sizeof_Queue_t + unat (uxQueueLength * uxItemSz)) h;
        if p \<noteq> 0
        then do {
          (q1, k1) \<leftarrow> prvInitialiseNewQueue uxQueueLength uxItemSz (p + sizeof_Queue_t) p
                       (q\<lparr>xTasksWaitingToSend := p + 16, xTasksWaitingToReceive := p + 36\<rparr>) k;
          Some (Some (p, q1), h1, k1)
        }
        else Some (None, h1, k)
      }
      else None)"

definition vQueueDelete :: "nat \<Rightarrow> heap4 \<Rightarrow> heap4 option" where
  "vQueueDelete p h = do { configASSERT (p \<noteq> 0); vPortFree p h }"

section \<open>Copying, locking and counting\<close>

definition prvCopyDataToQueue ::
  "u8 list \<Rightarrow> position \<Rightarrow> Queue_t \<Rightarrow> kernel \<Rightarrow> (bool \<times> Queue_t \<times> kernel) option" where
  "prvCopyDataToQueue item xPosition q k =
     (if uxItemSize q = 0
      then do {
        (r, q1, k1) \<leftarrow>
          (if queueQUEUE_IS_MUTEX q
           then map_option (\<lambda>(r, k1). (r, q\<lparr>u_first := 0\<rparr>, k1)) (xTaskPriorityDisinherit (xMutexHolder q) k)
           else Some (False, q, k));
        Some (r, q1\<lparr>uxMessagesWaiting := uxMessagesWaiting q + 1\<rparr>, k1)
      }
      else if xPosition = queueSEND_TO_BACK
      then (let q1 = q\<lparr>bytes := memcpy_to (pcWriteTo q) item (unat (uxItemSize q)) (bytes q),
                      pcWriteTo := pcWriteTo q + uint (uxItemSize q)\<rparr>;
                q2 = (if pcWriteTo q1 \<ge> pcTail q1 then q1\<lparr>pcWriteTo := pcHead q1\<rparr> else q1)
            in Some (False, q2\<lparr>uxMessagesWaiting := uxMessagesWaiting q + 1\<rparr>, k))
      else (let q1 = q\<lparr>bytes := memcpy_to (pcReadFrom q) item (unat (uxItemSize q)) (bytes q),
                      u_second := pcReadFrom q - uint (uxItemSize q)\<rparr>;
                q2 = (if pcReadFrom q1 < pcHead q1 then q1\<lparr>u_second := pcTail q1 - uint (uxItemSize q1)\<rparr> else q1);
                m = (if xPosition = queueOVERWRITE \<and> uxMessagesWaiting q > 0 then uxMessagesWaiting q - 1 else uxMessagesWaiting q)
            in Some (False, q2\<lparr>uxMessagesWaiting := m + 1\<rparr>, k)))"

text \<open>The buffer of the caller, when there is an item to copy.\<close>

definition prvCopyDataFromQueue :: "Queue_t \<Rightarrow> u8 list \<times> Queue_t" where
  "prvCopyDataFromQueue q =
     (if uxItemSize q \<noteq> 0
      then (let q1 = q\<lparr>u_second := pcReadFrom q + uint (uxItemSize q)\<rparr>;
                q2 = (if pcReadFrom q1 \<ge> pcTail q1 then q1\<lparr>u_second := pcHead q1\<rparr> else q1)
            in (memcpy_from (pcReadFrom q2) (unat (uxItemSize q2)) (bytes q2), q2))
      else ([], q))"

definition prvLockQueue :: "Queue_t \<Rightarrow> Queue_t" where
  "prvLockQueue q =
     (let q1 = (if cRxLock q = queueUNLOCKED then q\<lparr>cRxLock := queueLOCKED_UNMODIFIED\<rparr> else q)
      in if cTxLock q1 = queueUNLOCKED then q1\<lparr>cTxLock := queueLOCKED_UNMODIFIED\<rparr> else q1)"

fun unlock_loop :: "nat \<Rightarrow> nat \<Rightarrow> kernel \<Rightarrow> kernel option" where
  "unlock_loop e 0 k = Some k"
| "unlock_loop e (Suc n) k =
     (if kseq k (EventList e) \<noteq> []
      then Option.bind (xTaskRemoveFromEventList e k) (\<lambda>(y, k1). unlock_loop e n (if y then vTaskMissedYield k1 else k1))
      else Some k)"

definition prvUnlockQueue :: "Queue_t \<Rightarrow> kernel \<Rightarrow> (Queue_t \<times> kernel) option" where
  "prvUnlockQueue q k = do {
     k1 \<leftarrow> unlock_loop (xTasksWaitingToReceive q) (nat (cTxLock q)) k;
     let q1 = q\<lparr>cTxLock := queueUNLOCKED\<rparr>;
     k2 \<leftarrow> unlock_loop (xTasksWaitingToSend q1) (nat (cRxLock q1)) k1;
     Some (q1\<lparr>cRxLock := queueUNLOCKED\<rparr>, k2)
   }"

definition prvIsQueueEmpty :: "Queue_t \<Rightarrow> bool" where
  "prvIsQueueEmpty q \<longleftrightarrow> uxMessagesWaiting q = 0"

definition prvIsQueueFull :: "Queue_t \<Rightarrow> bool" where
  "prvIsQueueFull q \<longleftrightarrow> uxMessagesWaiting q = uxLength q"

definition xQueueIsQueueEmptyFromISR :: "Queue_t \<Rightarrow> bool" where
  "xQueueIsQueueEmptyFromISR q \<longleftrightarrow> uxMessagesWaiting q = 0"

definition xQueueIsQueueFullFromISR :: "Queue_t \<Rightarrow> bool" where
  "xQueueIsQueueFullFromISR q \<longleftrightarrow> uxMessagesWaiting q = uxLength q"

definition uxQueueMessagesWaiting :: "Queue_t \<Rightarrow> u32" where
  "uxQueueMessagesWaiting q = uxMessagesWaiting q"

definition uxQueueSpacesAvailable :: "Queue_t \<Rightarrow> u32" where
  "uxQueueSpacesAvailable q = uxLength q - uxMessagesWaiting q"

text \<open>Waking a task that waits on a list of the queue, with a yield if it outranks the running task.\<close>

definition wake_waiter :: "nat \<Rightarrow> kernel \<Rightarrow> kernel option" where
  "wake_waiter e k =
     (if kseq k (EventList e) \<noteq> []
      then map_option (\<lambda>(y, k1). if y then portYIELD k1 else k1) (xTaskRemoveFromEventList e k)
      else Some k)"

text \<open>From an interrupt: the boolean is \<open>*pxHigherPriorityTaskWoken\<close> being set.\<close>

definition wake_waiter_from_isr :: "nat \<Rightarrow> kernel \<Rightarrow> (bool \<times> kernel) option" where
  "wake_waiter_from_isr e k = (if kseq k (EventList e) \<noteq> [] then xTaskRemoveFromEventList e k else Some (False, k))"

section \<open>Blocking calls\<close>

text \<open>The assertion on the scheduler state at the start of each blocking call.\<close>

definition may_wait :: "u32 \<Rightarrow> kernel \<Rightarrow> bool" where
  "may_wait xTicksToWait k \<longleftrightarrow> \<not> (xSchedulerRunning k \<and> uxSchedulerSuspended k \<noteq> 0 \<and> xTicksToWait \<noteq> 0)"

text \<open>
  How the first critical section of a pass ends: the call returns, or it goes on to wait. How the
  part with the queue locked ends: the time is up, the task is on an event list, or there is
  nothing to wait for any more.
\<close>

datatype 'r critical = Finished 'r | Waiting TimeOut_t
datatype parking = Expired TimeOut_t u32 | Blocked TimeOut_t u32 | Retry TimeOut_t u32
datatype 'r pass = Return 'r | Loop TimeOut_t u32

definition entry_time :: "TimeOut_t option \<Rightarrow> kernel \<Rightarrow> TimeOut_t" where
  "entry_time tm k = (case tm of None \<Rightarrow> vTaskInternalSetTimeOutState k | Some t \<Rightarrow> t)"

definition queue_park :: "(Queue_t \<Rightarrow> bool) \<Rightarrow> nat \<Rightarrow> TimeOut_t \<Rightarrow> u32 \<Rightarrow> Queue_t \<Rightarrow> kernel \<Rightarrow> (parking \<times> kernel) option" where
  "queue_park must_wait e xTimeOut xTicksToWait q k =
     (let (expired, tm, n, k1) = xTaskCheckForTimeOut xTimeOut xTicksToWait k
      in if \<not> expired
         then (if must_wait q then map_option (\<lambda>k2. (Blocked tm n, k2)) (vTaskPlaceOnEventList e n k1)
               else Some (Retry tm n, k1))
         else Some (Expired tm n, k1))"

definition queue_leave :: "parking \<Rightarrow> Queue_t \<Rightarrow> kernel \<Rightarrow> (Queue_t \<times> kernel) option" where
  "queue_leave p q k = do {
     (q1, k1) \<leftarrow> prvUnlockQueue q k;
     (y, k2) \<leftarrow> xTaskResumeAll k1;
     Some (q1, case p of Blocked tm n \<Rightarrow> if y then k2 else portYIELD k2 | _ \<Rightarrow> k2)
   }"

definition xQueueGenericSend_critical ::
  "u8 list \<Rightarrow> u32 \<Rightarrow> position \<Rightarrow> TimeOut_t option \<Rightarrow> Queue_t \<Rightarrow> kernel \<Rightarrow> (bool critical \<times> Queue_t \<times> kernel) option" where
  "xQueueGenericSend_critical item xTicksToWait xCopyPosition tm q k =
     (if uxMessagesWaiting q < uxLength q \<or> xCopyPosition = queueOVERWRITE
      then do {
        (xYieldRequired, q1, k1) \<leftarrow> prvCopyDataToQueue item xCopyPosition q k;
        k2 \<leftarrow> (if kseq k1 (EventList (xTasksWaitingToReceive q1)) \<noteq> []
              then wake_waiter (xTasksWaitingToReceive q1) k1
              else Some (if xYieldRequired then portYIELD k1 else k1));
        Some (Finished True, q1, k2)
      }
      else if xTicksToWait = 0 then Some (Finished False, q, k)
      else Some (Waiting (entry_time tm k), q, k))"

definition xQueueGenericSend_pass ::
  "u8 list \<Rightarrow> position \<Rightarrow> TimeOut_t option \<Rightarrow> u32 \<Rightarrow> Queue_t \<Rightarrow> kernel \<Rightarrow> (bool pass \<times> Queue_t \<times> kernel) option" where
  "xQueueGenericSend_pass item xCopyPosition tm xTicksToWait q k = do {
     (c, q1, k1) \<leftarrow> xQueueGenericSend_critical item xTicksToWait xCopyPosition tm q k;
     case c of
       Finished r \<Rightarrow> Some (Return r, q1, k1)
     | Waiting t \<Rightarrow> do {
         let q2 = prvLockQueue q1;
         (p, k2) \<leftarrow> queue_park prvIsQueueFull (xTasksWaitingToSend q2) t xTicksToWait q2 (vTaskSuspendAll k1);
         (q3, k3) \<leftarrow> queue_leave p q2 k2;
         Some (case p of Expired t' n \<Rightarrow> Return False | Blocked t' n \<Rightarrow> Loop t' n | Retry t' n \<Rightarrow> Loop t' n, q3, k3)
       }
   }"

definition xQueueGenericSend ::
  "u8 list option \<Rightarrow> u32 \<Rightarrow> position \<Rightarrow> Queue_t \<Rightarrow> kernel \<Rightarrow> (bool pass \<times> Queue_t \<times> kernel) option" where
  "xQueueGenericSend pvItemToQueue xTicksToWait xCopyPosition q k = do {
     configASSERT (\<not> (pvItemToQueue = None \<and> uxItemSize q \<noteq> 0));
     configASSERT (\<not> (xCopyPosition = queueOVERWRITE \<and> uxLength q \<noteq> 1));
     configASSERT (may_wait xTicksToWait k);
     xQueueGenericSend_pass (case pvItemToQueue of None \<Rightarrow> [] | Some xs \<Rightarrow> xs) xCopyPosition None xTicksToWait q k
   }"

text \<open>
  A receiver whose time is up looks once more: only if the queue is empty the call returns without
  an item.
\<close>

definition receive_result :: "parking \<Rightarrow> Queue_t \<Rightarrow> 'r \<Rightarrow> 'r pass" where
  "receive_result p q fail =
     (case p of Expired t n \<Rightarrow> if prvIsQueueEmpty q then Return fail else Loop t n
      | Blocked t n \<Rightarrow> Loop t n | Retry t n \<Rightarrow> Loop t n)"

definition receive_wait ::
  "TimeOut_t \<Rightarrow> u32 \<Rightarrow> Queue_t \<Rightarrow> kernel \<Rightarrow> (u8 list option pass \<times> Queue_t \<times> kernel) option" where
  "receive_wait t xTicksToWait q k = do {
     let q2 = prvLockQueue q;
     (p, k2) \<leftarrow> queue_park prvIsQueueEmpty (xTasksWaitingToReceive q2) t xTicksToWait q2 (vTaskSuspendAll k);
     (q3, k3) \<leftarrow> queue_leave p q2 k2;
     Some (receive_result p q3 None, q3, k3)
   }"

definition xQueueReceive_critical ::
  "u32 \<Rightarrow> TimeOut_t option \<Rightarrow> Queue_t \<Rightarrow> kernel \<Rightarrow> (u8 list option critical \<times> Queue_t \<times> kernel) option" where
  "xQueueReceive_critical xTicksToWait tm q k =
     (if uxMessagesWaiting q > 0
      then (let (item, q1) = prvCopyDataFromQueue q;
                q2 = q1\<lparr>uxMessagesWaiting := uxMessagesWaiting q - 1\<rparr>
            in map_option (\<lambda>k1. (Finished (Some item), q2, k1)) (wake_waiter (xTasksWaitingToSend q2) k))
      else if xTicksToWait = 0 then Some (Finished None, q, k)
      else Some (Waiting (entry_time tm k), q, k))"

definition xQueueReceive_pass ::
  "TimeOut_t option \<Rightarrow> u32 \<Rightarrow> Queue_t \<Rightarrow> kernel \<Rightarrow> (u8 list option pass \<times> Queue_t \<times> kernel) option" where
  "xQueueReceive_pass tm xTicksToWait q k = do {
     (c, q1, k1) \<leftarrow> xQueueReceive_critical xTicksToWait tm q k;
     case c of Finished r \<Rightarrow> Some (Return r, q1, k1) | Waiting t \<Rightarrow> receive_wait t xTicksToWait q1 k1
   }"

text \<open>\<open>has_buffer\<close> tells that \<open>pvBuffer\<close> is not \<open>NULL\<close>.\<close>

definition xQueueReceive ::
  "bool \<Rightarrow> u32 \<Rightarrow> Queue_t \<Rightarrow> kernel \<Rightarrow> (u8 list option pass \<times> Queue_t \<times> kernel) option" where
  "xQueueReceive has_buffer xTicksToWait q k = do {
     configASSERT (\<not> (\<not> has_buffer \<and> uxItemSize q \<noteq> 0));
     configASSERT (may_wait xTicksToWait k);
     xQueueReceive_pass None xTicksToWait q k
   }"

definition xQueuePeek_critical ::
  "u32 \<Rightarrow> TimeOut_t option \<Rightarrow> Queue_t \<Rightarrow> kernel \<Rightarrow> (u8 list option critical \<times> Queue_t \<times> kernel) option" where
  "xQueuePeek_critical xTicksToWait tm q k =
     (if uxMessagesWaiting q > 0
      then (let pcOriginalReadPosition = pcReadFrom q;
                (item, q1) = prvCopyDataFromQueue q;
                q2 = q1\<lparr>u_second := pcOriginalReadPosition\<rparr>
            in map_option (\<lambda>k1. (Finished (Some item), q2, k1)) (wake_waiter (xTasksWaitingToReceive q2) k))
      else if xTicksToWait = 0 then Some (Finished None, q, k)
      else Some (Waiting (entry_time tm k), q, k))"

definition xQueuePeek_pass ::
  "TimeOut_t option \<Rightarrow> u32 \<Rightarrow> Queue_t \<Rightarrow> kernel \<Rightarrow> (u8 list option pass \<times> Queue_t \<times> kernel) option" where
  "xQueuePeek_pass tm xTicksToWait q k = do {
     (c, q1, k1) \<leftarrow> xQueuePeek_critical xTicksToWait tm q k;
     case c of Finished r \<Rightarrow> Some (Return r, q1, k1) | Waiting t \<Rightarrow> receive_wait t xTicksToWait q1 k1
   }"

definition xQueuePeek ::
  "bool \<Rightarrow> u32 \<Rightarrow> Queue_t \<Rightarrow> kernel \<Rightarrow> (u8 list option pass \<times> Queue_t \<times> kernel) option" where
  "xQueuePeek has_buffer xTicksToWait q k = do {
     configASSERT (\<not> (\<not> has_buffer \<and> uxItemSize q \<noteq> 0));
     configASSERT (may_wait xTicksToWait k);
     xQueuePeek_pass None xTicksToWait q k
   }"

section \<open>Semaphores and mutexes\<close>

definition prvGetDisinheritPriorityAfterTimeout :: "Queue_t \<Rightarrow> kernel \<Rightarrow> nat" where
  "prvGetDisinheritPriorityAfterTimeout q k =
     (case kseq k (EventList (xTasksWaitingToReceive q)) of
        [] \<Rightarrow> 0
      | i # _ \<Rightarrow> unat (of_nat configMAX_PRIORITIES - ival (ls k) i))"

definition xQueueSemaphoreTake_critical ::
  "u32 \<Rightarrow> TimeOut_t option \<Rightarrow> bool \<Rightarrow> Queue_t \<Rightarrow> kernel \<Rightarrow> (bool critical \<times> Queue_t \<times> kernel) option" where
  "xQueueSemaphoreTake_critical xTicksToWait tm xInheritanceOccurred q k =
     (if uxMessagesWaiting q > 0
      then (let q1 = q\<lparr>uxMessagesWaiting := uxMessagesWaiting q - 1\<rparr>;
                (q2, k1) = (if queueQUEUE_IS_MUTEX q1
                            then (let (h, k1) = pvTaskIncrementMutexHeldCount k in (q1\<lparr>u_first := int h\<rparr>, k1))
                            else (q1, k))
            in map_option (\<lambda>k2. (Finished True, q2, k2)) (wake_waiter (xTasksWaitingToSend q2) k1))
      else if xTicksToWait = 0
      then do { configASSERT (\<not> xInheritanceOccurred); Some (Finished False, q, k) }
      else Some (Waiting (entry_time tm k), q, k))"

text \<open>With the queue locked: the holder of a mutex inherits the priority of the task that will wait.\<close>

definition xQueueSemaphoreTake_park ::
  "TimeOut_t \<Rightarrow> u32 \<Rightarrow> bool \<Rightarrow> Queue_t \<Rightarrow> kernel \<Rightarrow> (parking \<times> bool \<times> kernel) option" where
  "xQueueSemaphoreTake_park xTimeOut xTicksToWait xInheritanceOccurred q k =
     (let (expired, tm, n, k1) = xTaskCheckForTimeOut xTimeOut xTicksToWait k
      in if \<not> expired
         then (if prvIsQueueEmpty q
               then do {
                 (inh, k2) \<leftarrow> (if queueQUEUE_IS_MUTEX q then xTaskPriorityInherit (xMutexHolder q) k1
                               else Some (xInheritanceOccurred, k1));
                 k3 \<leftarrow> vTaskPlaceOnEventList (xTasksWaitingToReceive q) n k2;
                 Some (Blocked tm n, inh, k3)
               }
               else Some (Retry tm n, xInheritanceOccurred, k1))
         else Some (Expired tm n, xInheritanceOccurred, k1))"

text \<open>The loop also carries whether the holder inherited a priority.\<close>

definition xQueueSemaphoreTake_pass ::
  "TimeOut_t option \<Rightarrow> u32 \<Rightarrow> bool \<Rightarrow> Queue_t \<Rightarrow> kernel \<Rightarrow> (bool pass \<times> bool \<times> Queue_t \<times> kernel) option" where
  "xQueueSemaphoreTake_pass tm xTicksToWait xInheritanceOccurred q k = do {
     (c, q1, k1) \<leftarrow> xQueueSemaphoreTake_critical xTicksToWait tm xInheritanceOccurred q k;
     case c of
       Finished r \<Rightarrow> Some (Return r, xInheritanceOccurred, q1, k1)
     | Waiting t \<Rightarrow> do {
         let q2 = prvLockQueue q1;
         (p, inh, k2) \<leftarrow> xQueueSemaphoreTake_park t xTicksToWait xInheritanceOccurred q2 (vTaskSuspendAll k1);
         (q3, k3) \<leftarrow> queue_leave p q2 k2;
         let r = receive_result p q3 False;
         k4 \<leftarrow> (if r = Return False \<and> inh
               then vTaskPriorityDisinheritAfterTimeout (xMutexHolder q3) (prvGetDisinheritPriorityAfterTimeout q3 k3) k3
               else Some k3);
         Some (r, inh, q3, k4)
       }
   }"

definition xQueueSemaphoreTake ::
  "u32 \<Rightarrow> Queue_t \<Rightarrow> kernel \<Rightarrow> (bool pass \<times> bool \<times> Queue_t \<times> kernel) option" where
  "xQueueSemaphoreTake xTicksToWait q k = do {
     configASSERT (uxItemSize q = 0);
     configASSERT (may_wait xTicksToWait k);
     xQueueSemaphoreTake_pass None xTicksToWait False q k
   }"

definition prvInitialiseMutex :: "Queue_t \<Rightarrow> kernel \<Rightarrow> (bool pass \<times> Queue_t \<times> kernel) option" where
  "prvInitialiseMutex q k =
     xQueueGenericSend None 0 queueSEND_TO_BACK (q\<lparr>u_first := 0, pcHead := 0, u_second := 0\<rparr>) k"

definition xQueueCreateMutex :: "Queue_t \<Rightarrow> heap4 \<Rightarrow> kernel \<Rightarrow> ((nat \<times> Queue_t) option \<times> heap4 \<times> kernel) option" where
  "xQueueCreateMutex q0 h k = do {
     (r, h1, k1) \<leftarrow> xQueueGenericCreate 1 0 q0 h k;
     case r of
       None \<Rightarrow> Some (None, h1, k1)
     | Some (p, q) \<Rightarrow> map_option (\<lambda>(_, q1, k2). (Some (p, q1), h1, k2)) (prvInitialiseMutex q k1)
   }"

definition xQueueCreateCountingSemaphore ::
  "u32 \<Rightarrow> u32 \<Rightarrow> Queue_t \<Rightarrow> heap4 \<Rightarrow> kernel \<Rightarrow> ((nat \<times> Queue_t) option \<times> heap4 \<times> kernel) option" where
  "xQueueCreateCountingSemaphore uxMaxCount uxInitialCount q0 h k =
     (if uxMaxCount \<noteq> 0 \<and> uxInitialCount \<le> uxMaxCount
      then map_option (\<lambda>(r, h1, k1). (map_option (\<lambda>(p, q). (p, q\<lparr>uxMessagesWaiting := uxInitialCount\<rparr>)) r, h1, k1))
             (xQueueGenericCreate uxMaxCount 0 q0 h k)
      else None)"

definition xQueueGetMutexHolder :: "Queue_t \<Rightarrow> nat" where
  "xQueueGetMutexHolder q = (if queueQUEUE_IS_MUTEX q then xMutexHolder q else 0)"

definition xQueueGiveMutexRecursive :: "Queue_t \<Rightarrow> kernel \<Rightarrow> (bool \<times> Queue_t \<times> kernel) option" where
  "xQueueGiveMutexRecursive q k =
     (if xMutexHolder q = pxCurrentTCB k
      then (let q1 = q\<lparr>u_second := uint (uxRecursiveCallCount q - 1)\<rparr>
            in if uxRecursiveCallCount q1 = 0
               then map_option (\<lambda>(_, q2, k1). (True, q2, k1)) (xQueueGenericSend None 0 queueSEND_TO_BACK q1 k)
               else Some (True, q1, k))
      else Some (False, q, k))"

text \<open>The call up to the point where it returns or blocks.\<close>

definition xQueueTakeMutexRecursive ::
  "u32 \<Rightarrow> Queue_t \<Rightarrow> kernel \<Rightarrow> (bool pass \<times> bool \<times> Queue_t \<times> kernel) option" where
  "xQueueTakeMutexRecursive xTicksToWait q k =
     (if xMutexHolder q = pxCurrentTCB k
      then Some (Return True, False, q\<lparr>u_second := uint (uxRecursiveCallCount q + 1)\<rparr>, k)
      else map_option (\<lambda>(r, inh, q1, k1).
             (r, inh, if r = Return True then q1\<lparr>u_second := uint (uxRecursiveCallCount q1 + 1)\<rparr> else q1, k1))
             (xQueueSemaphoreTake xTicksToWait q k))"

section \<open>Calls from interrupts\<close>

definition xQueueGenericSendFromISR ::
  "u8 list option \<Rightarrow> position \<Rightarrow> Queue_t \<Rightarrow> kernel \<Rightarrow> (bool \<times> bool \<times> Queue_t \<times> kernel) option" where
  "xQueueGenericSendFromISR pvItemToQueue xCopyPosition q k = do {
     configASSERT (\<not> (pvItemToQueue = None \<and> uxItemSize q \<noteq> 0));
     configASSERT (\<not> (xCopyPosition = queueOVERWRITE \<and> uxLength q \<noteq> 1));
     if uxMessagesWaiting q < uxLength q \<or> xCopyPosition = queueOVERWRITE
     then do {
       (_, q1, k1) \<leftarrow> prvCopyDataToQueue (case pvItemToQueue of None \<Rightarrow> [] | Some xs \<Rightarrow> xs) xCopyPosition q k;
       if cTxLock q = queueUNLOCKED
       then map_option (\<lambda>(w, k2). (True, w, q1, k2)) (wake_waiter_from_isr (xTasksWaitingToReceive q1) k1)
       else do {
         configASSERT (cTxLock q \<noteq> queueINT8_MAX);
         Some (True, False, q1\<lparr>cTxLock := cTxLock q + 1\<rparr>, k1)
       }
     }
     else Some (False, False, q, k)
   }"

definition xQueueGiveFromISR :: "Queue_t \<Rightarrow> kernel \<Rightarrow> (bool \<times> bool \<times> Queue_t \<times> kernel) option" where
  "xQueueGiveFromISR q k = do {
     configASSERT (uxItemSize q = 0);
     configASSERT (\<not> (queueQUEUE_IS_MUTEX q \<and> xMutexHolder q \<noteq> 0));
     if uxMessagesWaiting q < uxLength q
     then (let q1 = q\<lparr>uxMessagesWaiting := uxMessagesWaiting q + 1\<rparr>
           in if cTxLock q = queueUNLOCKED
              then map_option (\<lambda>(w, k1). (True, w, q1, k1)) (wake_waiter_from_isr (xTasksWaitingToReceive q1) k)
              else do {
                configASSERT (cTxLock q \<noteq> queueINT8_MAX);
                Some (True, False, q1\<lparr>cTxLock := cTxLock q + 1\<rparr>, k)
              })
     else Some (False, False, q, k)
   }"

definition xQueueReceiveFromISR ::
  "bool \<Rightarrow> Queue_t \<Rightarrow> kernel \<Rightarrow> (u8 list option \<times> bool \<times> Queue_t \<times> kernel) option" where
  "xQueueReceiveFromISR has_buffer q k = do {
     configASSERT (\<not> (\<not> has_buffer \<and> uxItemSize q \<noteq> 0));
     if uxMessagesWaiting q > 0
     then (let (item, q1) = prvCopyDataFromQueue q;
               q2 = q1\<lparr>uxMessagesWaiting := uxMessagesWaiting q - 1\<rparr>
           in if cRxLock q = queueUNLOCKED
              then map_option (\<lambda>(w, k1). (Some item, w, q2, k1)) (wake_waiter_from_isr (xTasksWaitingToSend q2) k)
              else do {
                configASSERT (cRxLock q \<noteq> queueINT8_MAX);
                Some (Some item, False, q2\<lparr>cRxLock := cRxLock q + 1\<rparr>, k)
              })
     else Some (None, False, q, k)
   }"

definition xQueuePeekFromISR :: "bool \<Rightarrow> Queue_t \<Rightarrow> (u8 list option \<times> Queue_t) option" where
  "xQueuePeekFromISR has_buffer q = do {
     configASSERT (\<not> (\<not> has_buffer \<and> uxItemSize q \<noteq> 0));
     configASSERT (uxItemSize q \<noteq> 0);
     if uxMessagesWaiting q > 0
     then (let (item, q1) = prvCopyDataFromQueue q in Some (Some item, q1\<lparr>u_second := pcReadFrom q\<rparr>))
     else Some (None, q)
   }"

definition uxQueueMessagesWaitingFromISR :: "Queue_t \<Rightarrow> u32" where
  "uxQueueMessagesWaitingFromISR q = uxMessagesWaiting q"

end
