(* ===== verification/Queue_Ring.thy ===== *)
theory Queue_Ring
  imports Kernel_Queue
begin

text \<open>
  The storage of a queue of \<open>FreeRTOS/queue.c\<close> as a ring of slots: what the queue holds is a list,
  and copying to the back, to the front, overwriting and copying out are the list operations. The
  interface is a locale of bounded double-ended queues; the calls of \<open>queue.c\<close> with a block time of
  zero implement it.
\<close>

section \<open>Slots\<close>

definition item_size :: "Queue_t \<Rightarrow> nat" where "item_size q = unat (uxItemSize q)"
definition capacity :: "Queue_t \<Rightarrow> nat" where "capacity q = unat (uxLength q)"
definition count :: "Queue_t \<Rightarrow> nat" where "count q = unat (uxMessagesWaiting q)"

definition slot :: "Queue_t \<Rightarrow> nat \<Rightarrow> u8 list" where
  "slot q i = memcpy_from (pcHead q + int (i * item_size q)) (item_size q) (bytes q)"

definition read_slot :: "Queue_t \<Rightarrow> nat" where
  "read_slot q = nat ((pcReadFrom q - pcHead q) div int (item_size q))"

definition contents :: "Queue_t \<Rightarrow> u8 list list" where
  "contents q = map (\<lambda>i. slot q ((read_slot q + 1 + i) mod capacity q)) [0 ..< count q]"

text \<open>The invariant of a queue that holds items.\<close>

definition ring :: "Queue_t \<Rightarrow> bool" where
  "ring q \<longleftrightarrow> 0 < item_size q \<and> 0 < capacity q \<and> count q \<le> capacity q \<and> read_slot q < capacity q \<and>
     pcTail q = pcHead q + int (capacity q * item_size q) \<and>
     pcReadFrom q = pcHead q + int (read_slot q * item_size q) \<and>
     pcWriteTo q = pcHead q + int (((read_slot q + 1 + count q) mod capacity q) * item_size q)"

lemma ring_D:
  assumes "ring q"
  shows "0 < item_size q" "0 < capacity q" "count q \<le> capacity q" "read_slot q < capacity q"
    "pcTail q = pcHead q + int (capacity q * item_size q)" "pcReadFrom q = pcHead q + int (read_slot q * item_size q)"
    "pcWriteTo q = pcHead q + int (((read_slot q + 1 + count q) mod capacity q) * item_size q)"
  using assms by (simp_all add: ring_def)

lemma sizes:
  "uint (uxItemSize q) = int (item_size q)" "unat (uxItemSize q) = item_size q" "uxItemSize q = 0 \<longleftrightarrow> item_size q = 0"
  "uxMessagesWaiting q < uxLength q \<longleftrightarrow> count q < capacity q" "uxMessagesWaiting q = 0 \<longleftrightarrow> count q = 0"
  "0 < uxMessagesWaiting q \<longleftrightarrow> 0 < count q"
  by (simp_all add: item_size_def capacity_def count_def word_less_nat_alt unat_eq_zero)

lemma full_iff: "uxMessagesWaiting q = uxLength q \<longleftrightarrow> count q = capacity q"
  unfolding capacity_def count_def by (rule word_unat_eq_iff)

lemma item_size_read [simp]: "item_size (q\<lparr>u_second := v\<rparr>) = item_size q"
  by (simp add: item_size_def)

lemma length_contents [simp]: "length (contents q) = count q"
  by (simp add: contents_def)

lemma read_slot_eq: "0 < item_size q \<Longrightarrow> pcReadFrom q = pcHead q + int (r * item_size q) \<Longrightarrow> read_slot q = r"
  by (simp add: read_slot_def)

lemma memcpy_same: "length xs = n \<Longrightarrow> memcpy_from p n (memcpy_to p xs n f) = xs"
  by (auto simp: memcpy_from_def memcpy_to_def intro!: nth_equalityI)

lemma memcpy_disjoint: "p + int n \<le> p' \<or> p' + int n' \<le> p \<Longrightarrow> memcpy_from p n (memcpy_to p' xs n' f) = memcpy_from p n f"
  by (auto simp: memcpy_from_def memcpy_to_def)

lemma slots_disjoint: "(i :: nat) \<noteq> j \<Longrightarrow> int (i * sz) + int sz \<le> int (j * sz) \<or> int (j * sz) + int sz \<le> int (i * sz)"
proof -
  assume "i \<noteq> j"
  then have "Suc i \<le> j \<or> Suc j \<le> i" by auto
  then have "Suc i * sz \<le> j * sz \<or> Suc j * sz \<le> i * sz" by (metis mult_le_mono1)
  then have "int (Suc i * sz) \<le> int (j * sz) \<or> int (Suc j * sz) \<le> int (i * sz)" by (metis of_nat_le_iff)
  then show ?thesis by (simp add: algebra_simps)
qed

lemma slot_write:
  assumes "bytes q' = memcpy_to (pcHead q + int (j * item_size q)) x (item_size q) (bytes q)"
    and "pcHead q' = pcHead q" "uxItemSize q' = uxItemSize q" "length x = item_size q"
  shows "slot q' i = (if i = j then x else slot q i)"
proof -
  have "item_size q' = item_size q" using assms(3) by (simp add: item_size_def)
  then show ?thesis
    using slots_disjoint [of i j "item_size q"] assms by (auto simp: slot_def memcpy_same intro!: memcpy_disjoint)
qed

lemma mod_slots_ne:
  assumes "i < m" "m < (n :: nat)"
  shows "(a + i) mod n \<noteq> (a + m) mod n"
proof
  assume "(a + i) mod n = (a + m) mod n"
  then have "n dvd (a + m) - (a + i)" using mod_eq_dvd_iff_nat [of "a + i" "a + m" n] assms by (auto simp: eq_commute)
  then show False using assms by (simp add: nat_dvd_not_less)
qed

lemma unat_inc: "a < b \<Longrightarrow> unat (a + 1 :: u32) = unat a + 1"
  by unat_arith

lemma unat_dec: "a \<noteq> 0 \<Longrightarrow> unat (a - 1 :: u32) = unat a - 1"
  by (rule unat_minus_one)

lemma wrap_up:
  assumes "j < n" "0 < (sz :: nat)"
  shows "(if h + int (j * sz) + int sz \<ge> h + int (n * sz) then h else h + int (j * sz) + int sz) = h + int (((j + 1) mod n) * sz)"
proof (cases "j + 1 = n")
  case True
  then show ?thesis by (auto simp: algebra_simps)
next
  case False
  then have "Suc j < n" using assms by simp
  then have "Suc j * sz < n * sz" using assms by (metis mult_less_mono1)
  then have "int (Suc j * sz) < int (n * sz)" by (metis of_nat_less_iff)
  then have "int (j * sz) + int sz < int (n * sz)" by (simp add: algebra_simps)
  then show ?thesis using \<open>Suc j < n\<close> by (simp add: algebra_simps)
qed

lemma wrap_down:
  assumes "r < n" "0 < (sz :: nat)"
  shows "(if h + int (r * sz) - int sz < h then h + int (n * sz) - int sz else h + int (r * sz) - int sz) = h + int (((r + n - 1) mod n) * sz)"
proof (cases r)
  case 0
  then show ?thesis using assms by (cases n) (auto simp: algebra_simps)
next
  case (Suc r')
  then have "(r + n - 1) mod n = r'" using assms by simp
  moreover have "\<not> int r' * int sz < 0" by (simp add: not_less)
  ultimately show ?thesis using Suc by (simp add: algebra_simps)
qed

section \<open>Copying in and out\<close>

text \<open>What the copies leave alone.\<close>

definition same_queue :: "Queue_t \<Rightarrow> Queue_t \<Rightarrow> bool" where
  "same_queue q q' \<longleftrightarrow> item_size q' = item_size q \<and> capacity q' = capacity q \<and> pcHead q' = pcHead q \<and> pcTail q' = pcTail q \<and>
     uxItemSize q' = uxItemSize q \<and> uxLength q' = uxLength q \<and>
     xTasksWaitingToSend q' = xTasksWaitingToSend q \<and> xTasksWaitingToReceive q' = xTasksWaitingToReceive q \<and>
     cRxLock q' = cRxLock q \<and> cTxLock q' = cTxLock q"

lemma same_queue_refl [simp]: "same_queue q q"
  by (simp add: same_queue_def)

lemma ringI:
  assumes q: "ring q" and same: "same_queue q q'" and r: "pcReadFrom q' = pcHead q + int (r * item_size q)" "r < capacity q"
    and w: "pcWriteTo q' = pcHead q + int (((r + 1 + count q') mod capacity q) * item_size q)" and m: "count q' \<le> capacity q"
  shows "ring q'" "read_slot q' = r"
proof -
  note D = ring_D [OF q]
  have e: "item_size q' = item_size q" "capacity q' = capacity q" "pcHead q' = pcHead q" "pcTail q' = pcTail q"
    using same by (simp_all add: same_queue_def)
  show rs: "read_slot q' = r" using r(1) D(1) by (intro read_slot_eq) (simp_all add: e)
  show "ring q'" using D r w m unfolding ring_def rs e by simp
qed

lemma copy_back:
  assumes q: "ring q" and room: "count q < capacity q" and x: "length x = item_size q"
  shows "\<exists>q'. prvCopyDataToQueue x queueSEND_TO_BACK q k = Some (False, q', k) \<and> ring q' \<and> same_queue q q' \<and> contents q' = contents q @ [x]"
proof -
  note D = ring_D [OF q]
  let ?sz = "item_size q" and ?n = "capacity q" and ?r = "read_slot q" and ?m = "count q"
  let ?j = "(?r + 1 + ?m) mod ?n"
  have j: "?j < ?n" using D(2) by simp
  define q' where "q' = q\<lparr>bytes := memcpy_to (pcWriteTo q) x ?sz (bytes q), pcWriteTo := pcHead q + int (((?j + 1) mod ?n) * ?sz),
    uxMessagesWaiting := uxMessagesWaiting q + 1\<rparr>"
  have run: "prvCopyDataToQueue x queueSEND_TO_BACK q k = Some (False, q', k)"
    using D(1) wrap_up [OF j D(1), of "pcHead q"] unfolding prvCopyDataToQueue_def Let_def
    by (simp add: sizes D(5,7) q'_def split: if_splits)
  have m': "count q' = ?m + 1" using room unat_inc [of "uxMessagesWaiting q" "uxLength q"] by (simp add: count_def capacity_def word_less_nat_alt q'_def)
  have same: "same_queue q q'" by (simp add: q'_def same_queue_def item_size_def capacity_def)
  have "(?j + 1) mod ?n = (?r + 1 + count q') mod ?n" unfolding m' by (simp add: mod_simps)
  then have ok: "ring q'" "read_slot q' = ?r" using ringI [OF q same, of ?r] D(4,6) room m' by (simp_all add: q'_def)
  have cap: "capacity q' = ?n" using same by (simp add: same_queue_def)
  have sl: "slot q' i = (if i = ?j then x else slot q i)" for i
    by (rule slot_write) (simp_all add: D(7) x q'_def)
  have "contents q' = map (\<lambda>i. slot q' ((?r + 1 + i) mod ?n)) [0 ..< ?m] @ [slot q' ?j]"
    unfolding contents_def ok(2) m' cap by simp
  also have "map (\<lambda>i. slot q' ((?r + 1 + i) mod ?n)) [0 ..< ?m] = contents q"
  proof -
    have "slot q' ((?r + 1 + i) mod ?n) = slot q ((?r + 1 + i) mod ?n)" if "i < ?m" for i
      unfolding sl using mod_slots_ne [OF that room, of "?r + 1"] by simp
    then show ?thesis unfolding contents_def by simp
  qed
  finally show ?thesis using run ok(1) same by (intro exI [of _ q']) (simp add: sl)
qed

lemma copy_front:
  assumes q: "ring q" and room: "count q < capacity q" and x: "length x = item_size q"
  shows "\<exists>q'. prvCopyDataToQueue x queueSEND_TO_FRONT q k = Some (False, q', k) \<and> ring q' \<and> same_queue q q' \<and> contents q' = x # contents q"
proof -
  note D = ring_D [OF q]
  let ?sz = "item_size q" and ?n = "capacity q" and ?r = "read_slot q" and ?m = "count q"
  let ?r' = "(?r + ?n - 1) mod ?n"
  define q' where "q' = q\<lparr>bytes := memcpy_to (pcReadFrom q) x ?sz (bytes q), u_second := pcHead q + int (?r' * ?sz),
    uxMessagesWaiting := uxMessagesWaiting q + 1\<rparr>"
  have run: "prvCopyDataToQueue x queueSEND_TO_FRONT q k = Some (False, q', k)"
    using D(1) wrap_down [OF D(4,1), of "pcHead q"] unfolding prvCopyDataToQueue_def Let_def
    by (simp add: sizes D(5,6) q'_def split: if_splits)
  have m': "count q' = ?m + 1" using room unat_inc [of "uxMessagesWaiting q" "uxLength q"] by (simp add: count_def capacity_def word_less_nat_alt q'_def)
  have same: "same_queue q q'" by (simp add: q'_def same_queue_def item_size_def capacity_def)
  have up: "(?r' + 1 + i) mod ?n = (?r + i) mod ?n" for i
  proof -
    have "(?r' + (1 + i)) mod ?n = (?r + ?n - 1 + (1 + i)) mod ?n" by (rule mod_add_left_eq)
    then have "(?r' + 1 + i) mod ?n = (?r + ?n - 1 + 1 + i) mod ?n" by (simp only: add.assoc)
    also have "?r + ?n - 1 + 1 + i = ?r + i + ?n" using D(2) by simp
    finally show ?thesis by simp
  qed
  have up1: "(?r' + 1 + Suc i) mod ?n = (?r + 1 + i) mod ?n" for i using up [of "Suc i"] by simp
  have "(?r + 1 + ?m) mod ?n = (?r' + 1 + count q') mod ?n" unfolding m' up by (simp add: ac_simps)
  then have ok: "ring q'" "read_slot q' = ?r'" using ringI [OF q same, of ?r'] D(2,7) room m' by (simp_all add: q'_def)
  have cap: "capacity q' = ?n" using same by (simp add: same_queue_def)
  have sl: "slot q' i = (if i = ?r then x else slot q i)" for i
    by (rule slot_write) (simp_all add: D(6) x q'_def)
  have "contents q' = map (\<lambda>i. slot q' ((?r' + 1 + i) mod ?n)) (0 # map Suc [0 ..< ?m])"
    unfolding contents_def ok(2) m' cap by (simp add: map_Suc_upt upt_conv_Cons del: upt_Suc)
  also have "\<dots> = slot q' ?r # map (\<lambda>i. slot q' ((?r + 1 + i) mod ?n)) [0 ..< ?m]"
    unfolding list.map map_map comp_def up1 using up [of 0] D(4) by simp
  also have "map (\<lambda>i. slot q' ((?r + 1 + i) mod ?n)) [0 ..< ?m] = contents q"
  proof -
    have "slot q' ((?r + 1 + i) mod ?n) = slot q ((?r + 1 + i) mod ?n)" if "i < ?m" for i
      unfolding sl using mod_slots_ne [of 0 "i + 1" ?n ?r] that room D(4) by simp
    then show ?thesis unfolding contents_def by simp
  qed
  finally show ?thesis using run ok(1) same by (intro exI [of _ q']) (simp add: sl)
qed

lemma copy_overwrite:
  assumes q: "ring q" and one: "capacity q = 1" and x: "length x = item_size q"
  shows "\<exists>q'. prvCopyDataToQueue x queueOVERWRITE q k = Some (False, q', k) \<and> ring q' \<and> same_queue q q' \<and> contents q' = [x]"
proof -
  note D = ring_D [OF q, unfolded one]
  have r: "read_slot q = 0" using D(4) by simp
  define q' where "q' = q\<lparr>bytes := memcpy_to (pcReadFrom q) x (item_size q) (bytes q), u_second := pcHead q, uxMessagesWaiting := 1\<rparr>"
  have "uxMessagesWaiting q = 0 \<or> uxMessagesWaiting q = 1"
    using D(3) unat_1 [where ?'a = 32] unfolding count_def by (metis le_antisym less_one not_le unat_eq_zero word_unat_eq_iff)
  then have run: "prvCopyDataToQueue x queueOVERWRITE q k = Some (False, q', k)"
    using D(1) unfolding prvCopyDataToQueue_def Let_def by (auto simp: sizes(1,2,3) D(5,6) r q'_def)
  have same: "same_queue q q'" by (simp add: q'_def same_queue_def item_size_def capacity_def)
  have cap: "capacity q' = 1" using same one by (simp add: same_queue_def)
  have m: "count q' = 1" by (simp add: q'_def count_def)
  have ok: "ring q'" "read_slot q' = 0" using ringI [OF q same, of 0] D(6,7) one m r by (simp_all add: q'_def)
  have "slot q' 0 = x" using slot_write [of q' q 0 x 0] D(6) x r by (simp add: q'_def)
  then have "contents q' = [x]" by (simp add: contents_def m cap ok(2))
  then show ?thesis using run ok(1) same by blast
qed

text \<open>Copying out, with the read pointer advanced and, as its callers do, the count lowered.\<close>

lemma copy_out:
  assumes q: "ring q" and some: "0 < count q"
  shows "\<exists>q1. prvCopyDataFromQueue q = (hd (contents q), q1) \<and> ring (q1\<lparr>uxMessagesWaiting := uxMessagesWaiting q - 1\<rparr>) \<and>
    same_queue q (q1\<lparr>uxMessagesWaiting := uxMessagesWaiting q - 1\<rparr>) \<and>
    contents (q1\<lparr>uxMessagesWaiting := uxMessagesWaiting q - 1\<rparr>) = tl (contents q) \<and> q1\<lparr>u_second := pcReadFrom q\<rparr> = q"
proof -
  note D = ring_D [OF q]
  let ?sz = "item_size q" and ?n = "capacity q" and ?r = "read_slot q" and ?m = "count q"
  let ?r' = "(?r + 1) mod ?n"
  define q1 where "q1 = q\<lparr>u_second := pcHead q + int (?r' * ?sz)\<rparr>"
  define q' where "q' = q1\<lparr>uxMessagesWaiting := uxMessagesWaiting q - 1\<rparr>"
  have run: "prvCopyDataFromQueue q = (slot q ?r', q1)"
    using D(1) wrap_up [OF D(4,1), of "pcHead q"] unfolding prvCopyDataFromQueue_def Let_def
    by (auto simp: sizes D(5,6) q1_def slot_def add.assoc split: if_splits)
  have nz: "uxMessagesWaiting q \<noteq> 0" using some by (auto simp: count_def)
  have m: "count q' = ?m - 1" using unat_dec [OF nz] by (simp add: q'_def count_def)
  have same: "same_queue q q'" by (simp add: q'_def q1_def same_queue_def item_size_def capacity_def)
  have e: "capacity q' = ?n" "slot q' i = slot q i" for i using same by (simp_all add: same_queue_def slot_def) (simp add: q'_def q1_def)
  have up: "(?r' + (1 + i)) mod ?n = (?r + 1 + (1 + i)) mod ?n" for i by (rule mod_add_left_eq)
  have "(?r' + 1 + count q') mod ?n = (?r + 1 + ?m) mod ?n" using up [of "?m - 1"] some by (simp add: m)
  then have ok: "ring q'" "read_slot q' = ?r'" using ringI [OF q same, of ?r'] D(2,3,7) m by (simp_all add: q'_def q1_def)
  obtain c where c: "?m = Suc c" using some by (cases ?m) auto
  have "contents q = slot q ?r' # map (\<lambda>i. slot q ((?r + 1 + Suc i) mod ?n)) [0 ..< c]"
    unfolding contents_def c by (simp add: upt_conv_Cons map_Suc_upt [symmetric] comp_def del: upt_Suc)
  moreover have "contents q' = map (\<lambda>i. slot q ((?r + 1 + Suc i) mod ?n)) [0 ..< c]"
    unfolding contents_def e ok(2) m c using up by (simp add: add.assoc)
  moreover have "q1\<lparr>u_second := pcReadFrom q\<rparr> = q" by (simp add: q1_def)
  ultimately show ?thesis using run ok(1) same unfolding q'_def by auto
qed

section \<open>The interface\<close>

text \<open>
  A bounded double-ended queue whose operations report whether they did anything. The client's view:
  every sequence of operations gives the results it gives on a list.
\<close>

datatype 'a qop = Put_Back 'a | Put_Front 'a | Take

fun list_step :: "nat \<Rightarrow> 'a qop \<Rightarrow> 'a list \<Rightarrow> 'a option \<times> bool \<times> 'a list" where
  "list_step n (Put_Back x) xs = (if length xs < n then (None, True, xs @ [x]) else (None, False, xs))"
| "list_step n (Put_Front x) xs = (if length xs < n then (None, True, x # xs) else (None, False, xs))"
| "list_step n Take xs = (case xs of [] \<Rightarrow> (None, False, []) | y # ys \<Rightarrow> (Some y, True, ys))"

fun list_run :: "nat \<Rightarrow> 'a qop list \<Rightarrow> 'a list \<Rightarrow> ('a option \<times> bool) list \<times> 'a list" where
  "list_run n [] xs = ([], xs)"
| "list_run n (p # ps) xs = (let (r, b, ys) = list_step n p xs; (rs, zs) = list_run n ps ys in ((r, b) # rs, zs))"

fun step_run :: "('a qop \<Rightarrow> 's \<Rightarrow> ('a option \<times> bool \<times> 's) option) \<Rightarrow> 'a qop list \<Rightarrow> 's \<Rightarrow> (('a option \<times> bool) list \<times> 's) option" where
  "step_run step [] s = Some ([], s)"
| "step_run step (p # ps) s = Option.bind (step p s) (\<lambda>(r, b, s1). map_option (\<lambda>(rs, s2). ((r, b) # rs, s2)) (step_run step ps s1))"

fun op_fits :: "('a \<Rightarrow> bool) \<Rightarrow> 'a qop \<Rightarrow> bool" where
  "op_fits fit (Put_Back x) = fit x"
| "op_fits fit (Put_Front x) = fit x"
| "op_fits fit Take = True"

locale bounded_queue =
  fixes inv :: "'s \<Rightarrow> bool" and items :: "'s \<Rightarrow> 'a list" and cap :: "'s \<Rightarrow> nat" and fits :: "'s \<Rightarrow> 'a \<Rightarrow> bool"
    and step :: "'a qop \<Rightarrow> 's \<Rightarrow> ('a option \<times> bool \<times> 's) option"
  assumes put_back: "inv s \<Longrightarrow> fits s x \<Longrightarrow> \<exists>s'. step (Put_Back x) s = Some (None, length (items s) < cap s, s') \<and>
      items s' = (if length (items s) < cap s then items s @ [x] else items s) \<and> inv s' \<and> cap s' = cap s \<and> fits s' = fits s"
    and put_front: "inv s \<Longrightarrow> fits s x \<Longrightarrow> \<exists>s'. step (Put_Front x) s = Some (None, length (items s) < cap s, s') \<and>
      items s' = (if length (items s) < cap s then x # items s else items s) \<and> inv s' \<and> cap s' = cap s \<and> fits s' = fits s"
    and take_out: "inv s \<Longrightarrow> \<exists>s'. step Take s = Some (if items s = [] then None else Some (hd (items s)), items s \<noteq> [], s') \<and>
      items s' = tl (items s) \<and> inv s' \<and> cap s' = cap s \<and> fits s' = fits s"
begin

lemma step_refines:
  assumes "inv s" and "op_fits (fits s) p"
  shows "\<exists>s'. step p s = Some (fst (list_step (cap s) p (items s)), fst (snd (list_step (cap s) p (items s))), s') \<and>
    items s' = snd (snd (list_step (cap s) p (items s))) \<and> inv s' \<and> cap s' = cap s \<and> fits s' = fits s"
  using assms put_back [of s] put_front [of s] take_out [of s]
  by (cases p) (auto split: list.splits)

lemma run_refines:
  assumes "inv s" and "\<forall>p \<in> set ps. op_fits (fits s) p"
  shows "\<exists>s'. step_run step ps s = Some (fst (list_run (cap s) ps (items s)), s') \<and>
    items s' = snd (list_run (cap s) ps (items s)) \<and> inv s' \<and> cap s' = cap s"
  using assms
proof (induction ps arbitrary: s)
  case (Cons p ps)
  obtain s1 where s1: "step p s = Some (fst (list_step (cap s) p (items s)), fst (snd (list_step (cap s) p (items s))), s1)"
      "items s1 = snd (snd (list_step (cap s) p (items s)))" "inv s1" "cap s1 = cap s" "fits s1 = fits s"
    using step_refines [of s p] Cons.prems by auto
  have "\<forall>p \<in> set ps. op_fits (fits s1) p" using Cons.prems(2) s1(5) by simp
  then show ?case using Cons.IH [OF s1(3)] s1 by (auto simp: Let_def split: prod.splits)
qed simp

end

section \<open>Waking a waiting task\<close>

definition waiter_woken :: "nat \<Rightarrow> kernel \<Rightarrow> kernel \<Rightarrow> bool" where
  "waiter_woken e k k' \<longleftrightarrow> kinv k' \<and>
     (case kseq k (EventList e) of
        [] \<Rightarrow> k' = k
      | i # is \<Rightarrow> woken_up (owner i) k' \<and> only_task (owner i) k k' \<and> tcb k' = tcb k \<and> kseq k' (EventList e) = is \<and>
          (\<forall>l. l \<noteq> e \<longrightarrow> kseq k' (EventList l) = kseq k (EventList l)) \<and> xSchedulerRunning k' = xSchedulerRunning k \<and>
          (prio k (pxCurrentTCB k) < prio k (owner i) \<longrightarrow> swi_pending k') \<and> (swi_pending k \<longrightarrow> swi_pending k'))"

lemma wake_waiter_spec:
  assumes inv: "kinv k"
  shows "\<exists>k'. wake_waiter e k = Some k' \<and> waiter_woken e k k'"
proof (cases "kseq k (EventList e) = []")
  case True
  then show ?thesis using inv by (simp add: wake_waiter_def waiter_woken_def)
next
  case False
  obtain t "is" y k1 where k1: "kseq k (EventList e) = EventItem t # is" "xTaskRemoveFromEventList e k = Some (y, k1)" "event_removed e t y k k1"
    using xTaskRemoveFromEventList_spec [OF inv False] by blast
  let ?k' = "if y then portYIELD k1 else k1"
  have tcbs: "tcb k1 = tcb k"
  proof
    fix u show "tcb k1 u = tcb k u" using k1(3) by (cases "u = t") (simp_all add: event_removed_def only_task_def)
  qed
  have "waiter_woken e k ?k'"
    using k1(1,3) tcbs unfolding waiter_woken_def event_removed_def
    by (auto simp: portYIELD_def woken_up_def only_task_def ready_def)
  then show ?thesis using False k1(2) by (simp add: wake_waiter_def)
qed

text \<open>A call that does not block, on a queue that holds items.\<close>

lemma send_pass_serves:
  assumes q: "ring q" and inv: "kinv k" and room: "count q < capacity q" and x: "length x = item_size q" and pos: "pos \<noteq> queueOVERWRITE"
  shows "\<exists>q' k'. xQueueGenericSend_pass x pos tm n q k = Some (Return True, q', k') \<and> ring q' \<and> same_queue q q' \<and>
    waiter_woken (xTasksWaitingToReceive q) k k' \<and> contents q' = (if pos = queueSEND_TO_BACK then contents q @ [x] else x # contents q)"
proof -
  obtain q' where q': "prvCopyDataToQueue x pos q k = Some (False, q', k)" "ring q'" "same_queue q q'"
      "contents q' = (if pos = queueSEND_TO_BACK then contents q @ [x] else x # contents q)"
    using copy_back [OF q room x, of k] copy_front [OF q room x, of k] pos by (cases pos) auto
  obtain k' where k': "wake_waiter (xTasksWaitingToReceive q) k = Some k'" "waiter_woken (xTasksWaitingToReceive q) k k'"
    using wake_waiter_spec [OF inv] by blast
  have e: "xTasksWaitingToReceive q' = xTasksWaitingToReceive q" using q'(3) by (simp add: same_queue_def)
  have k0: "kseq k (EventList (xTasksWaitingToReceive q)) = [] \<Longrightarrow> k' = k" using k'(2) by (simp add: waiter_woken_def)
  have "xQueueGenericSend_pass x pos tm n q k = Some (Return True, q', k')"
    using room q'(1) k'(1) k0
    by (auto simp: xQueueGenericSend_pass_def xQueueGenericSend_critical_def sizes e)
  then show ?thesis using q' k' by blast
qed

lemma send_no_wait:
  assumes q: "ring q" and inv: "kinv k" and x: "length x = item_size q" and pos: "pos \<noteq> queueOVERWRITE"
  shows "\<exists>q' k'. xQueueGenericSend (Some x) n pos q k =
      (if may_wait n k
       then (if count q < capacity q then Some (Return True, q', k')
             else if n = 0 then Some (Return False, q, k) else xQueueGenericSend_pass x pos None n q k)
       else None) \<and>
    (count q < capacity q \<longrightarrow> ring q' \<and> same_queue q q' \<and> waiter_woken (xTasksWaitingToReceive q) k k' \<and>
      contents q' = (if pos = queueSEND_TO_BACK then contents q @ [x] else x # contents q))"
proof (cases "count q < capacity q")
  case True
  then show ?thesis
    using send_pass_serves [OF q inv True x pos, of None n] pos by (auto simp: xQueueGenericSend_def configASSERT_def)
next
  case False
  then have "n = 0 \<Longrightarrow> xQueueGenericSend_pass x pos None n q k = Some (Return False, q, k)"
    using pos by (simp add: xQueueGenericSend_pass_def xQueueGenericSend_critical_def sizes)
  then show ?thesis using False pos by (auto simp: xQueueGenericSend_def configASSERT_def)
qed

lemma receive_pass_serves:
  assumes q: "ring q" and inv: "kinv k" and some: "0 < count q"
  shows "\<exists>q' k'. xQueueReceive_pass tm n q k = Some (Return (Some (hd (contents q))), q', k') \<and>
    ring q' \<and> same_queue q q' \<and> waiter_woken (xTasksWaitingToSend q) k k' \<and> contents q' = tl (contents q)"
proof -
  obtain q1 where q1: "prvCopyDataFromQueue q = (hd (contents q), q1)" "ring (q1\<lparr>uxMessagesWaiting := uxMessagesWaiting q - 1\<rparr>)"
      "same_queue q (q1\<lparr>uxMessagesWaiting := uxMessagesWaiting q - 1\<rparr>)"
      "contents (q1\<lparr>uxMessagesWaiting := uxMessagesWaiting q - 1\<rparr>) = tl (contents q)"
    using copy_out [OF q some] by blast
  obtain k' where k': "wake_waiter (xTasksWaitingToSend q) k = Some k'" "waiter_woken (xTasksWaitingToSend q) k k'"
    using wake_waiter_spec [OF inv] by blast
  have e: "xTasksWaitingToSend q1 = xTasksWaitingToSend q" using q1(3) by (simp add: same_queue_def)
  show ?thesis
    using some q1 k' e by (simp add: xQueueReceive_pass_def xQueueReceive_critical_def sizes Let_def)
qed

lemma receive_no_wait:
  assumes q: "ring q" and inv: "kinv k"
  shows "\<exists>q' k'. xQueueReceive True n q k =
      (if may_wait n k
       then (if 0 < count q then Some (Return (Some (hd (contents q))), q', k')
             else if n = 0 then Some (Return None, q, k) else xQueueReceive_pass None n q k)
       else None) \<and>
    (0 < count q \<longrightarrow> ring q' \<and> same_queue q q' \<and> waiter_woken (xTasksWaitingToSend q) k k' \<and> contents q' = tl (contents q))"
proof (cases "0 < count q")
  case True
  then show ?thesis using receive_pass_serves [OF q inv True, of None n] by (auto simp: xQueueReceive_def configASSERT_def)
next
  case False
  then have "n = 0 \<Longrightarrow> xQueueReceive_pass None n q k = Some (Return None, q, k)"
    by (simp add: xQueueReceive_pass_def xQueueReceive_critical_def sizes)
  then show ?thesis using False by (auto simp: xQueueReceive_def configASSERT_def)
qed

section \<open>The calls implement the interface\<close>

definition queue_step :: "u8 list qop \<Rightarrow> Queue_t \<times> kernel \<Rightarrow> (u8 list option \<times> bool \<times> Queue_t \<times> kernel) option" where
  "queue_step p s =
     (case p of
        Put_Back x \<Rightarrow> (case xQueueGenericSend (Some x) 0 queueSEND_TO_BACK (fst s) (snd s) of
           Some (Return r, q, k) \<Rightarrow> Some (None, r, q, k) | _ \<Rightarrow> None)
      | Put_Front x \<Rightarrow> (case xQueueGenericSend (Some x) 0 queueSEND_TO_FRONT (fst s) (snd s) of
           Some (Return r, q, k) \<Rightarrow> Some (None, r, q, k) | _ \<Rightarrow> None)
      | Take \<Rightarrow> (case xQueueReceive True 0 (fst s) (snd s) of
           Some (Return r, q, k) \<Rightarrow> Some (r, r \<noteq> None, q, k) | _ \<Rightarrow> None))"

definition queue_ok :: "Queue_t \<times> kernel \<Rightarrow> bool" where
  "queue_ok s \<longleftrightarrow> ring (fst s) \<and> kinv (snd s)"

lemma queue_step_put:
  assumes ok: "queue_ok s" and x: "length x = item_size (fst s)"
  shows "\<exists>s'. queue_step (Put_Back x) s = Some (None, count (fst s) < capacity (fst s), s') \<and> queue_ok s' \<and> same_queue (fst s) (fst s') \<and>
      contents (fst s') = (if count (fst s) < capacity (fst s) then contents (fst s) @ [x] else contents (fst s))"
    and "\<exists>s'. queue_step (Put_Front x) s = Some (None, count (fst s) < capacity (fst s), s') \<and> queue_ok s' \<and> same_queue (fst s) (fst s') \<and>
      contents (fst s') = (if count (fst s) < capacity (fst s) then x # contents (fst s) else contents (fst s))"
proof -
  have q: "ring (fst s)" "kinv (snd s)" using ok by (simp_all add: queue_ok_def)
  have w: "may_wait 0 (snd s)" by (simp add: may_wait_def)
  show "\<exists>s'. queue_step (Put_Back x) s = Some (None, count (fst s) < capacity (fst s), s') \<and> queue_ok s' \<and> same_queue (fst s) (fst s') \<and>
      contents (fst s') = (if count (fst s) < capacity (fst s) then contents (fst s) @ [x] else contents (fst s))"
    using send_no_wait [OF q x, of queueSEND_TO_BACK 0] w q
    by (cases "count (fst s) < capacity (fst s)") (auto simp: queue_step_def queue_ok_def waiter_woken_def)
  show "\<exists>s'. queue_step (Put_Front x) s = Some (None, count (fst s) < capacity (fst s), s') \<and> queue_ok s' \<and> same_queue (fst s) (fst s') \<and>
      contents (fst s') = (if count (fst s) < capacity (fst s) then x # contents (fst s) else contents (fst s))"
    using send_no_wait [OF q x, of queueSEND_TO_FRONT 0] w q
    by (cases "count (fst s) < capacity (fst s)") (auto simp: queue_step_def queue_ok_def waiter_woken_def)
qed

lemma queue_step_take:
  assumes ok: "queue_ok s"
  shows "\<exists>s'. queue_step Take s = Some (if contents (fst s) = [] then None else Some (hd (contents (fst s))), contents (fst s) \<noteq> [], s') \<and>
    queue_ok s' \<and> same_queue (fst s) (fst s') \<and> contents (fst s') = tl (contents (fst s))"
proof -
  have q: "ring (fst s)" "kinv (snd s)" using ok by (simp_all add: queue_ok_def)
  have e: "contents (fst s) = [] \<longleftrightarrow> \<not> 0 < count (fst s)" by (metis length_0_conv length_contents neq0_conv)
  have w: "may_wait 0 (snd s)" by (simp add: may_wait_def)
  have nil: "count (fst s) = 0 \<Longrightarrow> tl (contents (fst s)) = contents (fst s)" using e by simp
  show ?thesis using receive_no_wait [OF q, of 0] w q nil unfolding e
    by (cases "0 < count (fst s)") (auto simp: queue_step_def queue_ok_def waiter_woken_def e)
qed

interpretation qu: bounded_queue queue_ok "\<lambda>s. contents (fst s)" "\<lambda>s. capacity (fst s)" "\<lambda>s x. length x = item_size (fst s)" queue_step
proof unfold_locales
  fix s and x :: "u8 list" assume "queue_ok s" "length x = item_size (fst s)"
  then show "\<exists>s'. queue_step (Put_Back x) s = Some (None, length (contents (fst s)) < capacity (fst s), s') \<and>
      contents (fst s') = (if length (contents (fst s)) < capacity (fst s) then contents (fst s) @ [x] else contents (fst s)) \<and>
      queue_ok s' \<and> capacity (fst s') = capacity (fst s) \<and> (\<lambda>x. length x = item_size (fst s')) = (\<lambda>x. length x = item_size (fst s))"
    and "\<exists>s'. queue_step (Put_Front x) s = Some (None, length (contents (fst s)) < capacity (fst s), s') \<and>
      contents (fst s') = (if length (contents (fst s)) < capacity (fst s) then x # contents (fst s) else contents (fst s)) \<and>
      queue_ok s' \<and> capacity (fst s') = capacity (fst s) \<and> (\<lambda>x. length x = item_size (fst s')) = (\<lambda>x. length x = item_size (fst s))"
    using queue_step_put [of s x] by (fastforce simp: same_queue_def)+
next
  fix s assume "queue_ok s"
  then show "\<exists>s'. queue_step Take s = Some (if contents (fst s) = [] then None else Some (hd (contents (fst s))), contents (fst s) \<noteq> [], s') \<and>
      contents (fst s') = tl (contents (fst s)) \<and> queue_ok s' \<and> capacity (fst s') = capacity (fst s) \<and>
      (\<lambda>x. length x = item_size (fst s')) = (\<lambda>x. length x = item_size (fst s))"
    using queue_step_take [of s] by (fastforce simp: same_queue_def)
qed

text \<open>A queue right after its creation.\<close>

lemma reset_ring:
  assumes "uxItemSize q \<noteq> 0" and "uxLength q \<noteq> 0" and small: "unat (uxLength q) * unat (uxItemSize q) < 2 ^ 32"
  shows "\<exists>q'. (\<exists>k'. xQueueGenericReset True q k = Some (q', k')) \<and> ring q' \<and> contents q' = [] \<and> capacity q' = unat (uxLength q) \<and>
    item_size q' = unat (uxItemSize q) \<and> cTxLock q' = - 1 \<and> cRxLock q' = - 1"
proof -
  let ?n = "unat (uxLength q)" and ?sz = "unat (uxItemSize q)"
  have pos: "0 < ?n" "0 < ?sz" using assms(1,2) by (simp_all add: unat_gt_0)
  have full: "uint (uxLength q * uxItemSize q) = int (?n * ?sz)"
    using small unat_mult_lem [of "uxLength q" "uxItemSize q"] by (simp flip: uint_nat) (metis of_nat_mult uint_nat)
  have one: "unat (uxLength q - 1) = ?n - 1" using assms(2) by (rule unat_dec)
  have "(?n - 1) * ?sz < 2 ^ 32" using small by (rule le_less_trans [rotated]) simp
  then have "unat ((uxLength q - 1) * uxItemSize q) = (?n - 1) * ?sz"
    using unat_mult_lem [of "uxLength q - 1" "uxItemSize q"] unfolding one by simp
  then have last: "uint ((uxLength q - 1) * uxItemSize q) = int ((?n - 1) * ?sz)" by (metis uint_nat)
  define q' where "q' = q\<lparr>u_first := pcHead q + int (?n * ?sz), uxMessagesWaiting := 0, pcWriteTo := pcHead q,
    u_second := pcHead q + int ((?n - 1) * ?sz), cRxLock := - 1, cTxLock := - 1\<rparr>"
  have "?sz \<le> (2 ^ 32 - 1) div ?n"
    using small pos by (simp add: less_eq_div_iff_mult_less_eq mult.commute)
  then have "uxItemSize q \<le> 0xffffffff div uxLength q" by (simp add: word_le_nat_alt unat_div)
  moreover have "1 \<le> uxLength q" using pos by (simp add: word_le_nat_alt)
  ultimately have "\<exists>k'. xQueueGenericReset True q k = Some (q', k')"
    by (simp add: xQueueGenericReset_def full last q'_def)
  moreover have sz: "capacity q' = ?n" "item_size q' = ?sz" "count q' = 0" by (simp_all add: q'_def capacity_def item_size_def count_def)
  moreover have rs: "read_slot q' = ?n - 1" by (rule read_slot_eq) (use pos in \<open>simp_all add: sz(2), simp_all add: q'_def\<close>)
  have "ring q'" using pos unfolding ring_def rs sz by (simp add: q'_def)
  moreover have "contents q' = []" by (simp add: contents_def sz)
  moreover have "cTxLock q' = - 1 \<and> cRxLock q' = - 1" by (simp add: q'_def)
  ultimately show ?thesis by blast
qed

section \<open>Properties\<close>

text \<open>A new queue of four two-byte items, used by the witnesses.\<close>

definition small_queue :: Queue_t where
  "small_queue = \<lparr>pcHead = 1000, pcWriteTo = 1000, u_first = 1008, u_second = 1006, xTasksWaitingToSend = 916, xTasksWaitingToReceive = 936,
     uxMessagesWaiting = 0, uxLength = 4, uxItemSize = 2, cRxLock = - 1, cTxLock = - 1, bytes = (\<lambda>_. 0)\<rparr>"

lemma small_queue_ok: "ring small_queue" "contents small_queue = []" "capacity small_queue = 4" "item_size small_queue = 2"
  by (simp_all add: ring_def contents_def capacity_def count_def item_size_def read_slot_def small_queue_def)

text \<open>
  C19: A queue is a bounded double-ended queue. Through every sequence of non-blocking sends to the
  back, sends to the front and receives, with items of the item size, all calls return, and the
  results and the final contents are those of the same operations on a list that refuses items when
  it is as long as the queue; the ring and scheduler invariants hold at the end.
\<close>

theorem queue_is_bounded_deque:
  assumes "ring q" and "kinv k" and "\<forall>p \<in> set ps. op_fits (\<lambda>x. length x = item_size q) p"
  shows "\<exists>q' k'. step_run queue_step ps (q, k) = Some (fst (list_run (capacity q) ps (contents q)), q', k') \<and>
    contents q' = snd (list_run (capacity q) ps (contents q)) \<and> ring q' \<and> kinv k'"
  using qu.run_refines [of "(q, k)" ps] assms by (auto simp: queue_ok_def)

theorem queue_is_bounded_deque_witness:
  "\<exists>q' k'. step_run queue_step [Put_Back [1, 2], Put_Front [3, 4], Put_Back [5, 6], Take, Take] (small_queue, two_tasks) =
     Some ([(None, True), (None, True), (None, True), (Some [3, 4], True), (Some [1, 2], True)], q', k') \<and> contents q' = [[5, 6]]"
  using queue_is_bounded_deque [of small_queue two_tasks "[Put_Back [1, 2], Put_Front [3, 4], Put_Back [5, 6], Take, Take]"]
  by (simp add: small_queue_ok two_tasks_fields del: step_run.simps) blast

text \<open>
  Creation. With a length and an item size whose product fits the address space, resetting a
  new queue gives an empty queue of that capacity that is unlocked and has its storage laid out as
  the ring invariant says.
\<close>

theorem xQueueGenericReset_empty:
  assumes "uxItemSize q \<noteq> 0" and "uxLength q \<noteq> 0" and "unat (uxLength q) * unat (uxItemSize q) < 2 ^ 32"
  shows "\<exists>q' k'. xQueueGenericReset True q k = Some (q', k') \<and> ring q' \<and> contents q' = [] \<and> capacity q' = unat (uxLength q) \<and>
    item_size q' = unat (uxItemSize q) \<and> cTxLock q' = - 1 \<and> cRxLock q' = - 1"
  using reset_ring [OF assms, of k] by blast

theorem xQueueGenericReset_empty_witness:
  "\<exists>q' k'. xQueueGenericReset True (small_queue\<lparr>uxMessagesWaiting := 3\<rparr>) two_tasks = Some (q', k') \<and> contents q' = [] \<and> capacity q' = 4"
  using xQueueGenericReset_empty [of "small_queue\<lparr>uxMessagesWaiting := 3\<rparr>" two_tasks] by (auto simp: small_queue_def)

text \<open>
  \<open>xQueueOverwrite\<close> on a queue of length 1 always succeeds and leaves exactly the new item,
  whatever the queue held.
\<close>

theorem xQueueOverwrite_replaces:
  assumes "ring q" and "kinv k" and "uxLength q = 1" and "length x = item_size q"
  shows "\<exists>q' k'. xQueueGenericSend (Some x) 0 queueOVERWRITE q k = Some (Return True, q', k') \<and> contents q' = [x] \<and> ring q' \<and> kinv k'"
proof -
  have one: "capacity q = 1" using assms(3) by (simp add: capacity_def)
  obtain q' where q': "prvCopyDataToQueue x queueOVERWRITE q k = Some (False, q', k)" "ring q'" "same_queue q q'" "contents q' = [x]"
    using copy_overwrite [OF assms(1) one assms(4)] by blast
  obtain k' where k': "wake_waiter (xTasksWaitingToReceive q) k = Some k'" "waiter_woken (xTasksWaitingToReceive q) k k'"
    using wake_waiter_spec [OF assms(2)] by blast
  have e: "xTasksWaitingToReceive q' = xTasksWaitingToReceive q" using q'(3) by (simp add: same_queue_def)
  have "\<exists>k''. xQueueGenericSend (Some x) 0 queueOVERWRITE q k = Some (Return True, q', k'') \<and> kinv k''"
    using q'(1) k' assms(2,3) e
    by (auto simp: xQueueGenericSend_def xQueueGenericSend_pass_def xQueueGenericSend_critical_def configASSERT_def may_wait_def waiter_woken_def)
  then show ?thesis using q' by blast
qed

theorem xQueueOverwrite_replaces_witness:
  "\<exists>q' k'. xQueueGenericSend (Some [7, 8]) 0 queueOVERWRITE (small_queue\<lparr>uxLength := 1, u_first := 1002, u_second := 1000\<rparr>) two_tasks =
     Some (Return True, q', k') \<and> contents q' = [[7, 8]]"
proof -
  let ?q = "small_queue\<lparr>uxLength := 1, u_first := 1002, u_second := 1000\<rparr>"
  have "ring ?q" "item_size ?q = 2" by (simp_all add: ring_def capacity_def count_def item_size_def read_slot_def small_queue_def)
  moreover have "uxLength ?q = 1" by simp
  ultimately show ?thesis using xQueueOverwrite_replaces [of ?q two_tasks "[7, 8]"] two_tasks_fields(1) by auto
qed

end
