(* ===== verification/Queue_Wait.thy ===== *)
theory Queue_Wait
  imports Queue_Ring
begin

text \<open>
  Blocking on queues of \<open>FreeRTOS/queue.c\<close>: a task that cannot be served is put on an event list of
  the queue until a send or receive wakes it; what interrupts do to a locked queue is made up for
  when the queue is unlocked.
\<close>

section \<open>Unlocking\<close>

lemma woken_up_other:
  assumes "woken_up t k" and "only_task u k k'" and "t \<noteq> u"
  shows "woken_up t k'"
  using assms by (auto simp: woken_up_def only_task_def ready_def)

definition unlocked :: "nat \<Rightarrow> nat \<Rightarrow> kernel \<Rightarrow> kernel \<Rightarrow> bool" where
  "unlocked e n k k' \<longleftrightarrow> kinv k' \<and> kseq k' (EventList e) = drop n (kseq k (EventList e)) \<and>
     (\<forall>l. l \<noteq> e \<longrightarrow> kseq k' (EventList l) = kseq k (EventList l)) \<and> tcb k' = tcb k \<and>
     (\<forall>t. EventItem t \<in> set (take n (kseq k (EventList e))) \<longrightarrow> woken_up t k') \<and>
     (\<forall>t. woken_up t k \<longrightarrow> kcont k (EventItem t) \<noteq> Some (EventList e) \<longrightarrow> woken_up t k') \<and>
     pxCurrentTCB k' = pxCurrentTCB k \<and> uxSchedulerSuspended k' = uxSchedulerSuspended k"

lemma unlock_loop_spec:
  assumes "kinv k"
  shows "\<exists>k'. unlock_loop e n k = Some k' \<and> unlocked e n k k'"
  using assms
proof (induction n arbitrary: k)
  case 0
  then show ?case by (simp add: unlocked_def)
next
  case (Suc n)
  show ?case
  proof (cases "kseq k (EventList e) = []")
    case True
    then show ?thesis using Suc.prems by (simp add: unlocked_def)
  next
    case False
    obtain t "is" y k1 where k1: "kseq k (EventList e) = EventItem t # is" "xTaskRemoveFromEventList e k = Some (y, k1)" "event_removed e t y k k1"
      using xTaskRemoveFromEventList_spec [OF Suc.prems False] by blast
    let ?k2 = "if y then vTaskMissedYield k1 else k1"
    have e2: "kcont ?k2 = kcont k1" "tcb ?k2 = tcb k1" "kseq ?k2 = kseq k1" "pxCurrentTCB ?k2 = pxCurrentTCB k1"
      "uxSchedulerSuspended ?k2 = uxSchedulerSuspended k1" by (simp_all add: vTaskMissedYield_def)
    have r: "kinv k1" "only_task t k k1" "tcb k1 t = tcb k t" "woken_up t k1" "kseq k1 (EventList e) = is"
      "\<And>l. l \<noteq> e \<Longrightarrow> kseq k1 (EventList l) = kseq k (EventList l)"
      using k1(1,3) by (simp_all add: event_removed_def)
    have tcbs: "tcb k1 = tcb k" using r(2,3) by (auto simp: only_task_def fun_eq_iff)
    have inv2: "kinv ?k2" using r(1) by (simp add: vTaskMissedYield_def)
    have w2: "woken_up u ?k2 = woken_up u k1" for u by (simp add: woken_up_def ready_def e2)
    obtain k' where k': "unlock_loop e n ?k2 = Some k'" "unlocked e n ?k2 k'" using Suc.IH [OF inv2] by blast
    have tn: "kcont k1 (EventItem t) \<noteq> Some (EventList e)" using r(4) by (auto simp: woken_up_def)
    have ct: "kcont k (EventItem t) = Some (EventList e)"
      using kseq_iff [of k "EventItem t" "EventList e"] k1(1) Suc.prems by (simp add: kinv_def)
    have keep: "woken_up u k'" if "woken_up u k" "kcont k (EventItem u) \<noteq> Some (EventList e)" for u
    proof -
      have "u \<noteq> t" using that(2) ct by auto
      then have "woken_up u k1" "kcont k1 (EventItem u) = kcont k (EventItem u)"
        using woken_up_other [OF that(1) r(2)] r(2) by (auto simp: only_task_def)
      then show ?thesis using k'(2) that(2) unfolding unlocked_def w2 e2 by simp
    qed
    have "woken_up t k'" using k'(2) r(4) tn unfolding unlocked_def w2 e2 by simp
    then have "unlocked e (Suc n) k k'"
      using k'(2) keep r(2,5,6) tcbs k1(1) unfolding unlocked_def e2 by (auto simp: only_task_def)
    then show ?thesis using k'(1) k1(1,2) by simp
  qed
qed

lemma prvUnlockQueue_spec:
  assumes inv: "kinv k" and ne: "xTasksWaitingToSend q \<noteq> xTasksWaitingToReceive q"
  shows "\<exists>k1 k'. prvUnlockQueue q k = Some (q\<lparr>cTxLock := - 1, cRxLock := - 1\<rparr>, k') \<and>
    unlocked (xTasksWaitingToReceive q) (nat (cTxLock q)) k k1 \<and> unlocked (xTasksWaitingToSend q) (nat (cRxLock q)) k1 k'"
proof -
  obtain k1 where k1: "unlock_loop (xTasksWaitingToReceive q) (nat (cTxLock q)) k = Some k1"
      "unlocked (xTasksWaitingToReceive q) (nat (cTxLock q)) k k1"
    using unlock_loop_spec [OF inv] by blast
  have "kinv k1" using k1(2) by (simp add: unlocked_def)
  then obtain k' where "unlock_loop (xTasksWaitingToSend q) (nat (cRxLock q)) k1 = Some k'"
      "unlocked (xTasksWaitingToSend q) (nat (cRxLock q)) k1 k'"
    using unlock_loop_spec by blast
  then show ?thesis using k1 by (auto simp: prvUnlockQueue_def Let_def)
qed

section \<open>Blocking\<close>

lemma no_pending: "kinv k \<Longrightarrow> uxSchedulerSuspended k = 0 \<Longrightarrow> kcont k i \<noteq> Some PendingReadyList"
  using kbut_D(8) [OF kinv_kbut] by blast

text \<open>The time-out check right after the entry time was taken, with no abort requested.\<close>

lemma check_at_entry:
  assumes "\<not> ucDelayAborted (tcb k (pxCurrentTCB k))" and "n \<noteq> 0"
  shows "xTaskCheckForTimeOut (vTaskInternalSetTimeOutState k) n (vTaskSuspendAll k) = (False, vTaskInternalSetTimeOutState k, n, vTaskSuspendAll k)"
  using assms by (simp add: xTaskCheckForTimeOut_def vTaskInternalSetTimeOutState_def vTaskSuspendAll_def Let_def word_gt_0)

text \<open>The running task is on the event list and a switch is pending.\<close>

definition parked :: "nat \<Rightarrow> u32 \<Rightarrow> kernel \<Rightarrow> kernel \<Rightarrow> bool" where
  "parked e n k k' \<longleftrightarrow> (let c = pxCurrentTCB k in
     only_task c k k' \<and> kinv k' \<and> swi_pending k' \<and> \<not> ready k' c \<and> tcb k' c = (tcb k c)\<lparr>ucDelayAborted := False\<rparr> \<and>
     kcont k' (EventItem c) = Some (EventList e) \<and>
     (if n = portMAX_DELAY then kcont k' (StateItem c) = Some SuspendedTaskList
      else delayed k' c \<and> kval k' (StateItem c) = xTickCount k + n) \<and>
     kseq k' (EventList e) = ordered_insert (kval k) (EventItem c) (kseq k (EventList e)) \<and>
     (\<forall>l. l \<noteq> e \<longrightarrow> kseq k' (EventList l) = kseq k (EventList l)))"

lemma block_list_kinds:
  assumes "kinv k"
  shows "if n = portMAX_DELAY then block_list n True k = SuspendedTaskList
    else block_list n True k = DelayedTaskList1 \<or> block_list n True k = DelayedTaskList2"
  using kbut_D(4) [OF kinv_kbut [OF assms]] by (auto simp: block_list_def)

lemma place_and_resume:
  assumes ok: "sched_ok idle k" and cur: "\<not> swi_pending k" "pxCurrentTCB k \<noteq> idle" and n: "n \<noteq> 0"
  shows "\<exists>k3 y k4. vTaskPlaceOnEventList e n (vTaskSuspendAll k) = Some k3 \<and> kinv k3 \<and> xTaskResumeAll k3 = Some (y, k4) \<and>
    parked e n k (if y then k4 else portYIELD k4) \<and> sched_ok idle (if y then k4 else portYIELD k4)"
proof -
  let ?c = "pxCurrentTCB k" and ?k1 = "vTaskSuspendAll k"
  have inv: "kinv k" and rd: "ready k ?c" and run: "uxSchedulerSuspended k = 0" using ok cur by (simp_all add: sched_ok_def)
  have inv1: "kinv ?k1" using inv kcore_fields [of ?k1 k] by (simp add: vTaskSuspendAll_def kinv_def ktime_def)
  have c1: "pxCurrentTCB ?k1 = ?c" "kcont ?k1 = kcont k" "kseq ?k1 = kseq k" "kval ?k1 = kval k" "xTickCount ?k1 = xTickCount k"
    "block_list n True ?k1 = block_list n True k" "tcb ?k1 = tcb k" "uxSchedulerSuspended ?k1 = 1"
    using run by (simp_all add: vTaskSuspendAll_def block_list_def)
  have rd1: "ready ?k1 (pxCurrentTCB ?k1)" using rd by (simp add: ready_def c1)
  obtain k3 where k3: "vTaskPlaceOnEventList e n ?k1 = Some k3" "event_placed e n ?k1 k3"
    using vTaskPlaceOnEventList_spec [OF inv1 rd1 n] by blast
  note P = k3(2) [unfolded event_placed_def Let_def c1]
  have o: "only_task ?c ?k1 k3" using P by simp
  have f3: "uxSchedulerSuspended k3 = 1" "xPendedTicks k3 = 0" "uxCurrentNumberOfTasks k3 > 0"
    using o ok c1(8) by (simp_all add: only_task_def sched_ok_def vTaskSuspendAll_def)
  have core3: "kcore k3" "ktime k3" using P by (simp_all add: kinv_def)
  have bl: "if n = portMAX_DELAY then block_list n True k = SuspendedTaskList
    else block_list n True k = DelayedTaskList1 \<or> block_list n True k = DelayedTaskList2" by (rule block_list_kinds [OF inv])
  have nopend: "kseq k3 PendingReadyList = []"
  proof -
    have "kcont k3 i \<noteq> Some PendingReadyList" for i
      using no_pending [OF inv run, of i] P bl c1(2) by (cases i; cases "owner i = ?c") (auto simp: only_task_def split: if_splits)
    then show ?thesis using kseq_iff [OF core3(1)] by (metis last_in_set)
  qed
  define k' where "k' = k3\<lparr>uxSchedulerSuspended := 0, swi_pending := True\<rparr>"
  have res: "xTaskResumeAll k3 = Some (xYieldPending k3, if xYieldPending k3 then portYIELD (k3\<lparr>uxSchedulerSuspended := 0\<rparr>)
      else k3\<lparr>uxSchedulerSuspended := 0\<rparr>)" by (rule xTaskResumeAll_quiet [OF f3(1) nopend f3(2,3)])
  have e': "(if xYieldPending k3 then portYIELD (k3\<lparr>uxSchedulerSuspended := 0\<rparr>) else portYIELD (k3\<lparr>uxSchedulerSuspended := 0\<rparr>)) = k'"
    by (simp add: portYIELD_def k'_def)
  have ls': "ls k' = ls k3" "tcb k' = tcb k3" by (simp_all add: k'_def)
  have inv': "kinv k'" using core3 nopend kcore_fields [of k' k3] by (simp add: kinv_def ktime_def k'_def)
  have o': "only_task ?c k k'" using o run by (simp add: only_task_def k'_def vTaskSuspendAll_def)
  have pk: "parked e n k k'"
    unfolding parked_def Let_def using P bl o' inv' by (auto simp: ls' ready_def delayed_def k'_def split: if_splits)
  moreover have "sched_ok idle k'" by (rule sched_ok_only_task [OF ok inv' o']) (use cur in \<open>simp_all add: k'_def\<close>)
  ultimately show ?thesis using k3(1) P res e' by (cases "xYieldPending k3") auto
qed

text \<open>A queue that no interrupted call holds locked.\<close>

definition queue_free :: "Queue_t \<Rightarrow> bool" where
  "queue_free q \<longleftrightarrow> cRxLock q = - 1 \<and> cTxLock q = - 1"

lemma lock_unlock:
  assumes "queue_free q" and "kinv k"
  shows "prvUnlockQueue (prvLockQueue q) k = Some (q, k)"
  using assms by (simp add: queue_free_def prvLockQueue_def prvUnlockQueue_def Let_def)

lemma lock_fields:
  "prvIsQueueEmpty (prvLockQueue q) = prvIsQueueEmpty q" "prvIsQueueFull (prvLockQueue q) = prvIsQueueFull q"
  "xTasksWaitingToSend (prvLockQueue q) = xTasksWaitingToSend q" "xTasksWaitingToReceive (prvLockQueue q) = xTasksWaitingToReceive q"
  by (simp_all add: prvLockQueue_def prvIsQueueEmpty_def prvIsQueueFull_def Let_def)

lemma park_blocks:
  assumes ok: "sched_ok idle k" and cur: "\<not> swi_pending k" "pxCurrentTCB k \<noteq> idle" "\<not> ucDelayAborted (tcb k (pxCurrentTCB k))"
    and n: "n \<noteq> 0" and must: "must_wait (prvLockQueue q)" and free: "queue_free q"
  shows "\<exists>k2 k'. queue_park must_wait e (vTaskInternalSetTimeOutState k) n (prvLockQueue q) (vTaskSuspendAll k) =
      Some (Blocked (vTaskInternalSetTimeOutState k) n, k2) \<and>
    queue_leave (Blocked (vTaskInternalSetTimeOutState k) n) (prvLockQueue q) k2 = Some (q, k') \<and> parked e n k k' \<and> sched_ok idle k'"
proof -
  obtain k3 y k4 where p: "vTaskPlaceOnEventList e n (vTaskSuspendAll k) = Some k3" "kinv k3" "xTaskResumeAll k3 = Some (y, k4)"
      "parked e n k (if y then k4 else portYIELD k4)" "sched_ok idle (if y then k4 else portYIELD k4)"
    using place_and_resume [OF ok cur(1,2) n] by blast
  show ?thesis using p check_at_entry [OF cur(3) n] must lock_unlock [OF free p(2)]
    by (auto simp: queue_park_def queue_leave_def)
qed

lemma receive_blocks:
  assumes ok: "sched_ok idle k" and cur: "\<not> swi_pending k" "pxCurrentTCB k \<noteq> idle" "\<not> ucDelayAborted (tcb k (pxCurrentTCB k))"
    and n: "n \<noteq> 0" and q: "count q = 0" "queue_free q"
  shows "\<exists>k'. xQueueReceive True n q k = Some (Loop (vTaskInternalSetTimeOutState k) n, q, k') \<and>
    parked (xTasksWaitingToReceive q) n k k' \<and> sched_ok idle k'"
proof -
  have must: "prvIsQueueEmpty (prvLockQueue q)" using q(1) unfolding lock_fields by (simp add: prvIsQueueEmpty_def sizes)
  obtain k2 k' where p: "queue_park prvIsQueueEmpty (xTasksWaitingToReceive q) (vTaskInternalSetTimeOutState k) n (prvLockQueue q) (vTaskSuspendAll k) =
      Some (Blocked (vTaskInternalSetTimeOutState k) n, k2)"
      "queue_leave (Blocked (vTaskInternalSetTimeOutState k) n) (prvLockQueue q) k2 = Some (q, k')"
      "parked (xTasksWaitingToReceive q) n k k'" "sched_ok idle k'"
    using park_blocks [OF ok cur n, of prvIsQueueEmpty q "xTasksWaitingToReceive q"] must q(2) by blast
  have "may_wait n k" using ok by (simp add: may_wait_def sched_ok_def)
  then have "xQueueReceive True n q k = Some (Loop (vTaskInternalSetTimeOutState k) n, q, k')"
    using p(1,2) q(1) n
    by (simp add: xQueueReceive_def configASSERT_def xQueueReceive_pass_def xQueueReceive_critical_def sizes entry_time_def receive_wait_def
        lock_fields receive_result_def Let_def)
  then show ?thesis using p(3,4) by blast
qed

lemma send_blocks:
  assumes ok: "sched_ok idle k" and cur: "\<not> swi_pending k" "pxCurrentTCB k \<noteq> idle" "\<not> ucDelayAborted (tcb k (pxCurrentTCB k))"
    and n: "n \<noteq> 0" and q: "count q = capacity q" "queue_free q" and pos: "pos \<noteq> queueOVERWRITE"
  shows "\<exists>k'. xQueueGenericSend (Some x) n pos q k = Some (Loop (vTaskInternalSetTimeOutState k) n, q, k') \<and>
    parked (xTasksWaitingToSend q) n k k' \<and> sched_ok idle k'"
proof -
  have must: "prvIsQueueFull (prvLockQueue q)" using q(1) unfolding lock_fields by (simp add: prvIsQueueFull_def full_iff)
  obtain k2 k' where p: "queue_park prvIsQueueFull (xTasksWaitingToSend q) (vTaskInternalSetTimeOutState k) n (prvLockQueue q) (vTaskSuspendAll k) =
      Some (Blocked (vTaskInternalSetTimeOutState k) n, k2)"
      "queue_leave (Blocked (vTaskInternalSetTimeOutState k) n) (prvLockQueue q) k2 = Some (q, k')"
      "parked (xTasksWaitingToSend q) n k k'" "sched_ok idle k'"
    using park_blocks [OF ok cur n, of prvIsQueueFull q "xTasksWaitingToSend q"] must q(2) by blast
  have "may_wait n k" using ok by (simp add: may_wait_def sched_ok_def)
  then have "xQueueGenericSend (Some x) n pos q k = Some (Loop (vTaskInternalSetTimeOutState k) n, q, k')"
    using p(1,2) q(1) n pos
    by (simp add: xQueueGenericSend_def configASSERT_def xQueueGenericSend_pass_def xQueueGenericSend_critical_def sizes entry_time_def
        lock_fields Let_def)
  then show ?thesis using p(3,4) by blast
qed

section \<open>Properties\<close>

text \<open>
  C22: A receiver that finds the queue empty is served by the next send. The call blocks, with the
  task on the queue's event list until its time is up; when it is the first waiting task and some
  task sends an item, the send succeeds, the receiver is ready again, with a switch requested when
  it outranks the running task; and when it runs, its next pass through the loop returns that item.
  The queue and scheduler invariants hold throughout.
\<close>

theorem receiver_served_by_send:
  assumes "sched_ok idle k" and "\<not> swi_pending k" and "pxCurrentTCB k = c" and "c \<noteq> idle" and "\<not> ucDelayAborted (tcb k c)"
    and "n \<noteq> 0" and "ring q" and "queue_free q" and "contents q = []" and "length x = item_size q"
  shows "\<exists>tm k1. xQueueReceive True n q k = Some (Loop tm n, q, k1) \<and> sched_ok idle k1 \<and> parked (xTasksWaitingToReceive q) n k k1 \<and>
    (\<forall>k2 is. kinv k2 \<and> uxSchedulerSuspended k2 = 0 \<and> kseq k2 (EventList (xTasksWaitingToReceive q)) = EventItem c # is \<longrightarrow>
       (\<exists>q' k3. xQueueGenericSend (Some x) 0 queueSEND_TO_BACK q k2 = Some (Return True, q', k3) \<and> ready k3 c \<and> kinv k3 \<and>
          (prio k2 (pxCurrentTCB k2) < prio k2 c \<longrightarrow> swi_pending k3) \<and>
          (\<forall>k4. kinv k4 \<longrightarrow> (\<exists>q'' k5. xQueueReceive_pass (Some tm) n q' k4 = Some (Return (Some x), q'', k5) \<and>
             ring q'' \<and> contents q'' = [] \<and> kinv k5))))"
proof -
  have c0: "count q = 0" using assms(9) length_contents [of q] by simp
  have room: "count q < capacity q" using c0 ring_D(2) [OF assms(7)] by simp
  obtain k1 where k1: "xQueueReceive True n q k = Some (Loop (vTaskInternalSetTimeOutState k) n, q, k1)"
      "parked (xTasksWaitingToReceive q) n k k1" "sched_ok idle k1"
    using receive_blocks [OF assms(1,2) _ _ assms(6) c0 assms(8)] assms(3,4,5) by blast
  have "\<exists>q' k3. xQueueGenericSend (Some x) 0 queueSEND_TO_BACK q k2 = Some (Return True, q', k3) \<and> ready k3 c \<and> kinv k3 \<and>
          (prio k2 (pxCurrentTCB k2) < prio k2 c \<longrightarrow> swi_pending k3) \<and>
          (\<forall>k4. kinv k4 \<longrightarrow> (\<exists>q'' k5. xQueueReceive_pass (Some tm) n q' k4 = Some (Return (Some x), q'', k5) \<and>
             ring q'' \<and> contents q'' = [] \<and> kinv k5))"
    if k2: "kinv k2" "uxSchedulerSuspended k2 = 0" "kseq k2 (EventList (xTasksWaitingToReceive q)) = EventItem c # is" for k2 "is" tm
  proof -
    have w: "may_wait 0 k2" by (simp add: may_wait_def)
    obtain q' k3 where s: "xQueueGenericSend (Some x) 0 queueSEND_TO_BACK q k2 = Some (Return True, q', k3)" "ring q'" "same_queue q q'"
        "waiter_woken (xTasksWaitingToReceive q) k2 k3" "contents q' = [x]"
      using send_no_wait [OF assms(7) k2(1) assms(10), of queueSEND_TO_BACK 0] room w assms(9) by auto
    have k3: "kinv k3" "woken_up c k3" "only_task c k2 k3" "prio k2 (pxCurrentTCB k2) < prio k2 c \<longrightarrow> swi_pending k3"
      using s(4) k2(3) by (simp_all add: waiter_woken_def)
    have "ready k3 c" using k3(2,3) k2(2) by (auto simp: woken_up_def only_task_def)
    moreover have "\<exists>q'' k5. xQueueReceive_pass (Some tm) n q' k4 = Some (Return (Some x), q'', k5) \<and> ring q'' \<and> contents q'' = [] \<and> kinv k5"
      if k4: "kinv k4" for k4
    proof -
      have c1: "0 < count q'" using s(5) length_contents [of q'] by simp
      show ?thesis using receive_pass_serves [OF s(2) k4 c1, of "Some tm" n] s(5) by (auto simp: waiter_woken_def)
    qed
    ultimately show ?thesis using s(1) k3 by blast
  qed
  then show ?thesis using k1 by blast
qed

theorem receiver_served_by_send_witness:
  "\<exists>tm k1. xQueueReceive True 100 small_queue two_tasks = Some (Loop tm 100, small_queue, k1) \<and>
    parked 936 100 two_tasks k1 \<and>
    (\<forall>k2 is. kinv k2 \<and> uxSchedulerSuspended k2 = 0 \<and> kseq k2 (EventList 936) = EventItem 2 # is \<longrightarrow>
       (\<exists>q' k3. xQueueGenericSend (Some [1, 2]) 0 queueSEND_TO_BACK small_queue k2 = Some (Return True, q', k3) \<and> ready k3 2))"
proof -
  have "queue_free small_queue" "xTasksWaitingToReceive small_queue = 936" "\<not> ucDelayAborted (tcb two_tasks 2)"
    by (simp_all add: queue_free_def small_queue_def two_tasks_def)
  then show ?thesis
    using receiver_served_by_send [OF two_tasks_ok, of 2 100 small_queue "[1, 2]"] small_queue_ok two_tasks_fields
    by (simp del: One_nat_def) blast
qed

text \<open>
  C23: A sender that finds the queue full is served by the next receive. The call blocks with the
  task on the list of senders; when it is the first there and some task receives, the receive
  returns the oldest item, the sender is ready again, and its next pass through the loop appends its
  item. The invariants hold throughout.
\<close>

theorem sender_served_by_receive:
  assumes "sched_ok idle k" and "\<not> swi_pending k" and "pxCurrentTCB k = c" and "c \<noteq> idle" and "\<not> ucDelayAborted (tcb k c)"
    and "n \<noteq> 0" and "ring q" and "queue_free q" and "length (contents q) = capacity q" and "length x = item_size q"
  shows "\<exists>tm k1. xQueueGenericSend (Some x) n queueSEND_TO_BACK q k = Some (Loop tm n, q, k1) \<and> sched_ok idle k1 \<and>
    parked (xTasksWaitingToSend q) n k k1 \<and>
    (\<forall>k2 is. kinv k2 \<and> uxSchedulerSuspended k2 = 0 \<and> kseq k2 (EventList (xTasksWaitingToSend q)) = EventItem c # is \<longrightarrow>
       (\<exists>q' k3. xQueueReceive True 0 q k2 = Some (Return (Some (hd (contents q))), q', k3) \<and> ready k3 c \<and> kinv k3 \<and>
          (\<forall>k4. kinv k4 \<longrightarrow> (\<exists>q'' k5. xQueueGenericSend_pass x queueSEND_TO_BACK (Some tm) n q' k4 = Some (Return True, q'', k5) \<and>
             ring q'' \<and> contents q'' = tl (contents q) @ [x] \<and> kinv k5))))"
proof -
  have full: "count q = capacity q" using assms(9) by simp
  have some: "0 < count q" using full ring_D(2) [OF assms(7)] by simp
  obtain k1 where k1: "xQueueGenericSend (Some x) n queueSEND_TO_BACK q k = Some (Loop (vTaskInternalSetTimeOutState k) n, q, k1)"
      "parked (xTasksWaitingToSend q) n k k1" "sched_ok idle k1"
    using send_blocks [OF assms(1,2) _ _ assms(6) full assms(8), of queueSEND_TO_BACK x] assms(3,4,5) by blast
  have "\<exists>q' k3. xQueueReceive True 0 q k2 = Some (Return (Some (hd (contents q))), q', k3) \<and> ready k3 c \<and> kinv k3 \<and>
          (\<forall>k4. kinv k4 \<longrightarrow> (\<exists>q'' k5. xQueueGenericSend_pass x queueSEND_TO_BACK (Some tm) n q' k4 = Some (Return True, q'', k5) \<and>
             ring q'' \<and> contents q'' = tl (contents q) @ [x] \<and> kinv k5))"
    if k2: "kinv k2" "uxSchedulerSuspended k2 = 0" "kseq k2 (EventList (xTasksWaitingToSend q)) = EventItem c # is" for k2 "is" tm
  proof -
    obtain q' k3 where r: "xQueueReceive True 0 q k2 = Some (Return (Some (hd (contents q))), q', k3)" "ring q'" "same_queue q q'"
        "waiter_woken (xTasksWaitingToSend q) k2 k3" "contents q' = tl (contents q)"
      using receive_no_wait [OF assms(7) k2(1), of 0] some by (auto simp: may_wait_def)
    have k3: "kinv k3" "woken_up c k3" "only_task c k2 k3" using r(4) k2(3) by (simp_all add: waiter_woken_def)
    have "ready k3 c" using k3(2,3) k2(2) by (auto simp: woken_up_def only_task_def)
    moreover have room: "count q' < capacity q'" "length x = item_size q'"
      using arg_cong [OF r(5), of length] r(3) full some assms(10) by (simp_all add: same_queue_def)
    moreover have "\<exists>q'' k5. xQueueGenericSend_pass x queueSEND_TO_BACK (Some tm) n q' k4 = Some (Return True, q'', k5) \<and>
             ring q'' \<and> contents q'' = tl (contents q) @ [x] \<and> kinv k5" if k4: "kinv k4" for k4
      using send_pass_serves [OF r(2) k4 room(1,2), of queueSEND_TO_BACK "Some tm" n] r(5) by (auto simp: waiter_woken_def)
    ultimately show ?thesis using r(1) k3(1) by blast
  qed
  then show ?thesis using k1 by blast
qed

text \<open>A full queue of one item.\<close>

theorem sender_served_by_receive_witness:
  "\<exists>q tm k1. contents q = [[0, 0]] \<and> xQueueGenericSend (Some [1, 2]) 100 queueSEND_TO_BACK q two_tasks = Some (Loop tm 100, q, k1) \<and>
    parked (xTasksWaitingToSend q) 100 two_tasks k1"
proof -
  let ?q = "small_queue\<lparr>uxLength := 1, uxMessagesWaiting := 1, u_first := 1002, u_second := 1000\<rparr>"
  have size: "item_size ?q = 2" "capacity ?q = 1" "count ?q = 1" "read_slot ?q = 0"
    by (simp_all add: read_slot_def item_size_def small_queue_def capacity_def count_def)
  then have q: "ring ?q" "item_size ?q = 2" "capacity ?q = 1" "queue_free ?q" "contents ?q = [[0, 0]]"
    unfolding ring_def queue_free_def contents_def slot_def size
    by (simp_all add: small_queue_def memcpy_from_def upt_rec)
  moreover have "\<not> ucDelayAborted (tcb two_tasks 2)" by (simp add: two_tasks_def)
  ultimately show ?thesis
    using sender_served_by_receive [OF two_tasks_ok two_tasks_fields(11,2), of 100 ?q "[1, 2]"] by (auto simp del: One_nat_def)
qed

text \<open>
  C24: Nothing an interrupt does to a locked queue is lost. While a task with the scheduler suspended
  holds the queue locked, an item sent from an interrupt is stored and counted; unlocking then wakes
  as many waiting receivers, in their order, as items were sent, unlocks the queue and keeps the
  contents and the invariants.
\<close>

theorem isr_send_to_locked_queue:
  assumes "ring q" and "kinv k" and "0 \<le> cTxLock q" and "cTxLock q < 127" and "contents q = xs" and "length xs < capacity q"
    and "length x = item_size q" and "xTasksWaitingToSend q \<noteq> xTasksWaitingToReceive q"
  shows "\<exists>q1 q2 k2. xQueueGenericSendFromISR (Some x) queueSEND_TO_BACK q k = Some (True, False, q1, k) \<and>
    contents q1 = xs @ [x] \<and> prvUnlockQueue q1 k = Some (q2, k2) \<and> contents q2 = xs @ [x] \<and> ring q2 \<and> queue_free q2 \<and> kinv k2 \<and>
    (\<forall>t. EventItem t \<in> set (take (nat (cTxLock q) + 1) (kseq k (EventList (xTasksWaitingToReceive q)))) \<longrightarrow> woken_up t k2)"
proof -
  have room: "count q < capacity q" using assms(5,6) by auto
  obtain q' where q': "prvCopyDataToQueue x queueSEND_TO_BACK q k = Some (False, q', k)" "ring q'" "same_queue q q'" "contents q' = xs @ [x]"
    using copy_back [OF assms(1) room assms(7), of k] assms(5) by blast
  let ?q1 = "q'\<lparr>cTxLock := cTxLock q + 1\<rparr>"
  have lk: "contents (q'\<lparr>cTxLock := a\<rparr>) = contents q'" "contents (q'\<lparr>cTxLock := a, cRxLock := b\<rparr>) = contents q'"
    "ring (q'\<lparr>cTxLock := a, cRxLock := b\<rparr>) = ring q'" for a b
    by (simp_all add: contents_def ring_def slot_def read_slot_def item_size_def capacity_def count_def)
  have run: "xQueueGenericSendFromISR (Some x) queueSEND_TO_BACK q k = Some (True, False, ?q1, k)"
    using q'(1) room assms(3,4) by (simp add: xQueueGenericSendFromISR_def configASSERT_def sizes)
  have e: "xTasksWaitingToSend ?q1 = xTasksWaitingToSend q" "xTasksWaitingToReceive ?q1 = xTasksWaitingToReceive q" "cRxLock ?q1 = cRxLock q"
    using q'(3) by (simp_all add: same_queue_def)
  obtain k1 k2 where u: "prvUnlockQueue ?q1 k = Some (?q1\<lparr>cTxLock := - 1, cRxLock := - 1\<rparr>, k2)"
      "unlocked (xTasksWaitingToReceive q) (nat (cTxLock q + 1)) k k1" "unlocked (xTasksWaitingToSend q) (nat (cRxLock q)) k1 k2"
    using prvUnlockQueue_spec [OF assms(2), of ?q1] assms(8) e by auto
  have "woken_up t k2" if "EventItem t \<in> set (take (nat (cTxLock q) + 1) (kseq k (EventList (xTasksWaitingToReceive q))))" for t
  proof -
    have "woken_up t k1" using u(2) that assms(3) by (simp add: unlocked_def nat_add_distrib)
    then show ?thesis using u(3) by (auto simp: unlocked_def woken_up_def)
  qed
  moreover have "kinv k2" using u(3) by (simp add: unlocked_def)
  ultimately show ?thesis using run u(1) q'(2,4) by (auto simp: lk queue_free_def)
qed

theorem isr_send_to_locked_queue_witness:
  "\<exists>q1 q2 k2. xQueueGenericSendFromISR (Some [1, 2]) queueSEND_TO_BACK (prvLockQueue small_queue) two_tasks = Some (True, False, q1, two_tasks) \<and>
    prvUnlockQueue q1 two_tasks = Some (q2, k2) \<and> contents q2 = [[1, 2]] \<and> queue_free q2"
proof -
  let ?q = "prvLockQueue small_queue"
  have "?q = small_queue\<lparr>cRxLock := 0, cTxLock := 0\<rparr>" by (simp add: prvLockQueue_def small_queue_def)
  then have "ring ?q" "contents ?q = []" "capacity ?q = 4" "item_size ?q = 2" "cTxLock ?q = 0" "xTasksWaitingToSend ?q \<noteq> xTasksWaitingToReceive ?q"
    by (simp_all add: ring_def contents_def capacity_def count_def item_size_def read_slot_def small_queue_def)
  then show ?thesis
    using isr_send_to_locked_queue [of ?q two_tasks "[]" "[1, 2]"] two_tasks_fields(1) by auto
qed

end
