(* ===== verification/Queue_Mutex.thy ===== *)
theory Queue_Mutex
  imports Queue_Wait
begin

text \<open>
  Semaphores and mutexes of \<open>FreeRTOS/queue.c\<close>: a semaphore is a counter, a mutex has at most one
  holder, who inherits the priority of the tasks that wait for it, and a recursive mutex is released
  by as many gives as there were takes.
\<close>

section \<open>Mutexes\<close>

definition mutex :: "Queue_t \<Rightarrow> bool" where
  "mutex q \<longleftrightarrow> pcHead q = 0 \<and> uxItemSize q = 0 \<and> uxLength q = 1 \<and>
     (uxMessagesWaiting q = 0 \<and> 0 < u_first q \<or> uxMessagesWaiting q = 1 \<and> u_first q = 0)"

definition held_by :: "nat \<Rightarrow> Queue_t \<Rightarrow> bool" where
  "held_by h q \<longleftrightarrow> mutex q \<and> h \<noteq> 0 \<and> u_first q = int h"

definition not_held :: "Queue_t \<Rightarrow> bool" where
  "not_held q \<longleftrightarrow> mutex q \<and> u_first q = 0"

lemma mutex_cases: "mutex q \<Longrightarrow> not_held q \<or> (\<exists>h. held_by h q)"
  by (auto simp: mutex_def not_held_def held_by_def intro!: exI [of _ "nat (u_first q)"])

lemma mutex_take:
  assumes q: "not_held q" and inv: "kinv k" and c: "pxCurrentTCB k \<noteq> 0" and w: "may_wait n k"
  shows "\<exists>q' k'. xQueueSemaphoreTake n q k = Some (Return True, False, q', k') \<and> held_by (pxCurrentTCB k) q' \<and>
    waiter_woken (xTasksWaitingToSend q) (set_tcb (pxCurrentTCB k) (uxMutexesHeld_update (\<lambda>m. m + 1)) k) k' \<and>
    u_second q' = u_second q"
proof -
  let ?k1 = "set_tcb (pxCurrentTCB k) (uxMutexesHeld_update (\<lambda>m. m + 1)) k"
  have m: "uxMessagesWaiting q = 1" "pcHead q = 0" "uxItemSize q = 0" "uxLength q = 1" using q by (auto simp: not_held_def mutex_def)
  have "kinv ?k1" using kinv_tcb [OF inv] by simp
  then obtain k' where k': "wake_waiter (xTasksWaitingToSend q) ?k1 = Some k'" "waiter_woken (xTasksWaitingToSend q) ?k1 k'"
    using wake_waiter_spec by blast
  then show ?thesis
    using m c w by (auto simp: xQueueSemaphoreTake_def xQueueSemaphoreTake_pass_def xQueueSemaphoreTake_critical_def configASSERT_def
        pvTaskIncrementMutexHeldCount_def held_by_def mutex_def Let_def)
qed

lemma mutex_refused:
  assumes "held_by h q"
  shows "xQueueSemaphoreTake 0 q k = Some (Return False, False, q, k)"
  using assms by (auto simp: held_by_def mutex_def xQueueSemaphoreTake_def xQueueSemaphoreTake_pass_def xQueueSemaphoreTake_critical_def
      configASSERT_def may_wait_def)

text \<open>Giving back: only the holder may, and the first waiting task is woken.\<close>

lemma mutex_give:
  assumes q: "held_by (pxCurrentTCB k) q" and inv: "kinv k" and rd: "ready k (pxCurrentTCB k)"
    and held: "uxMutexesHeld (tcb k (pxCurrentTCB k)) \<noteq> 0"
  shows "\<exists>q' k1 k' c. xQueueGenericSend None 0 queueSEND_TO_BACK q k = Some (Return True, q', k') \<and> not_held q' \<and>
    c = (tcb k (pxCurrentTCB k))\<lparr>uxMutexesHeld := uxMutexesHeld (tcb k (pxCurrentTCB k)) - 1,
          uxPriority := (if uxMutexesHeld (tcb k (pxCurrentTCB k)) = 1 then uxBasePriority (tcb k (pxCurrentTCB k)) else prio k (pxCurrentTCB k))\<rparr> \<and>
    reprioritised (pxCurrentTCB k) c k k1 \<and>
    (kseq k (EventList (xTasksWaitingToReceive q)) \<noteq> [] \<longrightarrow> waiter_woken (xTasksWaitingToReceive q) k1 k') \<and>
    (kseq k (EventList (xTasksWaitingToReceive q)) = [] \<longrightarrow> k' = k1 \<or> k' = portYIELD k1) \<and> u_second q' = u_second q"
proof -
  let ?t = "pxCurrentTCB k"
  have m: "uxMessagesWaiting q = 0" "pcHead q = 0" "uxItemSize q = 0" "uxLength q = 1" "u_first q = int ?t" "?t \<noteq> 0"
    using q by (auto simp: held_by_def mutex_def)
  obtain r k1 c where d: "xTaskPriorityDisinherit ?t k = Some (r, k1)" "reprioritised ?t c k k1"
      "c = (tcb k ?t)\<lparr>uxMutexesHeld := uxMutexesHeld (tcb k ?t) - 1,
          uxPriority := (if uxMutexesHeld (tcb k ?t) = 1 then uxBasePriority (tcb k ?t) else prio k ?t)\<rparr>"
    using disinherit_spec [OF inv m(6) refl rd held] by blast
  have ev: "kseq k1 (EventList l) = kseq k (EventList l)" for l using d(2) by (simp add: reprioritised_def)
  have "kinv k1" using d(2) by (simp add: reprioritised_def)
  then obtain k2 where k2: "wake_waiter (xTasksWaitingToReceive q) k1 = Some k2" "waiter_woken (xTasksWaitingToReceive q) k1 k2"
    using wake_waiter_spec by blast
  let ?q' = "q\<lparr>u_first := 0, uxMessagesWaiting := 1\<rparr>"
  let ?k' = "if kseq k (EventList (xTasksWaitingToReceive q)) \<noteq> [] then k2 else if r then portYIELD k1 else k1"
  have "xQueueGenericSend None 0 queueSEND_TO_BACK q k = Some (Return True, ?q', ?k')"
    using m d(1) k2(1) ev
    by (simp add: xQueueGenericSend_def xQueueGenericSend_pass_def xQueueGenericSend_critical_def prvCopyDataToQueue_def configASSERT_def
        may_wait_def)
  moreover have "not_held ?q'" using m by (simp add: not_held_def mutex_def)
  ultimately show ?thesis using d(2,3) k2(2) by (intro exI [of _ ?q'] exI [of _ k1] exI [of _ ?k'] exI [of _ c]) auto
qed

text \<open>The inheritance does not depend on whether the scheduler is suspended.\<close>

lemma inherit_suspended:
  "xTaskPriorityInherit h (vTaskSuspendAll k) = map_option (\<lambda>(r, k1). (r, vTaskSuspendAll k1)) (xTaskPriorityInherit h k)"
  by (auto simp: xTaskPriorityInherit_def vTaskSuspendAll_def set_event_value_def set_item_value_def list_remove_def set_prio_def
      prvAddTaskToReadyList_eq Let_def option.map_comp comp_def case_prod_beta intro!: option.map_cong [OF refl])

lemma inherit_swi: "xTaskPriorityInherit h k = Some (r, k1) \<Longrightarrow> swi_pending k1 = swi_pending k"
  by (auto simp: xTaskPriorityInherit_def set_event_value_def set_item_value_def list_remove_def set_prio_def
      prvAddTaskToReadyList_eq Let_def split: if_splits)

lemma mutex_contention:
  assumes ok: "sched_ok idle k" and cur: "\<not> swi_pending k" "pxCurrentTCB k \<noteq> idle" "\<not> ucDelayAborted (tcb k (pxCurrentTCB k))"
    and n: "n \<noteq> 0" and q: "held_by h q" "queue_free q" and h: "h \<noteq> pxCurrentTCB k" "uxBasePriority (tcb k h) \<le> prio k h"
  shows "\<exists>inh k1 k'. xQueueSemaphoreTake n q k = Some (Loop (vTaskInternalSetTimeOutState k) n, inh, q, k') \<and>
    reprioritised h ((tcb k h)\<lparr>uxPriority := max (prio k h) (prio k (pxCurrentTCB k))\<rparr>) k k1 \<and>
    parked (xTasksWaitingToReceive q) n k1 k' \<and> sched_ok idle k'"
proof -
  let ?c = "pxCurrentTCB k" and ?tm = "vTaskInternalSetTimeOutState k"
  have inv: "kinv k" using ok by (simp add: sched_ok_def)
  have m: "uxMessagesWaiting q = 0" "pcHead q = 0" "uxItemSize q = 0" "xMutexHolder q = h" "h \<noteq> 0" using q(1) by (auto simp: held_by_def mutex_def)
  obtain inh k1 where k1: "xTaskPriorityInherit h k = Some (inh, k1)"
      "reprioritised h ((tcb k h)\<lparr>uxPriority := max (prio k h) (prio k ?c)\<rparr>) k k1"
    using inherit_spec [OF inv m(5) h(2)] by blast
  have o1: "only_task h k k1" "kinv k1" using k1(2) by (simp_all add: reprioritised_def)
  have c1: "pxCurrentTCB k1 = ?c" "tcb k1 ?c = tcb k ?c" using o1(1) h(1) by (simp_all add: only_task_def)
  have rh: "ready k1 h" if "ready k h" using that k1(2) by (simp add: reprioritised_def ready_def)
  have sw: "swi_pending k1 = swi_pending k" using inherit_swi [OF k1(1)] .
  have ok1: "sched_ok idle k1"
    by (rule sched_ok_only_task [OF ok o1(2,1)]) (use rh ok h(1) sw in \<open>auto simp: sched_ok_def\<close>)
  obtain k3 y k4 where p: "vTaskPlaceOnEventList (xTasksWaitingToReceive q) n (vTaskSuspendAll k1) = Some k3" "kinv k3" "xTaskResumeAll k3 = Some (y, k4)"
      "parked (xTasksWaitingToReceive q) n k1 (if y then k4 else portYIELD k4)" "sched_ok idle (if y then k4 else portYIELD k4)"
    using place_and_resume [OF ok1 _ _ n] cur c1(1) sw by metis
  have lk: "pcHead (prvLockQueue q) = 0" "xMutexHolder (prvLockQueue q) = h" "uxMessagesWaiting (prvLockQueue q) = 0"
    using m by (simp_all add: prvLockQueue_def Let_def)
  have park: "xQueueSemaphoreTake_park ?tm n False (prvLockQueue q) (vTaskSuspendAll k) = Some (Blocked ?tm n, inh, k3)"
    using check_at_entry [OF cur(3) n] p(1) lk k1(1) inherit_suspended [of h k]
    by (simp add: xQueueSemaphoreTake_park_def prvIsQueueEmpty_def lock_fields(4))
  have "may_wait n k" using ok by (simp add: may_wait_def sched_ok_def)
  then have "xQueueSemaphoreTake n q k = Some (Loop ?tm n, inh, q, if y then k4 else portYIELD k4)"
    using m n park lock_unlock [OF q(2) p(2)] p(3)
    by (simp add: xQueueSemaphoreTake_def xQueueSemaphoreTake_pass_def xQueueSemaphoreTake_critical_def configASSERT_def entry_time_def
        queue_leave_def receive_result_def Let_def)
  then show ?thesis using k1(2) p(4,5) by blast
qed

section \<open>Counting semaphores\<close>

definition semaphore :: "Queue_t \<Rightarrow> bool" where
  "semaphore q \<longleftrightarrow> pcHead q \<noteq> 0 \<and> uxItemSize q = 0 \<and> uxLength q \<noteq> 0 \<and> count q \<le> capacity q"

datatype sem_op = Give | Take_Sem | Give_From_ISR

fun sem_step :: "sem_op \<Rightarrow> Queue_t \<times> kernel \<Rightarrow> (bool \<times> Queue_t \<times> kernel) option" where
  "sem_step Give (q, k) = (case xQueueGenericSend None 0 queueSEND_TO_BACK q k of Some (Return r, q', k') \<Rightarrow> Some (r, q', k') | _ \<Rightarrow> None)"
| "sem_step Take_Sem (q, k) = (case xQueueSemaphoreTake 0 q k of Some (Return r, _, q', k') \<Rightarrow> Some (r, q', k') | _ \<Rightarrow> None)"
| "sem_step Give_From_ISR (q, k) = (case xQueueGiveFromISR q k of Some (r, _, q', k') \<Rightarrow> Some (r, q', k') | _ \<Rightarrow> None)"

fun sem_run :: "sem_op list \<Rightarrow> Queue_t \<times> kernel \<Rightarrow> (bool list \<times> Queue_t \<times> kernel) option" where
  "sem_run [] s = Some ([], s)"
| "sem_run (p # ps) s = Option.bind (sem_step p s) (\<lambda>(r, s1). map_option (\<lambda>(rs, s2). (r # rs, s2)) (sem_run ps s1))"

text \<open>The specification: a counter between 0 and its maximum.\<close>

fun count_run :: "nat \<Rightarrow> sem_op list \<Rightarrow> nat \<Rightarrow> bool list \<times> nat" where
  "count_run mx [] c = ([], c)"
| "count_run mx (p # ps) c =
     (let (r, c1) = (if p = Take_Sem then (if 0 < c then (True, c - 1) else (False, c)) else (if c < mx then (True, c + 1) else (False, c)));
          (rs, c2) = count_run mx ps c1
      in (r # rs, c2))"

lemma wake_waiter_from_isr_spec:
  assumes "kinv k"
  shows "\<exists>w k'. wake_waiter_from_isr e k = Some (w, k') \<and> kinv k'"
proof (cases "kseq k (EventList e) = []")
  case False
  then show ?thesis using xTaskRemoveFromEventList_spec [OF assms False] by (auto simp: wake_waiter_from_isr_def event_removed_def)
qed (use assms in \<open>auto simp: wake_waiter_from_isr_def\<close>)

lemma sem_give:
  assumes q: "semaphore q" and free: "queue_free q" and inv: "kinv k"
  shows "\<exists>q' k'. sem_step Give (q, k) = Some (count q < capacity q, q', k') \<and> semaphore q' \<and> queue_free q' \<and> kinv k' \<and>
      capacity q' = capacity q \<and> count q' = (if count q < capacity q then count q + 1 else count q)"
    and "\<exists>q' k'. sem_step Give_From_ISR (q, k) = Some (count q < capacity q, q', k') \<and> semaphore q' \<and> queue_free q' \<and> kinv k' \<and>
      capacity q' = capacity q \<and> count q' = (if count q < capacity q then count q + 1 else count q)"
proof -
  let ?q' = "q\<lparr>uxMessagesWaiting := uxMessagesWaiting q + 1\<rparr>"
  have inc: "count ?q' = count q + 1" "semaphore ?q'" "queue_free ?q'" "capacity ?q' = capacity q" if "count q < capacity q"
  proof -
    show c: "count ?q' = count q + 1" using that unat_inc [of "uxMessagesWaiting q" "uxLength q"] by (simp add: count_def capacity_def word_less_nat_alt)
    show cap: "capacity ?q' = capacity q" by (simp add: capacity_def)
    show "semaphore ?q'" using q that c cap unfolding semaphore_def by simp
    show "queue_free ?q'" using free by (simp add: queue_free_def)
  qed
  obtain k1 where k1: "wake_waiter (xTasksWaitingToReceive q) k = Some k1" "kinv k1"
    using wake_waiter_spec [OF inv] by (auto simp: waiter_woken_def)
  obtain w k2 where k2: "wake_waiter_from_isr (xTasksWaitingToReceive q) k = Some (w, k2)" "kinv k2"
    using wake_waiter_from_isr_spec [OF inv] by blast
  have sz: "uxItemSize q = 0" "pcHead q \<noteq> 0" using q by (simp_all add: semaphore_def)
  let ?k1 = "if kseq k (EventList (xTasksWaitingToReceive q)) \<noteq> [] then k1 else k"
  have "sem_step Give (q, k) = Some (count q < capacity q, if count q < capacity q then ?q' else q, if count q < capacity q then ?k1 else k)"
    using sz k1(1) by (simp add: xQueueGenericSend_def xQueueGenericSend_pass_def xQueueGenericSend_critical_def prvCopyDataToQueue_def configASSERT_def
        may_wait_def sizes(4))
  then show "\<exists>q' k'. sem_step Give (q, k) = Some (count q < capacity q, q', k') \<and> semaphore q' \<and> queue_free q' \<and> kinv k' \<and>
      capacity q' = capacity q \<and> count q' = (if count q < capacity q then count q + 1 else count q)"
    using inc q free inv k1(2) by auto
  have "sem_step Give_From_ISR (q, k) = Some (count q < capacity q, if count q < capacity q then ?q' else q, if count q < capacity q then k2 else k)"
    using sz k2(1) free by (simp add: xQueueGiveFromISR_def configASSERT_def sizes(4) queue_free_def Let_def)
  then show "\<exists>q' k'. sem_step Give_From_ISR (q, k) = Some (count q < capacity q, q', k') \<and> semaphore q' \<and> queue_free q' \<and> kinv k' \<and>
      capacity q' = capacity q \<and> count q' = (if count q < capacity q then count q + 1 else count q)"
    using inc q free inv k2(2) by auto
qed

lemma sem_take:
  assumes q: "semaphore q" and free: "queue_free q" and inv: "kinv k"
  shows "\<exists>q' k'. sem_step Take_Sem (q, k) = Some (0 < count q, q', k') \<and> semaphore q' \<and> queue_free q' \<and> kinv k' \<and>
    capacity q' = capacity q \<and> count q' = count q - 1"
proof -
  let ?q' = "q\<lparr>uxMessagesWaiting := uxMessagesWaiting q - 1\<rparr>"
  have sz: "uxItemSize q = 0" "pcHead q \<noteq> 0" using q by (simp_all add: semaphore_def)
  obtain k1 where k1: "wake_waiter (xTasksWaitingToSend q) k = Some k1" "kinv k1"
    using wake_waiter_spec [OF inv] by (auto simp: waiter_woken_def)
  have run: "sem_step Take_Sem (q, k) = Some (0 < count q, if 0 < count q then ?q' else q, if 0 < count q then k1 else k)"
    using sz k1(1) by (simp add: xQueueSemaphoreTake_def xQueueSemaphoreTake_pass_def xQueueSemaphoreTake_critical_def configASSERT_def
        may_wait_def sizes(6) Let_def)
  have "count ?q' = count q - 1" "capacity ?q' = capacity q" if "0 < count q"
    using that unat_minus_one [of "uxMessagesWaiting q"] sizes(5) [of q] by (simp_all add: count_def capacity_def)
  moreover from this have "semaphore ?q'" "queue_free ?q'" if "0 < count q"
    using that q free by (auto simp: semaphore_def queue_free_def)
  ultimately show ?thesis using run q free inv k1(2) by auto
qed

lemma sem_run_spec:
  assumes "semaphore q" and "queue_free q" and "kinv k"
  shows "\<exists>q' k'. sem_run ps (q, k) = Some (fst (count_run (capacity q) ps (count q)), q', k') \<and>
    count q' = snd (count_run (capacity q) ps (count q)) \<and> semaphore q' \<and> queue_free q' \<and> kinv k' \<and> capacity q' = capacity q"
  using assms
proof (induction ps arbitrary: q k)
  case (Cons p ps)
  let ?r = "if p = Take_Sem then 0 < count q else count q < capacity q"
  let ?c = "if p = Take_Sem then count q - 1 else if count q < capacity q then count q + 1 else count q"
  obtain q1 k1 where s: "sem_step p (q, k) = Some (?r, q1, k1)" "semaphore q1" "queue_free q1" "kinv k1" "capacity q1 = capacity q" "count q1 = ?c"
    using sem_give [OF Cons.prems] sem_take [OF Cons.prems] by (cases p) auto
  have "count_run (capacity q) (p # ps) (count q) = (?r # fst (count_run (capacity q) ps ?c), snd (count_run (capacity q) ps ?c))"
    by (simp add: Let_def split: prod.splits)
  then show ?case using Cons.IH [OF s(2,3,4)] s(1,5,6) by auto
qed simp

section \<open>Recursive mutexes\<close>

fun take_times :: "nat \<Rightarrow> Queue_t \<times> kernel \<Rightarrow> (Queue_t \<times> kernel) option" where
  "take_times 0 s = Some s"
| "take_times (Suc n) (q, k) =
     (case xQueueTakeMutexRecursive 0 q k of Some (Return True, _, s1) \<Rightarrow> take_times n s1 | _ \<Rightarrow> None)"

fun give_times :: "nat \<Rightarrow> Queue_t \<times> kernel \<Rightarrow> (Queue_t \<times> kernel) option" where
  "give_times 0 s = Some s"
| "give_times (Suc n) (q, k) =
     (case xQueueGiveMutexRecursive q k of Some (True, s1) \<Rightarrow> give_times n s1 | _ \<Rightarrow> None)"

lemma uint_count: "m < 2 ^ 32 \<Longrightarrow> uint (word_of_int (int m) :: u32) = int m"
  by (simp add: unsigned_of_nat take_bit_nat_eq_self)

lemma rec_count:
  fixes m :: nat
  shows "Suc m < 2 ^ 32 \<Longrightarrow> uint (word_of_int (int m) + 1 :: u32) = int (Suc m)"
    and "Suc m < 2 ^ 32 \<Longrightarrow> uint (word_of_int (int (Suc m)) - 1 :: u32) = int m"
proof -
  assume m: "Suc m < 2 ^ 32"
  have "word_of_int (int m) + 1 = (word_of_int (int (Suc m)) :: u32)" by (simp add: add.commute)
  then show "uint (word_of_int (int m) + 1 :: u32) = int (Suc m)" using uint_count [OF m] by metis
  have "word_of_int (int (Suc m)) - 1 = (word_of_int (int m) :: u32)" by (simp add: add.commute)
  then show "uint (word_of_int (int (Suc m)) - 1 :: u32) = int m" using uint_count [of m] m by (metis Suc_lessD)
qed

lemma take_times_held:
  assumes "held_by (pxCurrentTCB k) q" and "u_second q = int m" and "m + j < 2 ^ 32"
  shows "take_times j (q, k) = Some (q\<lparr>u_second := int (m + j)\<rparr>, k)"
  using assms
proof (induction j arbitrary: q m)
  case 0
  then show ?case by simp
next
  case (Suc j)
  let ?q1 = "q\<lparr>u_second := int (Suc m)\<rparr>"
  have h: "xMutexHolder q = pxCurrentTCB k" "held_by (pxCurrentTCB k) ?q1" using Suc.prems(1) by (auto simp: held_by_def mutex_def)
  have "xQueueTakeMutexRecursive 0 q k = Some (Return True, False, ?q1, k)"
    using h(1) Suc.prems(2,3) rec_count(1) [of m] by (simp add: xQueueTakeMutexRecursive_def)
  then show ?case using Suc.IH [OF h(2), of "Suc m"] Suc.prems(3) by simp
qed

lemma give_times_held:
  assumes "held_by (pxCurrentTCB k) q" and "u_second q = int (Suc m + j)" and "Suc m + j < 2 ^ 32"
  shows "give_times j (q, k) = Some (q\<lparr>u_second := int (Suc m)\<rparr>, k)"
  using assms
proof (induction j arbitrary: q)
  case 0
  then show ?case by simp
next
  case (Suc j)
  let ?q1 = "q\<lparr>u_second := int (Suc m + j)\<rparr>"
  have h: "xMutexHolder q = pxCurrentTCB k" "held_by (pxCurrentTCB k) ?q1" using Suc.prems(1) by (auto simp: held_by_def mutex_def)
  have "uint (uxRecursiveCallCount q - 1) = int (Suc m + j)" using Suc.prems(2,3) rec_count(2) [of "Suc m + j"] by simp
  moreover have "(word_of_int (int (Suc m + j)) :: u32) \<noteq> 0"
  proof
    assume "(word_of_int (int (Suc m + j)) :: u32) = 0"
    then have "int (Suc m + j) = uint (0 :: u32)" using uint_count [of "Suc m + j"] Suc.prems(3) by simp
    then show False by simp
  qed
  ultimately have "xQueueGiveMutexRecursive q k = Some (True, ?q1, k)"
    using h(1) by (simp add: xQueueGiveMutexRecursive_def Let_def)
  then show ?case using Suc.IH [OF h(2)] Suc.prems(3) by simp
qed

section \<open>Properties\<close>



text \<open>
  C21: Priority inheritance of a mutex from the first wait to the give. When the running task has to
  wait for a held mutex, it is parked on the mutex and the holder runs at least at its priority.
  Whenever the holder, then the running task and with the waiting task first in line, gives the
  mutex, the mutex is free, the waiting task is woken, and the holder of no other mutex is back at
  its base priority.
\<close>

theorem mutex_inherits_and_restores:
  assumes "sched_ok idle k" and "\<not> swi_pending k" and "pxCurrentTCB k = c" and "c \<noteq> idle" and "\<not> ucDelayAborted (tcb k c)"
    and "n \<noteq> 0" and "held_by h q" and "queue_free q" and "h \<noteq> c" and "uxBasePriority (tcb k h) \<le> prio k h"
  shows "\<exists>tm inh k1. xQueueSemaphoreTake n q k = Some (Loop tm n, inh, q, k1) \<and> sched_ok idle k1 \<and> \<not> ready k1 c \<and>
    kcont k1 (EventItem c) = Some (EventList (xTasksWaitingToReceive q)) \<and> prio k1 h = max (prio k h) (prio k c) \<and>
    (\<forall>k2 is. kinv k2 \<and> pxCurrentTCB k2 = h \<and> ready k2 h \<and> uxMutexesHeld (tcb k2 h) \<noteq> 0 \<and> uxSchedulerSuspended k2 = 0 \<and>
         kseq k2 (EventList (xTasksWaitingToReceive q)) = EventItem c # is \<longrightarrow>
       (\<exists>q' k3. xQueueGenericSend None 0 queueSEND_TO_BACK q k2 = Some (Return True, q', k3) \<and> not_held q' \<and> kinv k3 \<and> ready k3 c \<and>
          prio k3 h = (if uxMutexesHeld (tcb k2 h) = 1 then uxBasePriority (tcb k2 h) else prio k2 h)))"
proof -
  obtain inh ki k1 where t: "xQueueSemaphoreTake n q k = Some (Loop (vTaskInternalSetTimeOutState k) n, inh, q, k1)"
      "reprioritised h ((tcb k h)\<lparr>uxPriority := max (prio k h) (prio k c)\<rparr>) k ki"
      "parked (xTasksWaitingToReceive q) n ki k1" "sched_ok idle k1"
    using mutex_contention [OF assms(1,2) _ _ assms(6,7,8)] assms by blast
  have ci: "pxCurrentTCB ki = c" using t(2) assms(3) by (simp add: reprioritised_def only_task_def)
  note P = t(3) [unfolded parked_def Let_def ci]
  have "prio k1 h = max (prio k h) (prio k c)" using t(2) P assms(9) by (auto simp: reprioritised_def only_task_def)
  moreover have "\<exists>q' k3. xQueueGenericSend None 0 queueSEND_TO_BACK q k2 = Some (Return True, q', k3) \<and> not_held q' \<and> kinv k3 \<and> ready k3 c \<and>
          prio k3 h = (if uxMutexesHeld (tcb k2 h) = 1 then uxBasePriority (tcb k2 h) else prio k2 h)"
    if k2: "kinv k2" "pxCurrentTCB k2 = h" "ready k2 h" "uxMutexesHeld (tcb k2 h) \<noteq> 0" "uxSchedulerSuspended k2 = 0"
      "kseq k2 (EventList (xTasksWaitingToReceive q)) = EventItem c # is" for k2 "is"
  proof -
    obtain q' kr k3 cc where g: "xQueueGenericSend None 0 queueSEND_TO_BACK q k2 = Some (Return True, q', k3)" "not_held q'"
        "cc = (tcb k2 h)\<lparr>uxMutexesHeld := uxMutexesHeld (tcb k2 h) - 1,
          uxPriority := (if uxMutexesHeld (tcb k2 h) = 1 then uxBasePriority (tcb k2 h) else prio k2 h)\<rparr>"
        "reprioritised h cc k2 kr" "waiter_woken (xTasksWaitingToReceive q) kr k3"
      using mutex_give [of k2 q] assms(7) k2 by auto
    have kr: "kseq kr (EventList (xTasksWaitingToReceive q)) = EventItem c # is" "uxSchedulerSuspended kr = 0" "tcb kr h = cc"
      using g(4) k2(5,6) by (simp_all add: reprioritised_def only_task_def)
    have "kinv k3" "woken_up c k3" "only_task c kr k3" "tcb k3 = tcb kr" using g(5) kr(1) by (simp_all add: waiter_woken_def)
    then show ?thesis using g(1,2,3) kr by (auto simp: woken_up_def only_task_def)
  qed
  ultimately show ?thesis using t(1,4) P by blast
qed

theorem mutex_inherits_and_restores_witness:
  "\<exists>tm inh k1 q. xQueueSemaphoreTake 50 q two_tasks = Some (Loop tm 50, inh, q, k1) \<and> held_by 1 q \<and> prio k1 1 = 5 \<and> \<not> ready k1 2"
proof -
  let ?q = "small_queue\<lparr>pcHead := 0, uxItemSize := 0, uxLength := 1, uxMessagesWaiting := 0, u_first := 1\<rparr>"
  have "held_by 1 ?q" "queue_free ?q" by (simp_all add: held_by_def mutex_def queue_free_def small_queue_def)
  moreover have "\<not> ucDelayAborted (tcb two_tasks 2)" by (simp add: two_tasks_def)
  ultimately have "\<exists>tm inh k1. xQueueSemaphoreTake 50 ?q two_tasks = Some (Loop tm 50, inh, ?q, k1) \<and> \<not> ready k1 2 \<and>
      prio k1 1 = max (prio two_tasks 1) (prio two_tasks 2)"
    using mutex_inherits_and_restores [OF two_tasks_ok two_tasks_fields(11,2), of 50 1 ?q] two_tasks_fields(3,5) by auto
  then show ?thesis using \<open>held_by 1 ?q\<close> two_tasks_fields(3,4) by (metis max_0L)
qed

text \<open>
  A mutex that is held can be given back only by its holder: for any other task the call does
  not return, because the assertion in \<open>xTaskPriorityDisinherit\<close> stops it.
\<close>

theorem mutex_give_by_other_stops:
  assumes "held_by h q" and "h \<noteq> pxCurrentTCB k"
  shows "xQueueGenericSend None n queueSEND_TO_BACK q k = None"
  using assms
  by (auto simp: held_by_def mutex_def xQueueGenericSend_def xQueueGenericSend_pass_def xQueueGenericSend_critical_def prvCopyDataToQueue_def
      xTaskPriorityDisinherit_def configASSERT_def)

theorem mutex_give_by_other_stops_witness:
  "xQueueGenericSend None 0 queueSEND_TO_BACK (small_queue\<lparr>pcHead := 0, uxItemSize := 0, uxLength := 1, u_first := 1\<rparr>) two_tasks = None"
proof -
  have "held_by 1 (small_queue\<lparr>pcHead := 0, uxItemSize := 0, uxLength := 1, u_first := 1\<rparr>)" "1 \<noteq> pxCurrentTCB two_tasks"
    by (simp_all add: held_by_def mutex_def small_queue_def two_tasks_fields)
  then show ?thesis by (rule mutex_give_by_other_stops)
qed

text \<open>
  C26: A recursive mutex taken \<open>m + 1\<close> times by the running task is still held after \<open>m\<close> gives and is
  free after \<open>m + 1\<close>, for every \<open>m\<close> whose count fits the 32-bit counter.
\<close>

theorem recursive_mutex_balanced:
  assumes "not_held q" and "u_second q = 0" and "kinv k" and "pxCurrentTCB k \<noteq> 0" and "ready k (pxCurrentTCB k)"
    and "uxMutexesHeld (tcb k (pxCurrentTCB k)) = 0" and "Suc m < 2 ^ 32" and "kseq k (EventList (xTasksWaitingToSend q)) = []"
  shows "\<exists>s1 s2 s3. take_times (Suc m) (q, k) = Some s1 \<and> give_times m s1 = Some s2 \<and> held_by (pxCurrentTCB k) (fst s2) \<and>
    give_times (Suc m) s1 = Some s3 \<and> not_held (fst s3) \<and> kinv (snd s3)"
proof -
  let ?c = "pxCurrentTCB k" and ?k1 = "set_tcb (pxCurrentTCB k) (uxMutexesHeld_update (\<lambda>m. m + 1)) k"
  have w: "may_wait 0 k" by (simp add: may_wait_def)
  obtain q1 where t: "xQueueSemaphoreTake 0 q k = Some (Return True, False, q1, ?k1)" "held_by ?c q1" "u_second q1 = 0"
    using mutex_take [OF assms(1,3,4) w] assms(2,8) by (auto simp: waiter_woken_def)
  let ?q1 = "q1\<lparr>u_second := 1\<rparr>"
  have h1: "held_by (pxCurrentTCB ?k1) ?q1" using t(2) by (auto simp: held_by_def mutex_def)
  have first: "xQueueTakeMutexRecursive 0 q k = Some (Return True, False, ?q1, ?k1)"
    using t assms(1,4) by (simp add: xQueueTakeMutexRecursive_def not_held_def)
  have took: "take_times (Suc m) (q, k) = Some (q1\<lparr>u_second := int (Suc m)\<rparr>, ?k1)"
    using first take_times_held [OF h1, of 1 m] assms(7) by simp
  let ?qm = "q1\<lparr>u_second := int (Suc m)\<rparr>"
  have hm: "held_by (pxCurrentTCB ?k1) ?qm" using t(2) by (auto simp: held_by_def mutex_def)
  have gave: "give_times m (?qm, ?k1) = Some (?q1, ?k1)" using give_times_held [OF hm, of 0 m] assms(7) by simp
  let ?q0 = "q1\<lparr>u_second := 0\<rparr>"
  have h0: "held_by (pxCurrentTCB ?k1) ?q0" using t(2) by (auto simp: held_by_def mutex_def)
  have inv1: "kinv ?k1" using kinv_tcb [OF assms(3)] by simp
  have rd1: "ready ?k1 (pxCurrentTCB ?k1)" using assms(5) by (simp add: ready_def)
  obtain q' kr k' where g: "xQueueGenericSend None 0 queueSEND_TO_BACK ?q0 ?k1 = Some (Return True, q', k')" "not_held q'" "kinv k'"
    using mutex_give [OF h0 inv1 rd1] assms(6)
    by (cases "kseq ?k1 (EventList (xTasksWaitingToReceive ?q0)) = []") (auto simp: reprioritised_def waiter_woken_def portYIELD_def)
  have last: "xQueueGiveMutexRecursive ?q1 ?k1 = Some (True, q', k')"
    using g(1) h1 by (simp add: xQueueGiveMutexRecursive_def held_by_def)
  have split: "give_times (a + b) s = Option.bind (give_times a s) (give_times b)" for a b s
    by (induction a arbitrary: s) (auto split: option.splits pass.splits bool.splits)
  have "give_times (Suc m) (?qm, ?k1) = Some (q', k')"
    using split [of m 1 "(?qm, ?k1)"] gave last by simp
  then show ?thesis using took gave h1 g(2,3) by simp
qed

theorem recursive_mutex_balanced_witness:
  "\<exists>q s1 s3. not_held q \<and> take_times (Suc 3) (q, two_tasks) = Some s1 \<and> give_times (Suc 3) s1 = Some s3 \<and> not_held (fst s3)"
proof -
  let ?q = "small_queue\<lparr>pcHead := 0, uxItemSize := 0, uxLength := 1, uxMessagesWaiting := 1, u_first := 0, u_second := 0\<rparr>"
  have q: "not_held ?q" "u_second ?q = 0" by (simp_all add: not_held_def mutex_def)
  have k: "pxCurrentTCB two_tasks \<noteq> 0" "ready two_tasks (pxCurrentTCB two_tasks)" "uxMutexesHeld (tcb two_tasks (pxCurrentTCB two_tasks)) = 0"
    "kseq two_tasks (EventList (xTasksWaitingToSend ?q)) = []"
    using two_tasks_fields by simp_all (simp add: two_tasks_def)
  have "\<exists>s1 s2 s3. take_times (Suc 3) (?q, two_tasks) = Some s1 \<and> give_times 3 s1 = Some s2 \<and> held_by (pxCurrentTCB two_tasks) (fst s2) \<and>
    give_times (Suc 3) s1 = Some s3 \<and> not_held (fst s3) \<and> kinv (snd s3)"
    by (rule recursive_mutex_balanced [OF q two_tasks_fields(1) k(1,2,3) _ k(4)]) simp
  then show ?thesis using q(1) by blast
qed

text \<open>
  C25: A counting semaphore is a counter. Through every sequence of gives, gives from interrupts and
  takes that do not wait, the results and the final count are those of a natural number kept
  between 0 and the maximum; no call fails to return and the invariants hold.
\<close>

theorem semaphore_counts:
  assumes "semaphore q" and "queue_free q" and "kinv k"
  shows "\<exists>q' k'. sem_run ps (q, k) = Some (fst (count_run (capacity q) ps (count q)), q', k') \<and>
    count q' = snd (count_run (capacity q) ps (count q)) \<and> semaphore q' \<and> kinv k'"
  using sem_run_spec [OF assms] by blast

theorem semaphore_counts_witness:
  "\<exists>q' k'. sem_run [Give, Give_From_ISR, Take_Sem, Take_Sem, Take_Sem] (small_queue\<lparr>uxItemSize := 0\<rparr>, two_tasks) =
     Some ([True, True, True, True, False], q', k') \<and> count q' = 0"
proof -
  let ?q = "small_queue\<lparr>uxItemSize := 0\<rparr>"
  have "semaphore ?q" "queue_free ?q" "capacity ?q = 4" "count ?q = 0"
    by (simp_all add: semaphore_def queue_free_def capacity_def count_def small_queue_def)
  then show ?thesis
    using semaphore_counts [of ?q two_tasks "[Give, Give_From_ISR, Take_Sem, Take_Sem, Take_Sem]"] two_tasks_fields(1)
    by (simp del: sem_run.simps) blast
qed

end
