(* ===== verification/Lwip_Mem.thy ===== *)
theory Lwip_Mem
  imports Memory_Interface "HOL-Library.Monad_Syntax" "HOL-Library.Multiset"
begin

text \<open>
  \<open>LWIP/src/core/mem.c\<close>: the heap of the network stack, of \<open>MEM_SIZE\<close> bytes. Every block starts with a
  \<open>struct mem\<close> that holds the offsets of the next and the previous block and a flag; the blocks fill
  the array \<open>ram\<close> up to the header at \<open>ram_end\<close>. The fields of the headers are functions of the offset
  from \<open>ram\<close>, whose address is a field of the state; pointers are addresses and \<open>0\<close> is \<open>NULL\<close>. Offsets
  and sizes (\<open>mem_size_t\<close>, 16 bits) are natural numbers with the conversions to 16 bits written out.
  \<open>None\<close> means that an \<open>LWIP_ASSERT\<close> stopped the system or a walk does not end. The mutex \<open>mem_mutex\<close>
  makes every call atomic, which is how the model takes it. \<open>heap_blocks\<close> relates the headers to the
  list of blocks, and the operations are shown to allocate by first fit, to split and to merge.
\<close>

section \<open>Configuration and state\<close>

abbreviation (input) MEM_SIZE_ALIGNED :: nat where "MEM_SIZE_ALIGNED \<equiv> 6144"
abbreviation (input) SIZEOF_STRUCT_MEM :: nat where "SIZEOF_STRUCT_MEM \<equiv> 8"
abbreviation (input) MIN_SIZE_ALIGNED :: nat where "MIN_SIZE_ALIGNED \<equiv> 12"

record lheap =
  ram :: nat
  m_next :: "nat \<Rightarrow> nat"
  m_prev :: "nat \<Rightarrow> nat"
  m_used :: "nat \<Rightarrow> bool"
  lfree :: nat

definition LWIP_ASSERT :: "bool \<Rightarrow> unit option" where
  "LWIP_ASSERT b = (if b then Some () else None)"

definition LWIP_MEM_ALIGN_SIZE :: "nat \<Rightarrow> nat" where
  "LWIP_MEM_ALIGN_SIZE n = (n + 3) div 4 * 4"

definition mem_size_t :: "nat \<Rightarrow> nat" where
  "mem_size_t n = n mod 2 ^ 16"

abbreviation (input) ram_end :: nat where "ram_end \<equiv> MEM_SIZE_ALIGNED"

abbreviation set_mnext :: "nat \<Rightarrow> nat \<Rightarrow> lheap \<Rightarrow> lheap" where
  "set_mnext a v h \<equiv> h\<lparr>m_next := (m_next h)(a := v)\<rparr>"
abbreviation set_mprev :: "nat \<Rightarrow> nat \<Rightarrow> lheap \<Rightarrow> lheap" where
  "set_mprev a v h \<equiv> h\<lparr>m_prev := (m_prev h)(a := v)\<rparr>"
abbreviation set_mused :: "nat \<Rightarrow> bool \<Rightarrow> lheap \<Rightarrow> lheap" where
  "set_mused a v h \<equiv> h\<lparr>m_used := (m_used h)(a := v)\<rparr>"

section \<open>Operations\<close>

definition mem_init :: "nat \<Rightarrow> lheap \<Rightarrow> lheap" where
  "mem_init ram_heap h =
     h\<lparr>ram := LWIP_MEM_ALIGN_SIZE ram_heap,
       m_next := (m_next h)(0 := MEM_SIZE_ALIGNED, MEM_SIZE_ALIGNED := MEM_SIZE_ALIGNED),
       m_prev := (m_prev h)(0 := 0, MEM_SIZE_ALIGNED := MEM_SIZE_ALIGNED),
       m_used := (m_used h)(0 := False, MEM_SIZE_ALIGNED := True),
       lfree := 0\<rparr>"

text \<open>The block is merged with the next one and then with the previous one, if those are free.\<close>

definition plug_next :: "nat \<Rightarrow> lheap \<Rightarrow> lheap" where
  "plug_next mem h =
     (let nmem = m_next h mem
      in if mem \<noteq> nmem \<and> \<not> m_used h nmem \<and> nmem \<noteq> ram_end
         then let h1 = (if lfree h = nmem then h\<lparr>lfree := mem\<rparr> else h);
                  h2 = set_mnext mem (m_next h1 nmem) h1
              in if m_next h2 nmem \<noteq> MEM_SIZE_ALIGNED then set_mprev (m_next h2 nmem) (mem_size_t mem) h2 else h2
         else h)"

definition plug_prev :: "nat \<Rightarrow> lheap \<Rightarrow> lheap" where
  "plug_prev mem h =
     (let pmem = m_prev h mem
      in if pmem \<noteq> mem \<and> \<not> m_used h pmem
         then let h1 = (if lfree h = mem then h\<lparr>lfree := pmem\<rparr> else h);
                  h2 = set_mnext pmem (m_next h1 mem) h1
              in if m_next h2 mem \<noteq> MEM_SIZE_ALIGNED then set_mprev (m_next h2 mem) (mem_size_t pmem) h2 else h2
         else h)"

definition plug_holes :: "nat \<Rightarrow> lheap \<Rightarrow> lheap option" where
  "plug_holes mem h = do {
     LWIP_ASSERT (mem < ram_end);
     LWIP_ASSERT (\<not> m_used h mem);
     LWIP_ASSERT (m_next h mem \<le> MEM_SIZE_ALIGNED);
     Some (plug_prev mem (plug_next mem h))
   }"

definition mem_link_valid :: "nat \<Rightarrow> lheap \<Rightarrow> bool" where
  "mem_link_valid mem h \<longleftrightarrow>
     \<not> (MEM_SIZE_ALIGNED < m_next h mem \<or> MEM_SIZE_ALIGNED < m_prev h mem \<or>
        m_prev h mem \<noteq> mem \<and> m_next h (m_prev h mem) \<noteq> mem \<or>
        m_next h mem \<noteq> ram_end \<and> m_prev h (m_next h mem) \<noteq> mem)"

text \<open>Every illegal call stops in \<open>LWIP_MEM_ILLEGAL_FREE\<close>.\<close>

definition mem_free :: "nat \<Rightarrow> lheap \<Rightarrow> lheap option" where
  "mem_free rmem h =
     (if rmem = 0 then Some h
      else do {
        LWIP_ASSERT (rmem mod 4 = 0);
        LWIP_ASSERT (\<not> (rmem < ram h + SIZEOF_STRUCT_MEM \<or> ram h + ram_end < rmem + MIN_SIZE_ALIGNED));
        let mem = rmem - SIZEOF_STRUCT_MEM - ram h;
        LWIP_ASSERT (m_used h mem);
        LWIP_ASSERT (mem_link_valid mem h);
        let h1 = set_mused mem False h;
        plug_holes mem (if mem < lfree h1 then h1\<lparr>lfree := mem\<rparr> else h1)
      })"

text \<open>
  \<open>mem_trim\<close> shrinks a block: the rest goes to the free block behind it, or becomes a free block of
  its own if it is large enough.
\<close>

definition mem_trim :: "nat \<Rightarrow> u16 \<Rightarrow> lheap \<Rightarrow> (nat \<times> lheap) option" where
  "mem_trim rmem new_size h =
     (let newsize = max MIN_SIZE_ALIGNED (mem_size_t (LWIP_MEM_ALIGN_SIZE (unat new_size)))
      in if MEM_SIZE_ALIGNED < newsize \<or> newsize < unat new_size then Some (0, h)
      else do {
        LWIP_ASSERT (ram h \<le> rmem \<and> rmem < ram h + ram_end);
        let ptr = rmem - SIZEOF_STRUCT_MEM - ram h;
        let size = mem_size_t (u32_sub (mem_size_t (u32_sub (m_next h ptr) ptr)) SIZEOF_STRUCT_MEM);
        LWIP_ASSERT (newsize \<le> size);
        let mem2 = m_next h ptr;
        let ptr2 = mem_size_t (ptr + SIZEOF_STRUCT_MEM + newsize);
        if newsize = size then Some (rmem, h)
        else if \<not> m_used h mem2
        then do {
          LWIP_ASSERT (m_next h ptr \<noteq> MEM_SIZE_ALIGNED);
          let next = m_next h mem2;
          let h1 = (if lfree h = mem2 then h\<lparr>lfree := ptr2\<rparr> else h);
          let h2 = set_mnext ptr ptr2 (set_mprev ptr2 ptr (set_mnext ptr2 next (set_mused ptr2 False h1)));
          Some (rmem, if m_next h2 ptr2 \<noteq> MEM_SIZE_ALIGNED then set_mprev (m_next h2 ptr2) ptr2 h2 else h2)
        }
        else if newsize + SIZEOF_STRUCT_MEM + MIN_SIZE_ALIGNED \<le> size
        then do {
          LWIP_ASSERT (m_next h ptr \<noteq> MEM_SIZE_ALIGNED);
          let h1 = (if ptr2 < lfree h then h\<lparr>lfree := ptr2\<rparr> else h);
          let h2 = set_mnext ptr ptr2 (set_mprev ptr2 ptr (set_mnext ptr2 (m_next h1 ptr) (set_mused ptr2 False h1)));
          Some (rmem, if m_next h2 ptr2 \<noteq> MEM_SIZE_ALIGNED then set_mprev (m_next h2 ptr2) ptr2 h2 else h2)
        }
        else Some (rmem, h)
      })"

text \<open>The search of \<open>mem_malloc\<close> for a block; \<open>Some None\<close> means that it found none.\<close>

partial_function (option) find_fit :: "nat \<Rightarrow> nat \<Rightarrow> lheap \<Rightarrow> nat option option" where
  "find_fit want ptr h =
     (if ptr < MEM_SIZE_ALIGNED - want
      then (if \<not> m_used h ptr \<and> want \<le> u32_sub (m_next h ptr) (ptr + SIZEOF_STRUCT_MEM) then Some (Some ptr)
            else find_fit want (m_next h ptr) h)
      else Some None)"

partial_function (option) next_free :: "nat \<Rightarrow> lheap \<Rightarrow> nat option" where
  "next_free cur h = (if m_used h cur \<and> cur \<noteq> ram_end then next_free (m_next h cur) h else Some cur)"

definition mem_take :: "nat \<Rightarrow> nat \<Rightarrow> lheap \<Rightarrow> lheap option" where
  "mem_take want ptr h =
     (if want + SIZEOF_STRUCT_MEM + MIN_SIZE_ALIGNED \<le> u32_sub (m_next h ptr) (ptr + SIZEOF_STRUCT_MEM)
      then do {
        let ptr2 = mem_size_t (ptr + SIZEOF_STRUCT_MEM + want);
        LWIP_ASSERT (ptr2 \<noteq> MEM_SIZE_ALIGNED);
        let h1 = set_mprev ptr2 ptr (set_mnext ptr2 (m_next h ptr) (set_mused ptr2 False h));
        let h2 = set_mused ptr True (set_mnext ptr ptr2 h1);
        Some (if m_next h2 ptr2 \<noteq> MEM_SIZE_ALIGNED then set_mprev (m_next h2 ptr2) ptr2 h2 else h2)
      }
      else Some (set_mused ptr True h))"

definition mem_malloc :: "u16 \<Rightarrow> lheap \<Rightarrow> (nat \<times> lheap) option" where
  "mem_malloc size_in h =
     (let size = max MIN_SIZE_ALIGNED (mem_size_t (LWIP_MEM_ALIGN_SIZE (unat size_in)))
      in if size_in = 0 then Some (0, h)
      else if MEM_SIZE_ALIGNED < size \<or> size < unat size_in then Some (0, h)
      else do {
        found \<leftarrow> find_fit size (lfree h) h;
        case found of
          None \<Rightarrow> Some (0, h)
        | Some ptr \<Rightarrow> do {
            h1 \<leftarrow> mem_take size ptr h;
            h2 \<leftarrow> (if ptr = lfree h1 then map_option (\<lambda>cur. h1\<lparr>lfree := cur\<rparr>) (next_free (lfree h1) h1) else Some h1);
            LWIP_ASSERT (ptr = lfree h1 \<longrightarrow> lfree h2 = ram_end \<or> \<not> m_used h2 (lfree h2));
            LWIP_ASSERT (ptr + SIZEOF_STRUCT_MEM + size \<le> ram_end);
            LWIP_ASSERT ((ram h2 + ptr + SIZEOF_STRUCT_MEM) mod 4 = 0);
            LWIP_ASSERT ((ram h2 + ptr) mod 4 = 0);
            Some (ram h2 + ptr + SIZEOF_STRUCT_MEM, h2)
          }
      })"

section \<open>The headers as a list of blocks\<close>

text \<open>
  A block is its flag and its size with the header. \<open>bseg h p a bs b\<close>: the blocks \<open>bs\<close> lie one behind the
  other from offset \<open>a\<close> to offset \<open>b\<close>, and the block before the first one is at \<open>p\<close>.
\<close>

fun bseg :: "lheap \<Rightarrow> nat \<Rightarrow> nat \<Rightarrow> (bool \<times> nat) list \<Rightarrow> nat \<Rightarrow> bool" where
  "bseg h p a [] b \<longleftrightarrow> a = b"
| "bseg h p a ((u, n) # bs) b \<longleftrightarrow>
     m_used h a = u \<and> m_next h a = a + n \<and> m_prev h a = p \<and> 20 \<le> n \<and> n mod 4 = 0 \<and> bseg h a (a + n) bs b"

fun last_off :: "nat \<Rightarrow> nat \<Rightarrow> (bool \<times> nat) list \<Rightarrow> nat" where
  "last_off p a [] = p"
| "last_off p a ((u, n) # bs) = last_off a (a + n) bs"

abbreviation len_blocks :: "(bool \<times> nat) list \<Rightarrow> nat" where
  "len_blocks bs \<equiv> sum_list (map snd bs)"

lemma bseg_end: "bseg h p a bs b \<Longrightarrow> b = a + len_blocks bs"
proof (induction bs arbitrary: p a)
  case (Cons x bs)
  then show ?case by (cases x) (use Cons.IH in \<open>fastforce simp: add.assoc\<close>)
qed simp

lemma bseg_aligned: "bseg h p a bs b \<Longrightarrow> len_blocks bs mod 4 = 0"
proof (induction bs arbitrary: p a)
  case (Cons x bs)
  then show ?case by (cases x) (use Cons.IH in \<open>fastforce\<close>)
qed simp

lemma bseg_append:
  "bseg h p a (xs @ ys) b \<longleftrightarrow> bseg h p a xs (a + len_blocks xs) \<and> bseg h (last_off p a xs) (a + len_blocks xs) ys b"
  by (induction xs arbitrary: p a) (auto simp: add.assoc)

lemma last_off_append: "last_off p a (xs @ ys) = last_off (last_off p a xs) (a + len_blocks xs) ys"
  by (induction xs arbitrary: p a) (auto simp: add.assoc)

lemma last_off_less: "bseg h p a bs b \<Longrightarrow> bs \<noteq> [] \<Longrightarrow> a \<le> last_off p a bs \<and> last_off p a bs < b"
proof (induction bs arbitrary: p a)
  case (Cons x bs)
  then show ?case by (cases x; cases bs) (fastforce dest: bseg_end)+
qed simp

text \<open>A segment depends only on the headers inside it, and its first back link can be changed.\<close>

lemma bseg_frame:
  assumes "bseg h p a bs b"
    and "\<And>x. a \<le> x \<Longrightarrow> x < b \<Longrightarrow> m_next h' x = m_next h x \<and> m_used h' x = m_used h x \<and> (x \<noteq> a \<longrightarrow> m_prev h' x = m_prev h x)"
    and "bs \<noteq> [] \<Longrightarrow> m_prev h' a = p'"
  shows "bseg h' p' a bs b"
  using assms
proof (induction bs arbitrary: p p' a)
  case (Cons x bs)
  obtain u n where x: "x = (u, n)" by force
  have s: "m_used h a = u" "m_next h a = a + n" "20 \<le> n" "n mod 4 = 0" "bseg h a (a + n) bs b" using Cons.prems(1) x by auto
  have ab: "a + n \<le> b" using bseg_end [OF s(5)] by simp
  have "bseg h' a (a + n) bs b"
  proof (rule Cons.IH [OF s(5)])
    show "m_prev h' (a + n) = a" if ne: "bs \<noteq> []"
    proof -
      obtain v m cs where bs: "bs = (v, m) # cs" using ne by (cases bs) auto
      then have "m_prev h (a + n) = a" "0 < m" using s(5) by auto
      moreover have "a + n < b" using bseg_end [OF s(5)] bs \<open>0 < m\<close> by simp
      ultimately show ?thesis using Cons.prems(2) [of "a + n"] s(3) by simp
    qed
  qed (use Cons.prems(2) s(3) in auto)
  then show ?case using s x Cons.prems(2) [of a] Cons.prems(3) ab by auto
qed simp

lemma bseg_lfree [simp]: "bseg (h\<lparr>lfree := v\<rparr>) p a bs b \<longleftrightarrow> bseg h p a bs b"
  by (induction bs arbitrary: p a) auto

text \<open>
  \<open>heap_blocks h bs\<close>: the blocks fill the heap, no two free blocks are neighbours, and \<open>lfree\<close> is the
  first free block, or the end.
\<close>

fun first_free :: "nat \<Rightarrow> (bool \<times> nat) list \<Rightarrow> nat" where
  "first_free a [] = a"
| "first_free a ((u, n) # bs) = (if u then first_free (a + n) bs else a)"

abbreviation split_ok :: "(bool \<times> nat) list \<Rightarrow> bool" where
  "split_ok \<equiv> successively (\<lambda>x y. fst x \<or> fst y)"

definition heap_blocks :: "lheap \<Rightarrow> (bool \<times> nat) list \<Rightarrow> bool" where
  "heap_blocks h bs \<longleftrightarrow> bseg h 0 0 bs MEM_SIZE_ALIGNED \<and> split_ok bs \<and> lfree h = first_free 0 bs \<and>
     m_used h MEM_SIZE_ALIGNED \<and> ram h mod 4 = 0 \<and> 0 < ram h"

text \<open>A part of the list of blocks is replaced by blocks that fill the same space.\<close>

lemma bseg_replace:
  assumes "bseg h p a (xs @ zs @ ys) b" and len: "len_blocks zs' = len_blocks zs"
    and "l = a + len_blocks xs" and "r = l + len_blocks zs"
    and zs': "bseg h' (last_off p a xs) l zs' r"
    and same: "\<And>x. x < l \<or> r \<le> x \<Longrightarrow> m_next h' x = m_next h x \<and> m_used h' x = m_used h x \<and> (x \<noteq> r \<longrightarrow> m_prev h' x = m_prev h x)"
    and link: "ys \<noteq> [] \<Longrightarrow> m_prev h' r = last_off (last_off p a xs) l zs'"
  shows "bseg h' p a (xs @ zs' @ ys) b"
proof -
  have s: "bseg h p a xs l" "bseg h (last_off (last_off p a xs) l zs) r ys b"
    using assms(1) by (simp_all add: bseg_append assms(3,4) add.assoc)
  have "bseg h' p a xs l"
  proof (rule bseg_frame [OF s(1)])
    show "m_prev h' a = p" if ne: "xs \<noteq> []"
    proof -
      obtain u n zs where "xs = (u, n) # zs" using ne by (cases xs) auto
      then have "m_prev h a = p" "a < l" using s(1) bseg_end [OF s(1)] by auto
      then show ?thesis using same [of a] assms(4) by simp
    qed
  qed (use same assms(4) in auto)
  moreover have "bseg h' (last_off (last_off p a xs) l zs') r ys b"
    by (rule bseg_frame [OF s(2)]) (use same link in auto)
  ultimately show ?thesis using zs' len by (simp add: bseg_append assms(3,4) add.assoc)
qed

section \<open>Allocation\<close>

fun fit :: "nat \<Rightarrow> nat \<Rightarrow> (bool \<times> nat) list \<Rightarrow> nat option" where
  "fit w a [] = None"
| "fit w a ((u, n) # bs) = (if \<not> u \<and> w + SIZEOF_STRUCT_MEM \<le> n then Some a else fit w (a + n) bs)"

lemma fit_too_large: "len_blocks bs < w + 8 \<Longrightarrow> fit w a bs = None"
  by (induction w a bs rule: fit.induct) auto

lemma bseg_head_bounds:
  assumes "bseg h p a ((u, n) # bs) 6144"
  shows "a + n \<le> 6144" "u32_sub (a + n) (a + 8) = n - 8" "20 \<le> n" "m_next h a = a + n" "m_used h a = u"
proof -
  show n: "a + n \<le> 6144" "20 \<le> n" "m_next h a = a + n" "m_used h a = u" using assms bseg_end [OF assms] by auto
  show "u32_sub (a + n) (a + 8) = n - 8" using n by (subst u32_sub_small) simp_all
qed

lemma find_fit_bseg: "bseg h p a bs 6144 \<Longrightarrow> find_fit w a h = Some (fit w a bs)"
proof (induction bs arbitrary: p a)
  case Nil
  then show ?case by (auto simp: find_fit.simps)
next
  case (Cons x bs)
  obtain u n where x: "x = (u, n)" by force
  note b = bseg_head_bounds [OF Cons.prems [unfolded x]]
  show ?case
  proof (cases "a < 6144 - w")
    case True
    then show ?thesis using Cons b by (subst find_fit.simps) (auto simp: x)
  next
    case False
    then have "len_blocks (x # bs) < w + 8" using bseg_end [OF Cons.prems] by simp
    then show ?thesis using False fit_too_large [of "x # bs" w a] by (subst find_fit.simps) simp
  qed
qed

lemma next_free_bseg: "bseg h p a bs 6144 \<Longrightarrow> m_used h 6144 \<Longrightarrow> next_free a h = Some (first_free a bs)"
proof (induction bs arbitrary: p a)
  case Nil
  then show ?case by (simp add: next_free.simps)
next
  case (Cons x bs)
  obtain u n where x: "x = (u, n)" by force
  note b = bseg_head_bounds [OF Cons.prems(1) [unfolded x]]
  then show ?case using Cons by (subst next_free.simps) (auto simp: x)
qed

lemma first_free_bseg:
  "bseg h p a bs b \<Longrightarrow> bseg h (last_off p a (takeWhile fst bs)) (first_free a bs) (dropWhile fst bs) b"
  by (induction bs arbitrary: p a) auto

lemma fit_first_free: "fit w (first_free a bs) (dropWhile fst bs) = fit w a bs"
  by (induction w a bs rule: fit.induct) auto

lemma fit_split:
  "fit w a bs = Some q \<Longrightarrow> \<exists>xs n ys. bs = xs @ (False, n) # ys \<and> q = a + len_blocks xs \<and> w + 8 \<le> n"
proof (induction w a bs rule: fit.induct)
  case (2 w a u n bs)
  show ?case
  proof (cases "\<not> u \<and> w + 8 \<le> n")
    case True
    then show ?thesis using 2(2) by (intro exI [of _ "[]"]) auto
  next
    case False
    then obtain xs m ys where "bs = xs @ (False, m) # ys" "q = a + n + len_blocks xs" "w + 8 \<le> m" using 2 by auto
    then show ?thesis by (intro exI [of _ "(u, n) # xs"]) auto
  qed
qed simp

text \<open>What becomes of a free block of size \<open>n\<close> when \<open>w\<close> bytes are taken from it.\<close>

definition carve :: "nat \<Rightarrow> nat \<Rightarrow> (bool \<times> nat) list" where
  "carve w n = (if w + 28 \<le> n then [(True, w + 8), (False, n - (w + 8))] else [(True, n)])"

lemma LWIP_ASSERT_simps [simp]: "LWIP_ASSERT True = Some ()" "LWIP_ASSERT b = Some u \<longleftrightarrow> b"
  by (simp_all add: LWIP_ASSERT_def)

lemma mem_size_t_small [simp]: "n < 65536 \<Longrightarrow> mem_size_t n = n"
  by (simp add: mem_size_t_def)

lemma bseg_middle:
  assumes "bseg h p a (xs @ (u, n) # ys) b"
  shows "m_next h (a + len_blocks xs) = a + len_blocks xs + n" "m_used h (a + len_blocks xs) = u" "20 \<le> n" "n mod 4 = 0"
    "m_prev h (a + len_blocks xs) = last_off p a xs" "a + len_blocks xs + n \<le> b" "a + len_blocks xs + n = b \<longleftrightarrow> ys = []"
    "ys \<noteq> [] \<Longrightarrow> m_prev h (a + len_blocks xs + n) = a + len_blocks xs" "len_blocks xs mod 4 = 0"
proof -
  have s: "bseg h (last_off p a xs) (a + len_blocks xs) ((u, n) # ys) b" using assms by (simp add: bseg_append)
  then show "m_next h (a + len_blocks xs) = a + len_blocks xs + n" "m_used h (a + len_blocks xs) = u" "20 \<le> n" "n mod 4 = 0"
    "m_prev h (a + len_blocks xs) = last_off p a xs" by auto
  have t: "bseg h (a + len_blocks xs) (a + len_blocks xs + n) ys b" using s by simp
  show "a + len_blocks xs + n \<le> b" using bseg_end [OF t] by simp
  show "a + len_blocks xs + n = b \<longleftrightarrow> ys = []" using t bseg_end [OF t] by (cases ys) auto
  show "m_prev h (a + len_blocks xs + n) = a + len_blocks xs" if "ys \<noteq> []" using t that by (cases ys) auto
  show "len_blocks xs mod 4 = 0" using assms bseg_append bseg_aligned by blast
qed

lemma mem_take_bseg:
  assumes s: "bseg h 0 0 (xs @ (False, n) # ys) 6144" and w: "w + 8 \<le> n" "w mod 4 = 0" "12 \<le> w"
  shows "\<exists>h'. mem_take w (len_blocks xs) h = Some h' \<and> bseg h' 0 0 (xs @ carve w n @ ys) 6144 \<and>
    lfree h' = lfree h \<and> ram h' = ram h \<and> m_used h' 6144 = m_used h 6144"
proof -
  let ?p = "len_blocks xs"
  let ?p2 = "?p + 8 + w"
  note m = bseg_middle [OF s, unfolded add_0]
  have gap: "u32_sub (?p + n) (?p + 8) = n - 8" using m(3,6) by (subst u32_sub_small) simp_all
  have s': "bseg h 0 0 (xs @ [(False, n)] @ ys) 6144" using s by simp
  show ?thesis
  proof (cases "w + 28 \<le> n")
    case True
    have big: "w + 8 + 12 \<le> n - 8" and p2: "mem_size_t ?p2 = ?p2" "?p2 \<noteq> 6144" "?p2 < ?p + n" using True m(6) by auto
    let ?h2 = "set_mused ?p True (set_mnext ?p ?p2 (set_mprev ?p2 ?p (set_mnext ?p2 (?p + n) (set_mused ?p2 False h))))"
    let ?h' = "if ?p + n \<noteq> 6144 then set_mprev (?p + n) ?p2 ?h2 else ?h2"
    have run: "mem_take w ?p h = Some ?h'"
      using big p2 m(1) gap by (simp add: mem_take_def Let_def)
    have "(n - (w + 8)) mod 4 = 0" using w(2) m(4) True by presburger
    moreover have "(w + 8) mod 4 = 0" using w(2) by presburger
    moreover have "20 \<le> n - (w + 8)" using True by simp
    ultimately have c: "bseg ?h' (last_off 0 0 xs) ?p [(True, w + 8), (False, n - (w + 8))] (?p + n)"
      using m(5) True w(3) p2(3) by simp
    have "bseg ?h' 0 0 (xs @ [(True, w + 8), (False, n - (w + 8))] @ ys) 6144"
      by (rule bseg_replace [OF s' _ _ _ c]) (use m p2 True in auto)
    then show ?thesis using run True p2 m(6) by (auto simp: carve_def)
  next
    case False
    have "\<not> w + 8 + 12 \<le> n - 8" using False by simp
    then have run: "mem_take w ?p h = Some (set_mused ?p True h)" using m(1) gap by (simp add: mem_take_def)
    have c: "bseg (set_mused ?p True h) (last_off 0 0 xs) ?p [(True, n)] (?p + n)" using m by simp
    have "bseg (set_mused ?p True h) 0 0 (xs @ [(True, n)] @ ys) 6144"
      by (rule bseg_replace [OF s' _ _ _ c]) (use m in auto)
    then show ?thesis using run False m(3,6) by (auto simp: carve_def)
  qed
qed

lemma first_free_unused: "bseg h p a bs b \<Longrightarrow> first_free a bs = b \<or> \<not> m_used h (first_free a bs)"
  by (induction a bs arbitrary: p rule: first_free.induct) auto

lemma first_free_ge: "a \<le> first_free a bs"
  by (induction a bs rule: first_free.induct) auto

lemma first_free_append:
  "\<forall>x \<in> set xs. fst x \<Longrightarrow> first_free a (xs @ ys) = first_free (a + len_blocks xs) ys"
  "\<not> (\<forall>x \<in> set xs. fst x) \<Longrightarrow> first_free a (xs @ ys) = first_free a xs"
  by (induction a xs rule: first_free.induct) (auto simp: add.assoc)

lemma first_free_before:
  assumes "bseg h p a xs b" and "\<not> (\<forall>x \<in> set xs. fst x)"
  shows "a \<le> first_free a xs" "first_free a xs < b"
proof -
  have "a \<le> first_free a xs \<and> first_free a xs < b"
    using assms
  proof (induction xs arbitrary: p a)
    case (Cons x xs)
    obtain u n where x: "x = (u, n)" by force
    show ?case
    proof (cases u)
      case True
      then show ?thesis using Cons.IH [of a "a + n"] Cons.prems x by auto
    next
      case False
      then show ?thesis using Cons.prems(1) bseg_end [OF Cons.prems(1)] x by auto
    qed
  qed simp
  then show "a \<le> first_free a xs" "first_free a xs < b" by simp_all
qed

lemma carve_split_ok: "split_ok (xs @ (False, n) # ys) \<Longrightarrow> split_ok (xs @ carve w n @ ys)"
  by (cases ys; cases xs rule: rev_cases) (auto simp: carve_def successively_append_iff)

text \<open>The space a request takes without the header.\<close>

definition request :: "u16 \<Rightarrow> nat" where
  "request size_in = max 12 (LWIP_MEM_ALIGN_SIZE (unat size_in))"

lemma request_props: "unat size_in \<le> request size_in" "12 \<le> request size_in" "request size_in mod 4 = 0"
proof -
  have "unat size_in \<le> (unat size_in + 3) div 4 * 4" by presburger
  then show "unat size_in \<le> request size_in" "12 \<le> request size_in" "request size_in mod 4 = 0"
    by (simp_all add: request_def LWIP_MEM_ALIGN_SIZE_def max_def)
qed

lemma request_fits:
  "6144 < max 12 (mem_size_t (LWIP_MEM_ALIGN_SIZE (unat s))) \<or> max 12 (mem_size_t (LWIP_MEM_ALIGN_SIZE (unat s))) < unat s \<longleftrightarrow>
   6144 < request s"
  "request s \<le> 6144 \<Longrightarrow> max 12 (mem_size_t (LWIP_MEM_ALIGN_SIZE (unat s))) = request s"
proof -
  have b: "unat s < 65536" using unsigned_less [of s] by simp
  have al: "unat s \<le> LWIP_MEM_ALIGN_SIZE (unat s)" "LWIP_MEM_ALIGN_SIZE (unat s) \<le> 65536"
    using b by (auto simp: LWIP_MEM_ALIGN_SIZE_def)
  then show "request s \<le> 6144 \<Longrightarrow> max 12 (mem_size_t (LWIP_MEM_ALIGN_SIZE (unat s))) = request s" by (simp add: request_def)
  show "6144 < max 12 (mem_size_t (LWIP_MEM_ALIGN_SIZE (unat s))) \<or> max 12 (mem_size_t (LWIP_MEM_ALIGN_SIZE (unat s))) < unat s \<longleftrightarrow>
     6144 < request s"
  proof (cases "LWIP_MEM_ALIGN_SIZE (unat s) = 65536")
    case True
    then have "12 < unat s" by (auto simp: LWIP_MEM_ALIGN_SIZE_def)
    then show ?thesis using True by (simp add: request_def mem_size_t_def)
  next
    case False
    then have "mem_size_t (LWIP_MEM_ALIGN_SIZE (unat s)) = LWIP_MEM_ALIGN_SIZE (unat s)" using al by simp
    then show ?thesis using al by (auto simp: request_def)
  qed
qed

text \<open>
  \<open>mem_malloc\<close> takes the first free block that is large enough; it fails exactly when there is none.
\<close>

lemma mem_malloc_blocks:
  assumes hb: "heap_blocks h bs"
  shows "\<exists>p h'. mem_malloc size_in h = Some (p, h') \<and>
    (p = 0 \<and> h' = h \<and> (size_in \<noteq> 0 \<longrightarrow> fit (request size_in) 0 bs = None) \<or>
     (\<exists>xs n ys. bs = xs @ (False, n) # ys \<and> fit (request size_in) 0 bs = Some (len_blocks xs) \<and> request size_in + 8 \<le> n \<and>
        p = ram h + len_blocks xs + 8 \<and> ram h' = ram h \<and> heap_blocks h' (xs @ carve (request size_in) n @ ys)))"
proof -
  let ?w = "request size_in"
  have s: "bseg h 0 0 bs 6144" and lf: "lfree h = first_free 0 bs" and ue: "m_used h 6144"
    and so: "split_ok bs" and al: "ram h mod 4 = 0" "0 < ram h" using hb by (simp_all add: heap_blocks_def)
  have find: "find_fit ?w (lfree h) h = Some (fit ?w 0 bs)"
    using find_fit_bseg [OF first_free_bseg [OF s]] by (simp add: lf fit_first_free)
  consider "size_in = 0" | "size_in \<noteq> 0" "6144 < ?w" | "size_in \<noteq> 0" "?w \<le> 6144" "fit ?w 0 bs = None" |
    q where "size_in \<noteq> 0" "?w \<le> 6144" "fit ?w 0 bs = Some q" by (metis not_le_imp_less option.exhaust)
  then show ?thesis
  proof cases
    case 1
    then show ?thesis by (simp add: mem_malloc_def)
  next
    case 2
    then have "fit ?w 0 bs = None" using bseg_end [OF s] by (intro fit_too_large) simp
    then show ?thesis using 2 request_fits(1) [of size_in] by (simp add: mem_malloc_def Let_def)
  next
    case 3
    then show ?thesis using find request_fits [of size_in] by (simp add: mem_malloc_def Let_def)
  next
    case 4
    obtain xs n ys where b: "bs = xs @ (False, n) # ys" "q = len_blocks xs" "?w + 8 \<le> n" using fit_split [OF 4(3)] by auto
    note m = bseg_middle [OF s [unfolded b], unfolded add_0]
    obtain h1 where h1: "mem_take ?w q h = Some h1" "bseg h1 0 0 (xs @ carve ?w n @ ys) 6144" "lfree h1 = lfree h" "ram h1 = ram h"
        "m_used h1 6144"
      using mem_take_bseg [OF s [unfolded b(1)] b(3) request_props(3,2)] b(2) ue by auto
    have q4: "(ram h + q) mod 4 = 0" "(ram h + q + 8) mod 4 = 0" using al(1) b(2) m(9) by presburger+
    let ?bs' = "xs @ carve ?w n @ ys"
    have used: "\<forall>x \<in> set xs. fst x" if "q = lfree h1"
    proof (rule ccontr)
      assume x: "\<not> ?thesis"
      have "bseg h 0 0 xs q" using s b(1,2) by (simp add: bseg_append)
      then have "first_free 0 xs < q" using first_free_before(2) x by blast
      then show False using that h1(3) lf b(1) first_free_append(2) [OF x] by simp
    qed
    have lf': "(if q = lfree h1 then map_option (\<lambda>cur. h1\<lparr>lfree := cur\<rparr>) (next_free (lfree h1) h1) else Some h1) =
        Some (h1\<lparr>lfree := first_free 0 ?bs'\<rparr>)"
    proof (cases "q = lfree h1")
      case True
      have "bseg h1 (last_off 0 0 xs) q (carve ?w n @ ys) 6144" using h1(2) b(2) by (simp add: bseg_append)
      then have "next_free q h1 = Some (first_free q (carve ?w n @ ys))" using h1(5) by (rule next_free_bseg)
      then show ?thesis using first_free_append(1) [OF used [OF True]] True b(2) by simp
    next
      case False
      then have "len_blocks xs \<noteq> first_free 0 bs" using h1(3) lf b(2) by simp
      then have "\<not> (\<forall>x \<in> set xs. fst x)" by (rule contrapos_nn) (simp add: b(1) first_free_append(1))
      then have "first_free 0 ?bs' = lfree h1" using h1(3) lf b(1) first_free_append(2) by metis
      then show ?thesis using False by simp
    qed
    have hb': "heap_blocks (h1\<lparr>lfree := first_free 0 ?bs'\<rparr>) ?bs'"
      using h1 al carve_split_ok so b(1) by (simp add: heap_blocks_def)
    have "first_free 0 ?bs' = 6144 \<or> \<not> m_used h1 (first_free 0 ?bs')" using h1(2) by (rule first_free_unused)
    then have "mem_malloc size_in h = Some (ram h + q + 8, h1\<lparr>lfree := first_free 0 ?bs'\<rparr>)"
      using 4 find request_fits [of size_in] h1(1,4) lf' q4 m(6) b(2,3)
      by (simp add: mem_malloc_def Let_def)
    then show ?thesis using b 4(3) hb' h1(4) by auto
  qed
qed

section \<open>Release\<close>

fun join_next :: "nat \<Rightarrow> (bool \<times> nat) list \<Rightarrow> (bool \<times> nat) list" where
  "join_next n ((False, m) # ys) = (False, n + m) # ys"
| "join_next n ys = (False, n) # ys"

definition join_prev :: "(bool \<times> nat) list \<Rightarrow> (bool \<times> nat) list \<Rightarrow> (bool \<times> nat) list" where
  "join_prev xs ys = (if xs \<noteq> [] \<and> \<not> fst (last xs) then butlast xs @ join_next (snd (last xs)) ys else xs @ ys)"

lemma last_off_snoc [simp]: "last_off p a (xs @ [(u, m)]) = a + len_blocks xs"
  by (simp add: last_off_append)

text \<open>Two neighbouring blocks become one.\<close>

lemma bseg_join:
  assumes s: "bseg h 0 0 (xs @ (u, n) # (v, m) # ys) 6144" and q: "q = len_blocks xs"
    and h': "h' = (if q + n + m \<noteq> 6144 then set_mprev (q + n + m) q (set_mnext q (q + n + m) h) else set_mnext q (q + n + m) h)"
  shows "bseg h' 0 0 (xs @ (u, n + m) # ys) 6144" "m_used h' = m_used h" "ram h' = ram h" "lfree h' = lfree h"
proof -
  note a = bseg_middle [OF s, unfolded add_0, folded q]
  have "bseg h 0 0 ((xs @ [(u, n)]) @ (v, m) # ys) 6144" using s by simp
  from bseg_middle [OF this] have b: "20 \<le> m" "m mod 4 = 0" "q + n + m \<le> 6144" "q + n + m = 6144 \<longleftrightarrow> ys = []"
    by (simp_all add: q add.assoc)
  have "(n + m) mod 4 = 0" using a(4) b(2) by presburger
  then have c: "bseg h' (last_off 0 0 xs) q [(u, n + m)] (q + (n + m))"
    using a b by (simp add: h')
  have s': "bseg h 0 0 (xs @ [(u, n), (v, m)] @ ys) 6144" using s by simp
  have "bseg h' 0 0 (xs @ [(u, n + m)] @ ys) 6144"
    by (rule bseg_replace [OF s' _ _ _ c]) (use a b in \<open>auto simp: h' q add.assoc\<close>)
  then show "bseg h' 0 0 (xs @ (u, n + m) # ys) 6144" by simp
qed (simp_all add: h')

lemma plug_next_bseg:
  assumes s: "bseg h 0 0 (xs @ (False, n) # ys) 6144" and q: "q = len_blocks xs" and "m_used h 6144" and "lfree h \<le> q"
  shows "bseg (plug_next q h) 0 0 (xs @ join_next n ys) 6144" "m_used (plug_next q h) = m_used h" "ram (plug_next q h) = ram h"
    "lfree (plug_next q h) = lfree h"
proof -
  note a = bseg_middle [OF s, unfolded add_0, folded q]
  have "bseg (plug_next q h) 0 0 (xs @ join_next n ys) 6144 \<and> m_used (plug_next q h) = m_used h \<and> ram (plug_next q h) = ram h \<and>
     lfree (plug_next q h) = lfree h"
  proof (cases "ys \<noteq> [] \<and> \<not> fst (hd ys)")
    case True
    then obtain m zs where ys: "ys = (False, m) # zs" by (cases ys) auto
    have "bseg h 0 0 ((xs @ [(False, n)]) @ (False, m) # zs) 6144" using s ys by simp
    from bseg_middle [OF this] have b: "m_next h (q + n) = q + n + m" "\<not> m_used h (q + n)" by (simp_all add: q)
    have "plug_next q h = (if q + n + m \<noteq> 6144 then set_mprev (q + n + m) q (set_mnext q (q + n + m) h) else set_mnext q (q + n + m) h)"
      using a b assms(4) ys by (simp add: plug_next_def Let_def)
    then show ?thesis using bseg_join [OF s [unfolded ys] q refl] ys by simp
  next
    case False
    have "m_used h (q + n)"
    proof (cases ys)
      case (Cons y zs)
      then obtain m where "y = (True, m)" using False by (cases y) auto
      then have "bseg h 0 0 ((xs @ [(False, n)]) @ (True, m) # zs) 6144" using s Cons by simp
      from bseg_middle(2) [OF this] show ?thesis by (simp add: q)
    qed (use a assms(3) in simp)
    then have "plug_next q h = h" using a by (simp add: plug_next_def Let_def)
    moreover have "join_next n ys = (False, n) # ys" using False by (cases "(n, ys)" rule: join_next.cases) auto
    ultimately show ?thesis using s by simp
  qed
  then show "bseg (plug_next q h) 0 0 (xs @ join_next n ys) 6144" "m_used (plug_next q h) = m_used h" "ram (plug_next q h) = ram h"
    "lfree (plug_next q h) = lfree h" by simp_all
qed

lemma plug_prev_bseg:
  assumes s: "bseg h 0 0 (xs @ (False, n) # ys) 6144" and q: "q = len_blocks xs"
    and lf: "lfree h = q \<Longrightarrow> \<forall>x \<in> set xs. fst x"
  shows "bseg (plug_prev q h) 0 0 (join_prev xs ((False, n) # ys)) 6144" "m_used (plug_prev q h) = m_used h"
    "ram (plug_prev q h) = ram h" "lfree (plug_prev q h) = lfree h"
proof -
  note a = bseg_middle [OF s, unfolded add_0, folded q]
  have "bseg (plug_prev q h) 0 0 (join_prev xs ((False, n) # ys)) 6144 \<and> m_used (plug_prev q h) = m_used h \<and>
     ram (plug_prev q h) = ram h \<and> lfree (plug_prev q h) = lfree h"
  proof (cases xs rule: rev_cases)
    case Nil
    then have "plug_prev q h = h" using a q by (simp add: plug_prev_def)
    then show ?thesis using s Nil by (simp add: join_prev_def)
  next
    case (snoc zs z)
    obtain u m where z: "z = (u, m)" by force
    have s': "bseg h 0 0 (zs @ (u, m) # (False, n) # ys) 6144" using s snoc z by simp
    note b = bseg_middle [OF s', unfolded add_0]
    have p: "m_prev h q = len_blocks zs" "q = len_blocks zs + m" using a(5) snoc z q by simp_all
    show ?thesis
    proof (cases u)
      case True
      then have "plug_prev q h = h" using b p by (simp add: plug_prev_def)
      then show ?thesis using s snoc z True by (simp add: join_prev_def)
    next
      case False
      then have "lfree h \<noteq> q" using lf snoc z by auto
      then have "plug_prev q h = (if len_blocks zs + m + n \<noteq> 6144
          then set_mprev (len_blocks zs + m + n) (len_blocks zs) (set_mnext (len_blocks zs) (len_blocks zs + m + n) h)
          else set_mnext (len_blocks zs) (len_blocks zs + m + n) h)"
        using a b p False by (simp add: plug_prev_def Let_def)
      then show ?thesis using bseg_join [OF s' refl refl] snoc z False by (simp add: join_prev_def)
    qed
  qed
  then show "bseg (plug_prev q h) 0 0 (join_prev xs ((False, n) # ys)) 6144" "m_used (plug_prev q h) = m_used h"
    "ram (plug_prev q h) = ram h" "lfree (plug_prev q h) = lfree h" by simp_all
qed

lemma join_split_ok:
  assumes "split_ok (xs @ (True, n) # ys)"
  shows "split_ok (join_prev xs (join_next n ys))"
proof -
  have ys: "split_ok (join_next n ys)" "split_ok ys"
    using assms by (cases "(n, ys)" rule: join_next.cases; auto simp: successively_append_iff successively_Cons)+
  show ?thesis
  proof (cases xs rule: rev_cases)
    case (snoc zs z)
    then show ?thesis using assms ys
      by (cases "(n, ys)" rule: join_next.cases; cases z)
        (auto simp: join_prev_def successively_append_iff successively_Cons split: if_splits)
  qed (simp add: join_prev_def ys)
qed

lemma join_first_free:
  "first_free 0 (join_prev xs (join_next n ys)) = first_free 0 (xs @ (False, n) # ys)"
proof (cases xs rule: rev_cases)
  case Nil
  then show ?thesis by (cases "(n, ys)" rule: join_next.cases) (simp_all add: join_prev_def)
next
  case (snoc zs z)
  obtain u m where z: "z = (u, m)" by force
  show ?thesis
  proof (cases "\<forall>x \<in> set zs. fst x")
    case True
    show ?thesis
      by (cases "(n, ys)" rule: join_next.cases; cases u)
        (simp_all add: join_prev_def snoc z first_free_append(1) [OF True])
  next
    case False
    show ?thesis
      by (cases "(n, ys)" rule: join_next.cases; cases u)
        (simp_all add: join_prev_def snoc z first_free_append(2) [OF False])
  qed
qed

lemma mem_link_valid_bseg:
  assumes s: "bseg h 0 0 (xs @ (u, n) # ys) 6144"
  shows "mem_link_valid (len_blocks xs) h"
proof -
  note a = bseg_middle [OF s, unfolded add_0]
  have "m_prev h (len_blocks xs) \<le> 6144 \<and> (m_prev h (len_blocks xs) = len_blocks xs \<or> m_next h (m_prev h (len_blocks xs)) = len_blocks xs)"
  proof (cases xs rule: rev_cases)
    case (snoc zs z)
    then have "bseg h 0 0 (zs @ z # (u, n) # ys) 6144" using s by simp
    then show ?thesis using a(5) snoc bseg_middle [of h 0 0 zs "fst z" "snd z" "(u, n) # ys" 6144] by (cases z) auto
  qed (use a in simp)
  then show ?thesis using a by (auto simp: mem_link_valid_def)
qed

text \<open>\<open>mem_free\<close> gives the block back and merges it with its free neighbours.\<close>

lemma mem_free_blocks:
  assumes hb: "heap_blocks h (xs @ (True, n) # ys)"
  shows "\<exists>h'. mem_free (ram h + len_blocks xs + 8) h = Some h' \<and> ram h' = ram h \<and> heap_blocks h' (join_prev xs (join_next n ys))"
proof -
  let ?q = "len_blocks xs"
  have s: "bseg h 0 0 (xs @ (True, n) # ys) 6144" and lf: "lfree h = first_free 0 (xs @ (True, n) # ys)" and ue: "m_used h 6144"
    and so: "split_ok (xs @ (True, n) # ys)" and al: "ram h mod 4 = 0" "0 < ram h" using hb by (simp_all add: heap_blocks_def)
  note a = bseg_middle [OF s, unfolded add_0]
  let ?h1 = "set_mused ?q False h"
  let ?h2 = "if ?q < lfree ?h1 then ?h1\<lparr>lfree := ?q\<rparr> else ?h1"
  have s1: "bseg h 0 0 (xs @ [(True, n)] @ ys) 6144" using s by simp
  have c: "bseg ?h1 (last_off 0 0 xs) ?q [(False, n)] (?q + n)" using a by simp
  have "bseg ?h1 0 0 (xs @ [(False, n)] @ ys) 6144"
    by (rule bseg_replace [OF s1 _ _ _ c]) (use a in auto)
  then have s2: "bseg ?h2 0 0 (xs @ (False, n) # ys) 6144" by simp
  have lf2: "lfree ?h2 = first_free 0 (xs @ (False, n) # ys)"
  proof (cases "\<forall>x \<in> set xs. fst x")
    case True
    have "?q < first_free ?q ((True, n) # ys)" using a(3) first_free_ge [of "?q + n" ys] by simp
    then show ?thesis using lf by (simp add: first_free_append(1) [OF True])
  next
    case False
    have "bseg h 0 0 xs ?q" using s by (simp add: bseg_append)
    then have "first_free 0 xs < ?q" using False first_free_before(2) by blast
    then show ?thesis using lf by (simp add: first_free_append(2) [OF False])
  qed
  have le: "lfree ?h2 \<le> ?q" by simp
  have used: "m_used ?h2 6144" using ue a(3,6) by auto
  note p = plug_next_bseg [OF s2 refl used le]
  obtain m zs where j: "join_next n ys = (False, m) # zs" by (cases "(n, ys)" rule: join_next.cases) auto
  have "\<forall>x \<in> set xs. fst x" if "lfree (plug_next ?q ?h2) = ?q"
  proof (rule ccontr)
    assume x: "\<not> ?thesis"
    have "bseg h 0 0 xs ?q" using s by (simp add: bseg_append)
    then have "first_free 0 xs < ?q" using x first_free_before(2) by blast
    then show False using that p(4) lf2 first_free_append(2) [OF x] by simp
  qed
  note r = plug_prev_bseg [OF p(1) [unfolded j] refl this, folded j]
  have link: "mem_link_valid ?q h" using s by (rule mem_link_valid_bseg)
  have "(ram h + ?q + 8) mod 4 = 0" using al(1) a(9) by presburger
  then have "mem_free (ram h + ?q + 8) h = Some (plug_prev ?q (plug_next ?q ?h2))"
    using a link by (simp add: mem_free_def plug_holes_def Let_def)
  moreover have "heap_blocks (plug_prev ?q (plug_next ?q ?h2)) (join_prev xs (join_next n ys))"
    using r p used lf2 al join_split_ok [OF so] by (simp add: heap_blocks_def join_first_free)
  ultimately show ?thesis using r p by simp
qed

section \<open>Shrinking\<close>

text \<open>What \<open>mem_trim\<close> makes of a used block of size \<open>n\<close> and the blocks behind it.\<close>

fun trim_blocks :: "nat \<Rightarrow> nat \<Rightarrow> (bool \<times> nat) list \<Rightarrow> (bool \<times> nat) list" where
  "trim_blocks w n ((False, m) # ys) = (if n = w + 8 then (True, n) # (False, m) # ys else (True, w + 8) # (False, n - (w + 8) + m) # ys)"
| "trim_blocks w n ys = (if w + 28 \<le> n then (True, w + 8) # (False, n - (w + 8)) # ys else (True, n) # ys)"

text \<open>The header of the free block moves down, or a new one is written; both updates have this form.\<close>

lemma bseg_trim:
  assumes s: "bseg h 0 0 (xs @ zs @ ys) 6144" and q: "q = len_blocks xs" and z: "len_blocks zs = w + 8 + m"
    and m: "20 \<le> m" "m mod 4 = 0" and w: "12 \<le> w" "w mod 4 = 0" and hd: "m_used h q" "m_prev h q = last_off 0 0 xs"
    and h': "h2 = set_mnext q p2 (set_mprev p2 q (set_mnext p2 (p2 + m) (set_mused p2 False h)))" and p2: "p2 = q + 8 + w"
  shows "bseg (if p2 + m \<noteq> 6144 then set_mprev (p2 + m) p2 h2 else h2) 0 0 (xs @ [(True, w + 8), (False, m)] @ ys) 6144"
proof -
  let ?h' = "if p2 + m \<noteq> 6144 then set_mprev (p2 + m) p2 h2 else h2"
  have "bseg h (last_off (last_off 0 0 xs) q zs) (p2 + m) ys 6144"
    using s z p2 q by (simp add: bseg_append add.assoc add.left_commute)
  then have ys: "ys \<noteq> [] \<Longrightarrow> p2 + m \<noteq> 6144" using bseg_end [of h _ "p2 + m" ys 6144] by (cases ys) auto
  have "(w + 8) mod 4 = 0" using w(2) by presburger
  then have c: "bseg ?h' (last_off 0 0 xs) q [(True, w + 8), (False, m)] (q + (w + 8 + m))"
    using m w hd by (simp add: h' p2)
  show ?thesis
    by (rule bseg_replace [OF s _ _ _ c]) (use z q ys m in \<open>auto simp: h' p2\<close>)
qed

lemma mem_trim_at:
  assumes q: "m_next h q = q + n" "q + n \<le> 6144" and w: "request new_size = w" "w + 8 \<le> n" and p2: "p2 = q + 8 + w"
  shows "mem_trim (ram h + q + 8) new_size h =
    (if w = n - 8 then Some (ram h + q + 8, h)
     else if \<not> m_used h (q + n)
     then do {
       LWIP_ASSERT (q + n \<noteq> MEM_SIZE_ALIGNED);
       let h1 = (if lfree h = q + n then h\<lparr>lfree := p2\<rparr> else h);
       let h2 = set_mnext q p2 (set_mprev p2 q (set_mnext p2 (m_next h (q + n)) (set_mused p2 False h1)));
       Some (ram h + q + 8, if m_next h2 p2 \<noteq> MEM_SIZE_ALIGNED then set_mprev (m_next h2 p2) p2 h2 else h2)
     }
     else if w + 8 + 12 \<le> n - 8
     then do {
       LWIP_ASSERT (q + n \<noteq> MEM_SIZE_ALIGNED);
       let h1 = (if p2 < lfree h then h\<lparr>lfree := p2\<rparr> else h);
       let h2 = set_mnext q p2 (set_mprev p2 q (set_mnext p2 (m_next h1 q) (set_mused p2 False h1)));
       Some (ram h + q + 8, if m_next h2 p2 \<noteq> MEM_SIZE_ALIGNED then set_mprev (m_next h2 p2) p2 h2 else h2)
     }
     else Some (ram h + q + 8, h))"
proof -
  have w6: "w \<le> 6144" "12 \<le> w" using q(2) w request_props(2) [of new_size] by simp_all
  then have fits: "max 12 (mem_size_t (LWIP_MEM_ALIGN_SIZE (unat new_size))) = w"
      "\<not> (6144 < w \<or> w < unat new_size)"
    using request_fits [of new_size] w(1) by auto
  have sz: "mem_size_t (u32_sub (mem_size_t (u32_sub (q + n) q)) 8) = n - 8"
    using q(2) w(2) w6 by (simp add: u32_sub_small)
  have ptr: "ram h + q + 8 - 8 - ram h = q" "mem_size_t (q + 8 + w) = p2" "w \<le> n - 8" "q + 8 < 6144" using q(2) w w6 p2 by simp_all
  show ?thesis unfolding mem_trim_def Let_def fits ptr q(1) sz using fits(2) ptr(3,4) by simp
qed

lemma mem_trim_blocks:
  assumes hb: "heap_blocks h (xs @ (True, n) # ys)" and w: "request new_size + 8 \<le> n" and last: "ys = [] \<Longrightarrow> n < request new_size + 28"
  shows "\<exists>h'. mem_trim (ram h + len_blocks xs + 8) new_size h = Some (ram h + len_blocks xs + 8, h') \<and> ram h' = ram h \<and>
    heap_blocks h' (xs @ trim_blocks (request new_size) n ys)"
proof -
  let ?q = "len_blocks xs" and ?w = "request new_size"
  define p2 where "p2 = ?q + 8 + ?w"
  have s: "bseg h 0 0 (xs @ (True, n) # ys) 6144" and lf: "lfree h = first_free 0 (xs @ (True, n) # ys)" and ue: "m_used h 6144"
    and so: "split_ok (xs @ (True, n) # ys)" and al: "ram h mod 4 = 0" "0 < ram h" using hb by (simp_all add: heap_blocks_def)
  note a = bseg_middle [OF s, unfolded add_0]
  note at = mem_trim_at [OF a(1,6) refl w p2_def]
  note rp = request_props(2,3) [of new_size]
  have n4: "(n - (?w + 8)) mod 4 = 0" using a(4) rp(2) w by presburger
  consider (free) m zs where "ys = (False, m) # zs" "n \<noteq> ?w + 8" | (used) v zs where "ys = (True, v) # zs" "?w + 28 \<le> n" |
    (same) "trim_blocks ?w n ys = (True, n) # ys" "n = ?w + 8 \<or> n < ?w + 28 \<and> m_used h (?q + n)"
  proof (cases ys)
    case Nil
    then show ?thesis using last a(7) ue w same by (auto simp: not_le)
  next
    case (Cons y zs)
    obtain u m where y: "y = (u, m)" by force
    have "bseg h 0 0 ((xs @ [(True, n)]) @ (u, m) # zs) 6144" using s Cons y by simp
    from bseg_middle(2) [OF this] have "m_used h (?q + n) = u" by simp
    then show ?thesis using Cons y free used same by (cases u; cases "?w + 28 \<le> n"; cases "n = ?w + 8") auto
  qed
  then show ?thesis
  proof cases
    case free
    have "bseg h 0 0 ((xs @ [(True, n)]) @ (False, m) # zs) 6144" using s free by simp
    from bseg_middle [OF this] have b: "m_next h (?q + n) = ?q + n + m" "\<not> m_used h (?q + n)" "20 \<le> m" "m mod 4 = 0" "?q + n + m \<le> 6144"
      by simp_all
    let ?m = "n - (?w + 8) + m"
    let ?h1 = "if lfree h = ?q + n then h\<lparr>lfree := p2\<rparr> else h"
    let ?h2 = "set_mnext ?q p2 (set_mprev p2 ?q (set_mnext p2 (p2 + ?m) (set_mused p2 False ?h1)))"
    let ?h' = "if p2 + ?m \<noteq> 6144 then set_mprev (p2 + ?m) p2 ?h2 else ?h2"
    have e: "?q + n + m = p2 + ?m" and ne: "p2 \<noteq> ?q" "?w \<noteq> n - 8" "?q + n \<noteq> 6144" using w free a(7) by (simp_all add: p2_def)
    have s': "bseg ?h1 0 0 (xs @ [(True, n), (False, m)] @ zs) 6144" using s free by simp
    have t: "bseg ?h' 0 0 (xs @ [(True, ?w + 8), (False, ?m)] @ zs) 6144"
    proof (rule bseg_trim [OF s' refl _ _ _ rp _ _ refl p2_def])
      show "?m mod 4 = 0" using n4 b(4) by presburger
    qed (use a b(3) w in auto)
    have run: "mem_trim (ram h + ?q + 8) new_size h = Some (ram h + ?q + 8, ?h')"
      unfolding at Let_def using b(2) ne by (simp add: b(1) [unfolded e] del: add.assoc)
    have so': "split_ok (xs @ [(True, ?w + 8), (False, ?m)] @ zs)" using so free by (auto simp: successively_append_iff successively_Cons)
    have lf': "lfree ?h1 = first_free 0 (xs @ [(True, ?w + 8), (False, ?m)] @ zs)"
    proof (cases "\<forall>x \<in> set xs. fst x")
      case True
      then show ?thesis using lf free by (simp add: first_free_append(1) [OF True] p2_def)
    next
      case False
      have "bseg h 0 0 xs ?q" using s by (simp add: bseg_append)
      then have "first_free 0 xs < ?q" using False first_free_before(2) by blast
      then show ?thesis using lf by (simp add: first_free_append(2) [OF False] p2_def)
    qed
    then have "heap_blocks ?h' (xs @ trim_blocks ?w n ys)"
      using t so' ue al free e b(3,5) w by (auto simp: heap_blocks_def p2_def)
    then show ?thesis using run by auto
  next
    case used
    let ?m = "n - (?w + 8)"
    have "bseg h 0 0 ((xs @ [(True, n)]) @ (True, v) # zs) 6144" using s used by simp
    from bseg_middle [OF this] have b: "m_used h (?q + n)" "20 \<le> v" "?q + n + v \<le> 6144" by simp_all
    let ?h1 = "if p2 < lfree h then h\<lparr>lfree := p2\<rparr> else h"
    let ?h2 = "set_mnext ?q p2 (set_mprev p2 ?q (set_mnext p2 (p2 + ?m) (set_mused p2 False ?h1)))"
    let ?h' = "if p2 + ?m \<noteq> 6144 then set_mprev (p2 + ?m) p2 ?h2 else ?h2"
    have e: "?q + n = p2 + ?m" and ne: "p2 \<noteq> ?q" "?q + n \<noteq> 6144" using w used(1) a(7) by (simp_all add: p2_def)
    have s': "bseg ?h1 0 0 (xs @ [(True, n)] @ ys) 6144" using s by simp
    have t: "bseg ?h' 0 0 (xs @ [(True, ?w + 8), (False, ?m)] @ ys) 6144"
      by (rule bseg_trim [OF s' refl _ _ n4 rp _ _ refl p2_def]) (use a used(2) in auto)
    have "\<not> n - 8 < ?w + 8 + 12" "n - 8 \<noteq> ?w" using used(2) by simp_all
    then have run: "mem_trim (ram h + ?q + 8) new_size h = Some (ram h + ?q + 8, ?h')"
      unfolding at Let_def using b(1) ne by (simp add: a(1) [unfolded e] del: add.assoc)
    have so': "split_ok (xs @ [(True, ?w + 8), (False, ?m)] @ ys)" using so used by (auto simp: successively_append_iff successively_Cons)
    have lf': "lfree ?h1 = first_free 0 (xs @ [(True, ?w + 8), (False, ?m)] @ ys)"
    proof (cases "\<forall>x \<in> set xs. fst x")
      case True
      have "p2 < first_free (?q + n) ys" using first_free_ge [of "?q + n" ys] used(2) by (simp add: p2_def)
      then show ?thesis using lf by (simp add: first_free_append(1) [OF True] p2_def)
    next
      case False
      have "bseg h 0 0 xs ?q" using s by (simp add: bseg_append)
      then have "first_free 0 xs < ?q" using False first_free_before(2) by blast
      then show ?thesis using lf by (simp add: first_free_append(2) [OF False] p2_def)
    qed
    then have "heap_blocks ?h' (xs @ trim_blocks ?w n ys)"
      using t so' ue al used b w by (auto simp: heap_blocks_def p2_def)
    then show ?thesis using run by auto
  next
    case same
    then show ?thesis unfolding at using hb by auto
  qed
qed

section \<open>The heap as an allocator\<close>

text \<open>The areas in use are what lies behind the headers of the used blocks.\<close>

fun areas :: "nat \<Rightarrow> (bool \<times> nat) list \<Rightarrow> (nat \<times> nat) list" where
  "areas a [] = []"
| "areas a ((u, n) # bs) = (if u then [(a + 8, n - 8)] else []) @ areas (a + n) bs"

lemma areas_append: "areas a (xs @ ys) = areas a xs @ areas (a + len_blocks xs) ys"
  by (induction a xs rule: areas.induct) (auto simp: add.assoc)

lemma areas_bounds:
  assumes "bseg h p a bs b" and "x \<in> set (areas (r + a) bs)"
  shows "r + a + 8 \<le> fst x" "fst x + snd x \<le> r + b" "12 \<le> snd x" "(r + a) mod 4 = 0 \<Longrightarrow> fst x mod 4 = 0"
proof -
  have "r + a + 8 \<le> fst x \<and> fst x + snd x \<le> r + b \<and> 12 \<le> snd x \<and> ((r + a) mod 4 = 0 \<longrightarrow> fst x mod 4 = 0)"
    using assms
  proof (induction bs arbitrary: p a)
    case (Cons y bs)
    obtain u n where y: "y = (u, n)" by force
    have s: "bseg h a (a + n) bs b" "20 \<le> n" "n mod 4 = 0" using Cons.prems(1) y by auto
    have e: "b = a + n + len_blocks bs" using bseg_end [OF s(1)] .
    show ?case
    proof (cases "x = (r + a + 8, n - 8) \<and> u")
      case True
      then have x: "x = (r + a + 8, n - 8)" by simp
      have "(r + a + 8) mod 4 = 0" if "(r + a) mod 4 = 0" using that by presburger
      then show ?thesis using s e x by simp
    next
      case False
      then have "x \<in> set (areas (r + (a + n)) bs)" using Cons.prems(2) y by (auto split: if_splits simp: add.assoc)
      from Cons.IH [OF s(1) this] have i: "r + (a + n) + 8 \<le> fst x" "fst x + snd x \<le> r + b" "12 \<le> snd x"
          "(r + (a + n)) mod 4 = 0 \<longrightarrow> fst x mod 4 = 0" by simp_all
      have "(r + (a + n)) mod 4 = 0" if "(r + a) mod 4 = 0" using that s(3) by presburger
      then show ?thesis using i by simp
    qed
  qed simp
  then show "r + a + 8 \<le> fst x" "fst x + snd x \<le> r + b" "12 \<le> snd x" "(r + a) mod 4 = 0 \<Longrightarrow> fst x mod 4 = 0" by simp_all
qed

lemma areas_apart: "bseg h p a bs b \<Longrightarrow> sorted_wrt apart (areas (r + a) bs)"
proof (induction bs arbitrary: p a)
  case (Cons y bs)
  obtain u n where y: "y = (u, n)" by force
  have s: "bseg h a (a + n) bs b" "20 \<le> n" using Cons.prems y by auto
  have "apart (r + a + 8, n - 8) x" if "x \<in> set (areas (r + (a + n)) bs)" for x
    using areas_bounds(1) [OF s(1) that] s(2) by (simp add: apart_iff)
  then show ?case using Cons.IH [OF s(1)] y by (simp add: add.assoc)
qed simp

lemma sorted_apart_perm:
  assumes "sorted_wrt apart xs" and "mset ys = mset xs" and pos: "\<And>x. x \<in> set xs \<Longrightarrow> 0 < snd x"
  shows "sorted_wrt apart ys"
proof -
  have "distinct xs \<and> (\<forall>x \<in> set xs. \<forall>y \<in> set xs. x \<noteq> y \<longrightarrow> apart x y)"
    using assms(1) pos
  proof (induction xs)
    case (Cons x xs)
    then have "x \<notin> set xs" by (fastforce simp: apart_iff)
    then show ?case using Cons by (auto simp: apart_iff)
  qed simp
  moreover have "set ys = set xs" "distinct ys \<longleftrightarrow> distinct xs"
    using assms(2) by (metis set_mset_mset) (metis assms(2) mset_eq_imp_distinct_iff)
  ultimately have "distinct ys" "\<forall>x \<in> set ys. \<forall>y \<in> set ys. x \<noteq> y \<longrightarrow> apart x y" by simp_all
  then show ?thesis by (induction ys) auto
qed

definition lheap_live :: "lheap \<Rightarrow> (nat \<times> nat) list \<Rightarrow> bool" where
  "lheap_live h A \<longleftrightarrow> (\<exists>bs. heap_blocks h bs \<and> mset A = mset (areas (ram h) bs))"

lemma areas_carve: "w + 8 \<le> n \<Longrightarrow> \<exists>k \<ge> w. areas a (carve w n) = [(a + 8, k)]"
  by (auto simp: carve_def)

lemma mem_malloc_live:
  assumes "lheap_live h A"
  shows "\<exists>p h'. mem_malloc w h = Some (p, h') \<and> (p = 0 \<and> lheap_live h' A \<or> p \<noteq> 0 \<and> (\<exists>n \<ge> unat w. lheap_live h' ((p, n) # A)))"
proof -
  obtain bs where bs: "heap_blocks h bs" "mset A = mset (areas (ram h) bs)" using assms by (auto simp: lheap_live_def)
  obtain p h' where r: "mem_malloc w h = Some (p, h')" and
    d: "p = 0 \<and> h' = h \<or>
     (\<exists>xs n ys. bs = xs @ (False, n) # ys \<and> request w + 8 \<le> n \<and> p = ram h + len_blocks xs + 8 \<and> ram h' = ram h \<and>
        heap_blocks h' (xs @ carve (request w) n @ ys))"
    using mem_malloc_blocks [OF bs(1), of w] by blast
  from d show ?thesis
  proof
    assume "p = 0 \<and> h' = h"
    then show ?thesis using r assms by simp
  next
    assume "\<exists>xs n ys. bs = xs @ (False, n) # ys \<and> request w + 8 \<le> n \<and> p = ram h + len_blocks xs + 8 \<and> ram h' = ram h \<and>
        heap_blocks h' (xs @ carve (request w) n @ ys)"
    then obtain xs n ys where e: "bs = xs @ (False, n) # ys" "request w + 8 \<le> n" "p = ram h + len_blocks xs + 8" "ram h' = ram h"
        "heap_blocks h' (xs @ carve (request w) n @ ys)" by blast
    obtain k where k: "k \<ge> request w" "areas (ram h + len_blocks xs) (carve (request w) n) = [(p, k)]"
      using areas_carve [OF e(2), of "ram h + len_blocks xs"] e(3) by auto
    have "len_blocks (carve (request w) n) = n" using e(2) by (simp add: carve_def)
    then have "mset ((p, k) # A) = mset (areas (ram h') (xs @ carve (request w) n @ ys))"
      using bs(2) e(1,4) k(2) by (simp add: areas_append add.assoc)
    then have "lheap_live h' ((p, k) # A)" using e(5) by (auto simp: lheap_live_def)
    then show ?thesis using r k(1) e(3) request_props(1) [of w] by (auto intro: le_trans)
  qed
qed

lemma areas_member: "x \<in> set (areas a bs) \<Longrightarrow> \<exists>xs n ys. bs = xs @ (True, n) # ys \<and> x = (a + len_blocks xs + 8, n - 8)"
proof (induction a bs rule: areas.induct)
  case (2 a u n bs)
  show ?case
  proof (cases "u \<and> x = (a + 8, n - 8)")
    case True
    then show ?thesis by (intro exI [of _ "[]"]) auto
  next
    case False
    then obtain xs m ys where "bs = xs @ (True, m) # ys" "x = (a + n + len_blocks xs + 8, m - 8)" using 2 by (auto split: if_splits)
    then show ?thesis by (intro exI [of _ "(u, n) # xs"]) auto
  qed
qed simp

lemma areas_join_next: "areas a (join_next n ys) = areas (a + n) ys"
  by (cases "(n, ys)" rule: join_next.cases) (auto simp: add.assoc)

lemma areas_join: "areas a (join_prev xs (join_next n ys)) = areas a xs @ areas (a + len_blocks xs + n) ys"
proof (cases xs rule: rev_cases)
  case (snoc zs z)
  obtain m ws where "join_next n ys = (False, m) # ws" by (cases "(n, ys)" rule: join_next.cases) auto
  moreover from this have "areas (b + m) ws = areas (b + n) ys" for b using areas_join_next [of b n ys] by simp
  from this [of "a + len_blocks xs"] have "areas (a + len_blocks xs + m) ws = areas (a + len_blocks xs + n) ys" .
  ultimately show ?thesis using snoc by (cases z) (auto simp: join_prev_def areas_append add.assoc)
qed (simp add: join_prev_def areas_join_next)

lemma mem_free_live:
  assumes "lheap_live h (A @ (p, n) # B)"
  shows "\<exists>h'. mem_free p h = Some h' \<and> lheap_live h' (A @ B)"
proof -
  obtain bs where bs: "heap_blocks h bs" "mset (A @ (p, n) # B) = mset (areas (ram h) bs)" using assms by (auto simp: lheap_live_def)
  then have "(p, n) \<in> set (areas (ram h) bs)" by (metis in_set_conv_decomp set_mset_mset)
  then obtain xs m ys where e: "bs = xs @ (True, m) # ys" "p = ram h + len_blocks xs + 8" "n = m - 8" using areas_member by blast
  obtain h' where h': "mem_free p h = Some h'" "ram h' = ram h" "heap_blocks h' (join_prev xs (join_next m ys))"
    using mem_free_blocks [OF bs(1) [unfolded e(1)]] e(2) by blast
  have "mset (A @ B) = mset (areas (ram h') (join_prev xs (join_next m ys)))"
    using bs(2) e h'(2) by (simp add: areas_join areas_append add.assoc)
  then show ?thesis using h' by (auto simp: lheap_live_def)
qed

lemma lheap_live_apart: "lheap_live h A \<Longrightarrow> sorted_wrt apart A"
proof -
  assume "lheap_live h A"
  then obtain bs where bs: "bseg h 0 0 bs 6144" "mset A = mset (areas (ram h) bs)" by (auto simp: lheap_live_def heap_blocks_def)
  have "0 < snd x" if "x \<in> set (areas (ram h) bs)" for x using areas_bounds(3) [OF bs(1), of x "ram h"] that by simp
  then show ?thesis using sorted_apart_perm [OF areas_apart [OF bs(1), of "ram h", simplified] bs(2)] by blast
qed

lemma lheap_live_aligned: "lheap_live h A \<Longrightarrow> (p, n) \<in> set A \<Longrightarrow> p mod 4 = 0"
proof -
  assume "lheap_live h A" and x: "(p, n) \<in> set A"
  then obtain bs where bs: "bseg h 0 0 bs 6144" "mset A = mset (areas (ram h) bs)" "ram h mod 4 = 0"
    by (auto simp: lheap_live_def heap_blocks_def)
  then have "(p, n) \<in> set (areas (ram h) bs)" using x by (metis set_mset_mset)
  then show ?thesis using areas_bounds(4) [OF bs(1), of "(p, n)" "ram h"] bs(3) by simp
qed

lemma areas_none: "areas a bs = [] \<Longrightarrow> split_ok bs \<Longrightarrow> bs = [] \<or> (\<exists>n. bs = [(False, n)])"
  by (cases bs rule: remdups_adj.cases) (auto split: if_splits)

lemma lheap_live_none: "lheap_live h [] \<Longrightarrow> heap_blocks h [(False, MEM_SIZE_ALIGNED)]"
proof -
  assume "lheap_live h []"
  then obtain bs where bs: "heap_blocks h bs" "areas (ram h) bs = []" by (auto simp: lheap_live_def)
  then show ?thesis using areas_none [OF bs(2)] by (auto simp: heap_blocks_def)
qed

interpretation mem_heap: reclaiming_allocator mem_malloc mem_free lheap_live 4 "\<lambda>h. heap_blocks h [(False, MEM_SIZE_ALIGNED)]"
  by unfold_locales (use mem_malloc_live mem_free_live lheap_live_apart lheap_live_aligned lheap_live_none in blast)+

section \<open>Properties\<close>

lemma mem_init_blocks:
  assumes "0 < b"
  shows "heap_blocks (mem_init b h) [(False, MEM_SIZE_ALIGNED)]"
proof -
  have "b \<le> (b + 3) div 4 * 4" by presburger
  then show ?thesis using assms by (simp add: heap_blocks_def mem_init_def LWIP_MEM_ALIGN_SIZE_def)
qed

definition blank_heap :: lheap where
  "blank_heap = \<lparr>ram = 0, m_next = \<lambda>_. 0, m_prev = \<lambda>_. 0, m_used = \<lambda>_. False, lfree = 0\<rparr>"




lemma blank_heap_filled:
  "\<exists>h. mem_malloc 100 (mem_init 536887300 blank_heap) = Some (536887308, h) \<and> heap_blocks h [(True, 108), (False, 6036)] \<and> ram h = 536887300"
  "\<exists>h. mem_malloc 6120 (mem_init 536887300 blank_heap) = Some (536887308, h) \<and> heap_blocks h [(True, 6144)] \<and> ram h = 536887300"
proof -
  have b: "heap_blocks (mem_init 536887300 blank_heap) [(False, 6144)]" by (rule mem_init_blocks) simp
  have r: "ram (mem_init 536887300 blank_heap) = 536887300" by (simp add: mem_init_def LWIP_MEM_ALIGN_SIZE_def)
  show "\<exists>h. mem_malloc 100 (mem_init 536887300 blank_heap) = Some (536887308, h) \<and> heap_blocks h [(True, 108), (False, 6036)] \<and> ram h = 536887300"
    using mem_malloc_blocks [OF b, of 100] r by (auto simp: Cons_eq_append_conv request_def LWIP_MEM_ALIGN_SIZE_def carve_def)
  show "\<exists>h. mem_malloc 6120 (mem_init 536887300 blank_heap) = Some (536887308, h) \<and> heap_blocks h [(True, 6144)] \<and> ram h = 536887300"
    using mem_malloc_blocks [OF b, of 6120] r by (auto simp: Cons_eq_append_conv request_def LWIP_MEM_ALIGN_SIZE_def carve_def)
qed




end
