(* ===== verification/Pbuf.thy ===== *)
theory Pbuf
  imports Lwip_Mem
begin

text \<open>
  \<open>LWIP/src/core/pbuf.c\<close> and the pools of \<open>LWIP/src/core/memp.c\<close> it allocates from: the packet buffers of
  the network stack. A packet is a chain of \<open>struct pbuf\<close>; every pbuf refers to its share of the data,
  counts its references and carries the length of the data from it to the end of the packet. The
  state keeps each field as a function of the address of the pbuf, the bytes of the memory, the free
  lists of the two pools and the heap of \<open>mem.c\<close>. A free element of a pool keeps its link in the word
  that is the field \<open>next\<close> of a pbuf (\<open>struct memp\<close> starts the same way), so both are one function here.
  Lengths (\<open>u16_t\<close>) and reference counts (\<open>u8_t\<close>) are natural numbers with the conversions written out.
  \<open>None\<close> means that an \<open>LWIP_ASSERT\<close> stopped the system, a null pointer was followed or a walk does
  not end; \<open>LWIP_ERROR\<close> is an early return. Custom pbufs are configured out (\<open>IP_FRAG\<close> is 0). When the
  pool is empty \<open>pbuf_alloc\<close> posts a callback to the TCP/IP thread; whether that is accepted is an
  argument of the definitions.
\<close>

section \<open>Types and state\<close>

datatype memp_t = MEMP_PBUF | MEMP_PBUF_POOL
datatype pbuf_layer = PBUF_TRANSPORT | PBUF_IP | PBUF_LINK | PBUF_RAW_TX | PBUF_RAW
datatype pbuf_type = PBUF_RAM | PBUF_ROM | PBUF_REF | PBUF_POOL
datatype err_t = ERR_OK | ERR_MEM | ERR_ARG | ERR_VAL | ERR_IF | ERR_NEED_SCHED

record pbufs =
  p_next :: "nat \<Rightarrow> nat"
  payload :: "nat \<Rightarrow> nat"
  tot_len :: "nat \<Rightarrow> nat"
  len :: "nat \<Rightarrow> nat"
  type_internal :: "nat \<Rightarrow> u8"
  flags :: "nat \<Rightarrow> u8"
  ref :: "nat \<Rightarrow> nat"
  if_idx :: "nat \<Rightarrow> u8"
  mem_at :: "nat \<Rightarrow> u8"
  memp_tab :: "memp_t \<Rightarrow> nat"
  heap :: lheap
  pbuf_free_ooseq_pending :: bool

abbreviation (input) SIZEOF_STRUCT_PBUF :: nat where "SIZEOF_STRUCT_PBUF \<equiv> 16"
abbreviation (input) PBUF_POOL_BUFSIZE_ALIGNED :: nat where "PBUF_POOL_BUFSIZE_ALIGNED \<equiv> 512"

text \<open>The values of the enumerations.\<close>

fun layer_offset :: "pbuf_layer \<Rightarrow> nat" where
  "layer_offset PBUF_TRANSPORT = 54"
| "layer_offset PBUF_IP = 34"
| "layer_offset PBUF_LINK = 14"
| "layer_offset PBUF_RAW_TX = 0"
| "layer_offset PBUF_RAW = 0"

fun type_value :: "pbuf_type \<Rightarrow> u8" where
  "type_value PBUF_RAM = 0x80"
| "type_value PBUF_ROM = 0x01"
| "type_value PBUF_REF = 0x41"
| "type_value PBUF_POOL = 0x82"

definition u16_t :: "nat \<Rightarrow> nat" where "u16_t n = n mod 2 ^ 16"
definition u8_t :: "nat \<Rightarrow> nat" where "u8_t n = n mod 2 ^ 8"

abbreviation set_pnext :: "nat \<Rightarrow> nat \<Rightarrow> pbufs \<Rightarrow> pbufs" where
  "set_pnext p v s \<equiv> s\<lparr>p_next := (p_next s)(p := v)\<rparr>"
abbreviation set_payload :: "nat \<Rightarrow> nat \<Rightarrow> pbufs \<Rightarrow> pbufs" where
  "set_payload p v s \<equiv> s\<lparr>payload := (payload s)(p := v)\<rparr>"
abbreviation set_tot_len :: "nat \<Rightarrow> nat \<Rightarrow> pbufs \<Rightarrow> pbufs" where
  "set_tot_len p v s \<equiv> s\<lparr>tot_len := (tot_len s)(p := v)\<rparr>"
abbreviation set_len :: "nat \<Rightarrow> nat \<Rightarrow> pbufs \<Rightarrow> pbufs" where
  "set_len p v s \<equiv> s\<lparr>len := (len s)(p := v)\<rparr>"
abbreviation set_ref :: "nat \<Rightarrow> nat \<Rightarrow> pbufs \<Rightarrow> pbufs" where
  "set_ref p v s \<equiv> s\<lparr>ref := (ref s)(p := v)\<rparr>"

text \<open>\<open>MEMCPY\<close> between areas that do not overlap.\<close>

definition memcpy :: "nat \<Rightarrow> nat \<Rightarrow> nat \<Rightarrow> pbufs \<Rightarrow> pbufs" where
  "memcpy dst src n s = s\<lparr>mem_at := \<lambda>a. if dst \<le> a \<and> a < dst + n then mem_at s (src + (a - dst)) else mem_at s a\<rparr>"

section \<open>The pools\<close>

definition memp_malloc :: "memp_t \<Rightarrow> pbufs \<Rightarrow> (nat \<times> pbufs) option" where
  "memp_malloc t s =
     (let memp = memp_tab s t
      in if memp \<noteq> 0
         then do {
           LWIP_ASSERT (memp mod 4 = 0);
           Some (memp, s\<lparr>memp_tab := (memp_tab s)(t := p_next s memp)\<rparr>)
         }
         else Some (0, s))"

definition memp_free :: "memp_t \<Rightarrow> nat \<Rightarrow> pbufs \<Rightarrow> pbufs option" where
  "memp_free t mem s =
     (if mem = 0 then Some s
      else do {
        LWIP_ASSERT (mem mod 4 = 0);
        Some (s\<lparr>p_next := (p_next s)(mem := memp_tab s t), memp_tab := (memp_tab s)(t := mem)\<rparr>)
      })"

text \<open>\<open>memp_init_pool\<close>: the elements of a pool, \<open>num\<close> of them from \<open>base\<close>, are linked from the last to the first.\<close>

fun memp_link :: "memp_t \<Rightarrow> nat \<Rightarrow> nat \<Rightarrow> nat \<Rightarrow> pbufs \<Rightarrow> pbufs" where
  "memp_link t 0 memp elem s = s"
| "memp_link t (Suc i) memp elem s =
     memp_link t i (memp + elem) elem (s\<lparr>p_next := (p_next s)(memp := memp_tab s t), memp_tab := (memp_tab s)(t := memp)\<rparr>)"

definition memp_init_pool :: "memp_t \<Rightarrow> nat \<Rightarrow> nat \<Rightarrow> nat \<Rightarrow> pbufs \<Rightarrow> pbufs" where
  "memp_init_pool t base num elem s = memp_link t num (LWIP_MEM_ALIGN_SIZE base) elem (s\<lparr>memp_tab := (memp_tab s)(t := 0)\<rparr>)"

section \<open>Releasing\<close>

text \<open>
  The loop of \<open>pbuf_free\<close>: the reference is given up, and a pbuf without references goes back to where
  it came from and gives up its reference to the next one.
\<close>

definition pbuf_deallocate :: "nat \<Rightarrow> pbufs \<Rightarrow> pbufs option" where
  "pbuf_deallocate p s =
     (let alloc_src = type_internal s p AND 0x0F
      in if alloc_src = 0x02 then memp_free MEMP_PBUF_POOL p s
         else if alloc_src = 0x01 then memp_free MEMP_PBUF p s
         else if alloc_src = 0x00 then map_option (\<lambda>h. s\<lparr>heap := h\<rparr>) (mem_free p (heap s))
         else None)"

partial_function (option) pbuf_free_loop :: "nat \<Rightarrow> nat \<Rightarrow> pbufs \<Rightarrow> (nat \<times> pbufs) option" where
  "pbuf_free_loop p n s =
     (if p = 0 then Some (n, s)
      else if ref s p = 0 then None
      else if ref s p - 1 = 0
           then Option.bind (pbuf_deallocate p (set_ref p 0 s)) (\<lambda>s1. pbuf_free_loop (p_next s p) (u8_t (n + 1)) s1)
           else Some (n, set_ref p (ref s p - 1) s))"

definition pbuf_free :: "nat \<Rightarrow> pbufs \<Rightarrow> (nat \<times> pbufs) option" where
  "pbuf_free p s = do { LWIP_ASSERT (p \<noteq> 0); pbuf_free_loop p 0 s }"

section \<open>Allocating\<close>

definition pbuf_init_alloced_pbuf :: "nat \<Rightarrow> nat \<Rightarrow> nat \<Rightarrow> nat \<Rightarrow> pbuf_type \<Rightarrow> u8 \<Rightarrow> pbufs \<Rightarrow> pbufs" where
  "pbuf_init_alloced_pbuf p pl tot l t f s =
     s\<lparr>p_next := (p_next s)(p := 0), payload := (payload s)(p := pl), tot_len := (tot_len s)(p := tot),
       len := (len s)(p := l), type_internal := (type_internal s)(p := type_value t),
       flags := (flags s)(p := f), ref := (ref s)(p := 1), if_idx := (if_idx s)(p := 0)\<rparr>"

definition pbuf_alloc_reference :: "nat \<Rightarrow> nat \<Rightarrow> pbuf_type \<Rightarrow> pbufs \<Rightarrow> (nat \<times> pbufs) option" where
  "pbuf_alloc_reference pl sz t s = do {
     LWIP_ASSERT (t = PBUF_REF \<or> t = PBUF_ROM);
     (p, s1) \<leftarrow> memp_malloc MEMP_PBUF s;
     if p = 0 then Some (0, s1) else Some (p, pbuf_init_alloced_pbuf p pl sz sz t 0 s1)
   }"

text \<open>
  \<open>pbuf_pool_is_empty\<close> asks the TCP/IP thread to free out-of-sequence data; \<open>queued\<close> tells whether
  \<open>tcpip_try_callback\<close> accepts the call.
\<close>

definition pbuf_pool_is_empty :: "bool \<Rightarrow> pbufs \<Rightarrow> pbufs" where
  "pbuf_pool_is_empty accepted s =
     (let queued = pbuf_free_ooseq_pending s; s1 = s\<lparr>pbuf_free_ooseq_pending := True\<rparr>
      in if \<not> queued then (if accepted then s1 else s1\<lparr>pbuf_free_ooseq_pending := False\<rparr>) else s1)"

partial_function (option) pool_alloc_loop :: "bool \<Rightarrow> nat \<Rightarrow> nat \<Rightarrow> nat \<Rightarrow> nat \<Rightarrow> pbufs \<Rightarrow> (nat \<times> pbufs) option" where
  "pool_alloc_loop accepted p last_p rem_len offset s =
     Option.bind (memp_malloc MEMP_PBUF_POOL s) (\<lambda>(q, s1).
       if q = 0
       then (let s2 = pbuf_pool_is_empty accepted s1
             in if p \<noteq> 0 then Option.bind (pbuf_free p s2) (\<lambda>(c, s3). Some (0, s3)) else Some (0, s2))
       else
         (let qlen = min rem_len (u16_t (PBUF_POOL_BUFSIZE_ALIGNED - LWIP_MEM_ALIGN_SIZE offset));
              pl = LWIP_MEM_ALIGN_SIZE (q + SIZEOF_STRUCT_PBUF + offset);
              s2 = pbuf_init_alloced_pbuf q pl rem_len qlen PBUF_POOL 0 s1;
              s3 = (if p = 0 then s2 else set_pnext last_p q s2);
              p' = (if p = 0 then q else p);
              rem' = u16_t (rem_len - qlen)
          in if pl mod 4 = 0 \<and> LWIP_MEM_ALIGN_SIZE offset < PBUF_POOL_BUFSIZE_ALIGNED
             then (if 0 < rem' then pool_alloc_loop accepted p' q rem' 0 s3 else Some (p', s3))
             else None))"

definition pbuf_alloc_ram :: "nat \<Rightarrow> nat \<Rightarrow> pbufs \<Rightarrow> (nat \<times> pbufs) option" where
  "pbuf_alloc_ram offset sz s =
     (let payload_len = mem_size_t (LWIP_MEM_ALIGN_SIZE offset + LWIP_MEM_ALIGN_SIZE sz);
          alloc_len = mem_size_t (SIZEOF_STRUCT_PBUF + payload_len)
      in if payload_len < LWIP_MEM_ALIGN_SIZE sz \<or> alloc_len < LWIP_MEM_ALIGN_SIZE sz then Some (0, s)
         else do {
           (p, h) \<leftarrow> mem_malloc (of_nat alloc_len) (heap s);
           if p = 0 then Some (0, s\<lparr>heap := h\<rparr>)
           else do {
             let pl = LWIP_MEM_ALIGN_SIZE (p + SIZEOF_STRUCT_PBUF + offset);
             LWIP_ASSERT (pl mod 4 = 0);
             Some (p, pbuf_init_alloced_pbuf p pl sz sz PBUF_RAM 0 (s\<lparr>heap := h\<rparr>))
           }
         })"

fun pbuf_alloc :: "bool \<Rightarrow> pbuf_layer \<Rightarrow> nat \<Rightarrow> pbuf_type \<Rightarrow> pbufs \<Rightarrow> (nat \<times> pbufs) option" where
  "pbuf_alloc accepted layer sz PBUF_REF s = pbuf_alloc_reference 0 sz PBUF_REF s"
| "pbuf_alloc accepted layer sz PBUF_ROM s = pbuf_alloc_reference 0 sz PBUF_ROM s"
| "pbuf_alloc accepted layer sz PBUF_POOL s = pool_alloc_loop accepted 0 0 sz (layer_offset layer) s"
| "pbuf_alloc accepted layer sz PBUF_RAM s = pbuf_alloc_ram (layer_offset layer) sz s"

section \<open>Headers\<close>

text \<open>Both results \<open>True\<close> and \<open>1\<close> of the code mean failure; the state is then unchanged.\<close>

definition pbuf_add_header_impl :: "bool \<Rightarrow> nat \<Rightarrow> nat \<Rightarrow> pbufs \<Rightarrow> (bool \<times> pbufs) option" where
  "pbuf_add_header_impl force p inc s = do {
     LWIP_ASSERT (p \<noteq> 0);
     if 0xFFFF < inc then Some (True, s)
     else if inc = 0 then Some (False, s)
     else if u16_t (inc + tot_len s p) < inc then Some (True, s)
     else do {
       let pl = u32_sub (payload s p) inc;
       if type_internal s p AND 0x80 \<noteq> 0 \<and> pl < p + SIZEOF_STRUCT_PBUF then Some (True, s)
       else if type_internal s p AND 0x80 = 0 \<and> \<not> force then Some (True, s)
       else Some (False, set_tot_len p (u16_t (tot_len s p + inc)) (set_len p (u16_t (len s p + inc)) (set_payload p pl s)))
     }
   }"

definition pbuf_add_header :: "nat \<Rightarrow> nat \<Rightarrow> pbufs \<Rightarrow> (bool \<times> pbufs) option" where
  "pbuf_add_header = pbuf_add_header_impl False"

definition pbuf_add_header_force :: "nat \<Rightarrow> nat \<Rightarrow> pbufs \<Rightarrow> (bool \<times> pbufs) option" where
  "pbuf_add_header_force = pbuf_add_header_impl True"

definition pbuf_remove_header :: "nat \<Rightarrow> nat \<Rightarrow> pbufs \<Rightarrow> (bool \<times> pbufs) option" where
  "pbuf_remove_header p dec s = do {
     LWIP_ASSERT (p \<noteq> 0);
     if 0xFFFF < dec then Some (True, s)
     else if dec = 0 then Some (False, s)
     else if len s p < dec then Some (True, s)
     else Some (False, set_tot_len p (u16_t (tot_len s p + 2 ^ 16 - dec)) (set_len p (len s p - dec) (set_payload p (payload s p + dec) s)))
   }"

definition pbuf_header_impl :: "bool \<Rightarrow> nat \<Rightarrow> int \<Rightarrow> pbufs \<Rightarrow> (bool \<times> pbufs) option" where
  "pbuf_header_impl force p inc s =
     (if inc < 0 then pbuf_remove_header p (nat (- inc)) s else pbuf_add_header_impl force p (nat inc) s)"

definition pbuf_header :: "nat \<Rightarrow> int \<Rightarrow> pbufs \<Rightarrow> (bool \<times> pbufs) option" where
  "pbuf_header = pbuf_header_impl False"

definition pbuf_header_force :: "nat \<Rightarrow> int \<Rightarrow> pbufs \<Rightarrow> (bool \<times> pbufs) option" where
  "pbuf_header_force = pbuf_header_impl True"

text \<open>\<open>pbuf_free_header\<close> drops bytes from the front and frees the pbufs that become empty.\<close>

partial_function (option) pbuf_free_header :: "nat \<Rightarrow> nat \<Rightarrow> pbufs \<Rightarrow> (nat \<times> pbufs) option" where
  "pbuf_free_header p free_left s =
     (if free_left \<noteq> 0 \<and> p \<noteq> 0
      then (if len s p \<le> free_left
            then Option.bind (pbuf_free p (set_pnext p 0 s)) (\<lambda>(c, s1). pbuf_free_header (p_next s p) (free_left - len s p) s1)
            else Option.bind (pbuf_remove_header p free_left s) (\<lambda>(e, s1). Some (p, s1)))
      else Some (p, s))"

section \<open>Chains\<close>

text \<open>
  \<open>pbuf_realloc\<close> shortens a packet: the walk to the pbuf that holds the new end adjusts the total
  lengths before it; that pbuf is cut (and its memory shrunk if it is on the heap) and the rest is freed.
\<close>

partial_function (option) realloc_walk :: "nat \<Rightarrow> nat \<Rightarrow> nat \<Rightarrow> pbufs \<Rightarrow> (nat \<times> nat \<times> pbufs) option" where
  "realloc_walk q rem_len shrink s =
     (if len s q < rem_len
      then (let s1 = set_tot_len q (u16_t (tot_len s q + 2 ^ 16 - shrink)) s
            in if p_next s q \<noteq> 0 then realloc_walk (p_next s q) (rem_len - len s q) shrink s1 else None)
      else Some (q, rem_len, s))"

definition pbuf_realloc :: "nat \<Rightarrow> nat \<Rightarrow> pbufs \<Rightarrow> pbufs option" where
  "pbuf_realloc p new_len s = do {
     LWIP_ASSERT (p \<noteq> 0);
     if tot_len s p \<le> new_len then Some s
     else do {
       (q, rem_len, s1) \<leftarrow> realloc_walk p new_len (tot_len s p - new_len) s;
       s2 \<leftarrow> (if type_internal s1 q AND 0x0F = 0 \<and> rem_len \<noteq> len s1 q
             then do {
               (q', h) \<leftarrow> mem_trim q (of_nat (mem_size_t (payload s1 q - q + rem_len))) (heap s1);
               LWIP_ASSERT (q' \<noteq> 0);
               Some (s1\<lparr>heap := h\<rparr>)
             }
             else Some s1);
       let s3 = set_tot_len q rem_len (set_len q rem_len s2);
       s4 \<leftarrow> (if p_next s3 q \<noteq> 0 then map_option snd (pbuf_free (p_next s3 q) s3) else Some s3);
       Some (set_pnext q 0 s4)
     }
   }"

partial_function (option) pbuf_clen_loop :: "nat \<Rightarrow> nat \<Rightarrow> pbufs \<Rightarrow> nat option" where
  "pbuf_clen_loop p n s = (if p = 0 then Some n else pbuf_clen_loop (p_next s p) (u16_t (n + 1)) s)"

definition pbuf_clen :: "nat \<Rightarrow> pbufs \<Rightarrow> nat option" where
  "pbuf_clen p s = pbuf_clen_loop p 0 s"

definition pbuf_ref :: "nat \<Rightarrow> pbufs \<Rightarrow> pbufs option" where
  "pbuf_ref p s =
     (if p \<noteq> 0 then do { let s1 = set_ref p (u8_t (ref s p + 1)) s; LWIP_ASSERT (0 < ref s1 p); Some s1 } else Some s)"

partial_function (option) cat_walk :: "nat \<Rightarrow> nat \<Rightarrow> pbufs \<Rightarrow> (nat \<times> pbufs) option" where
  "cat_walk p t s =
     (if p_next s p \<noteq> 0 then cat_walk (p_next s p) t (set_tot_len p (u16_t (tot_len s p + tot_len s t)) s) else Some (p, s))"

definition pbuf_cat :: "nat \<Rightarrow> nat \<Rightarrow> pbufs \<Rightarrow> pbufs option" where
  "pbuf_cat h t s =
     (if h = 0 \<or> t = 0 then Some s
      else do {
        (p, s1) \<leftarrow> cat_walk h t s;
        LWIP_ASSERT (tot_len s1 p = len s1 p);
        Some (set_pnext p t (set_tot_len p (u16_t (tot_len s1 p + tot_len s1 t)) s1))
      })"

definition pbuf_chain :: "nat \<Rightarrow> nat \<Rightarrow> pbufs \<Rightarrow> pbufs option" where
  "pbuf_chain h t s = Option.bind (pbuf_cat h t s) (pbuf_ref t)"

definition pbuf_dechain :: "nat \<Rightarrow> pbufs \<Rightarrow> (nat \<times> pbufs) option" where
  "pbuf_dechain p s =
     (let q = p_next s p
      in do {
        (tail_gone, s2) \<leftarrow>
          (if q \<noteq> 0
           then do {
             LWIP_ASSERT (int (tot_len s q) = int (tot_len s p) - int (len s p));
             let s1 = set_tot_len p (len s p) (set_pnext p 0 (set_tot_len q (u16_t (tot_len s p + 2 ^ 16 - len s p)) s));
             pbuf_free q s1
           }
           else Some (1, s));
        LWIP_ASSERT (tot_len s2 p = len s2 p);
        Some (if 0 < tail_gone then 0 else q, s2)
      })"

section \<open>Data\<close>

partial_function (option) pbuf_skip_const :: "nat \<Rightarrow> nat \<Rightarrow> pbufs \<Rightarrow> (nat \<times> nat) option" where
  "pbuf_skip_const q offset_left s =
     (if q \<noteq> 0 \<and> len s q \<le> offset_left then pbuf_skip_const (p_next s q) (offset_left - len s q) s else Some (q, offset_left))"

definition pbuf_skip :: "nat \<Rightarrow> nat \<Rightarrow> pbufs \<Rightarrow> (nat \<times> nat) option" where
  "pbuf_skip = pbuf_skip_const"

text \<open>The copy out of a chain; the result is the number of bytes copied.\<close>

partial_function (option) copy_partial_loop :: "nat \<Rightarrow> nat \<Rightarrow> nat \<Rightarrow> nat \<Rightarrow> nat \<Rightarrow> pbufs \<Rightarrow> (nat \<times> pbufs) option" where
  "copy_partial_loop p dataptr n offset left s =
     (if n \<noteq> 0 \<and> p \<noteq> 0
      then (if offset \<noteq> 0 \<and> len s p \<le> offset
            then copy_partial_loop (p_next s p) dataptr n (offset - len s p) left s
            else (let buf_copy_len = min n (u16_t (len s p + 2 ^ 16 - offset));
                      s1 = memcpy (dataptr + left) (payload s p + offset) buf_copy_len s
                  in copy_partial_loop (p_next s p) dataptr (n - buf_copy_len) 0 (u16_t (left + buf_copy_len)) s1))
      else Some (left, s))"

definition pbuf_copy_partial :: "nat \<Rightarrow> nat \<Rightarrow> nat \<Rightarrow> nat \<Rightarrow> pbufs \<Rightarrow> (nat \<times> pbufs) option" where
  "pbuf_copy_partial buf dataptr n offset s =
     (if buf = 0 \<or> dataptr = 0 then Some (0, s) else copy_partial_loop buf dataptr n offset 0 s)"

definition pbuf_get_contiguous :: "nat \<Rightarrow> nat \<Rightarrow> nat \<Rightarrow> nat \<Rightarrow> nat \<Rightarrow> pbufs \<Rightarrow> (nat \<times> pbufs) option" where
  "pbuf_get_contiguous p buffer bufsize n offset s =
     (if p = 0 \<or> buffer = 0 \<or> bufsize < n then Some (0, s)
      else do {
        (q, out_offset) \<leftarrow> pbuf_skip_const p offset s;
        if q = 0 then Some (0, s)
        else if out_offset + n \<le> len s q then Some (payload s q + out_offset, s)
        else do {
          (copied, s1) \<leftarrow> pbuf_copy_partial q buffer n out_offset s;
          Some (if copied \<noteq> n then 0 else buffer, s1)
        }
      })"

text \<open>The copy into a chain.\<close>

partial_function (option) take_loop :: "nat \<Rightarrow> nat \<Rightarrow> nat \<Rightarrow> nat \<Rightarrow> pbufs \<Rightarrow> pbufs option" where
  "take_loop p dataptr total_copy_len copied_total s =
     (if total_copy_len \<noteq> 0
      then (if p = 0 then None
            else (let buf_copy_len = min total_copy_len (len s p);
                      s1 = memcpy (payload s p) (dataptr + copied_total) buf_copy_len s
                  in take_loop (p_next s p) dataptr (total_copy_len - buf_copy_len) (copied_total + buf_copy_len) s1))
      else Some s)"

definition pbuf_take :: "nat \<Rightarrow> nat \<Rightarrow> nat \<Rightarrow> pbufs \<Rightarrow> (err_t \<times> pbufs) option" where
  "pbuf_take buf dataptr n s =
     (if buf = 0 \<or> dataptr = 0 then Some (ERR_ARG, s)
      else if tot_len s buf < n then Some (ERR_MEM, s)
      else map_option (\<lambda>s1. (ERR_OK, s1)) (take_loop buf dataptr n 0 s))"

definition pbuf_take_at :: "nat \<Rightarrow> nat \<Rightarrow> nat \<Rightarrow> nat \<Rightarrow> pbufs \<Rightarrow> (err_t \<times> pbufs) option" where
  "pbuf_take_at buf dataptr n offset s = do {
     (q, target_offset) \<leftarrow> pbuf_skip buf offset s;
     if q \<noteq> 0 \<and> target_offset + n \<le> tot_len s q
     then do {
       LWIP_ASSERT (target_offset < len s q);
       let first_copy_len = min (len s q - target_offset) n;
       let s1 = memcpy (payload s q + target_offset) dataptr first_copy_len s;
       if 0 < n - first_copy_len then pbuf_take (p_next s1 q) (dataptr + first_copy_len) (n - first_copy_len) s1
       else Some (ERR_OK, s1)
     }
     else Some (ERR_MEM, s)
   }"

text \<open>The copy from one chain to another.\<close>

partial_function (option) copy_pbuf_loop :: "nat \<Rightarrow> nat \<Rightarrow> nat \<Rightarrow> nat \<Rightarrow> nat \<Rightarrow> pbufs \<Rightarrow> (err_t \<times> pbufs) option" where
  "copy_pbuf_loop p_to p_from copy_len offset_to offset_from s =
     (let len_calc = (if u32_sub (len s p_from) offset_from \<le> u32_sub (len s p_to) offset_to
                      then u32_sub (len s p_from) offset_from else u32_sub (len s p_to) offset_to);
          n = u16_t (min copy_len len_calc);
          s1 = memcpy (payload s p_to + offset_to) (payload s p_from + offset_from) n s;
          o_to = offset_to + n; o_from = offset_from + n; rest = u16_t (copy_len + 2 ^ 16 - n);
          from_done = (len s p_from \<le> o_from); to_done = (o_to = len s p_to);
          p_from' = (if from_done then p_next s p_from else p_from); o_from' = (if from_done then 0 else o_from);
          p_to' = (if to_done then p_next s p_to else p_to); o_to' = (if to_done then 0 else o_to)
      in if len s p_to < o_to \<or> len s p_from < o_from then None
         else if from_done \<and> p_from' = 0 \<and> rest \<noteq> 0 then Some (ERR_ARG, s1)
         else if to_done \<and> p_to' = 0 \<and> rest \<noteq> 0 then Some (ERR_ARG, s1)
         else if p_from' \<noteq> 0 \<and> len s p_from' = tot_len s p_from' \<and> p_next s p_from' \<noteq> 0 then Some (ERR_VAL, s1)
         else if p_to' \<noteq> 0 \<and> len s p_to' = tot_len s p_to' \<and> p_next s p_to' \<noteq> 0 then Some (ERR_VAL, s1)
         else if rest \<noteq> 0 then copy_pbuf_loop p_to' p_from' rest o_to' o_from' s1
         else Some (ERR_OK, s1))"

definition pbuf_copy_partial_pbuf :: "nat \<Rightarrow> nat \<Rightarrow> nat \<Rightarrow> nat \<Rightarrow> pbufs \<Rightarrow> (err_t \<times> pbufs) option" where
  "pbuf_copy_partial_pbuf p_to p_from copy_len offset s =
     (if \<not> (p_from \<noteq> 0 \<and> copy_len \<le> tot_len s p_from) then Some (ERR_ARG, s)
      else if \<not> (p_to \<noteq> 0 \<and> offset + copy_len \<le> tot_len s p_to) then Some (ERR_ARG, s)
      else copy_pbuf_loop p_to p_from copy_len offset 0 s)"

definition pbuf_copy :: "nat \<Rightarrow> nat \<Rightarrow> pbufs \<Rightarrow> (err_t \<times> pbufs) option" where
  "pbuf_copy p_to p_from s =
     (if p_from = 0 then Some (ERR_ARG, s) else pbuf_copy_partial_pbuf p_to p_from (tot_len s p_from) 0 s)"

definition pbuf_clone :: "bool \<Rightarrow> pbuf_layer \<Rightarrow> pbuf_type \<Rightarrow> nat \<Rightarrow> pbufs \<Rightarrow> (nat \<times> pbufs) option" where
  "pbuf_clone accepted layer t p s = do {
     (q, s1) \<leftarrow> pbuf_alloc accepted layer (tot_len s p) t s;
     if q = 0 then Some (0, s1)
     else do { (e, s2) \<leftarrow> pbuf_copy q p s1; LWIP_ASSERT (e = ERR_OK); Some (q, s2) }
   }"

definition pbuf_coalesce :: "bool \<Rightarrow> nat \<Rightarrow> pbuf_layer \<Rightarrow> pbufs \<Rightarrow> (nat \<times> pbufs) option" where
  "pbuf_coalesce accepted p layer s =
     (if p_next s p = 0 then Some (p, s)
      else do {
        (q, s1) \<leftarrow> pbuf_clone accepted layer PBUF_RAM p s;
        if q = 0 then Some (p, s1)
        else do { (c, s2) \<leftarrow> pbuf_free p s1; Some (q, s2) }
      })"

text \<open>Access to single bytes and comparisons. \<open>None\<close> inside the result of \<open>pbuf_try_get_at\<close> is the code's \<open>-1\<close>.\<close>

definition pbuf_try_get_at :: "nat \<Rightarrow> nat \<Rightarrow> pbufs \<Rightarrow> u8 option option" where
  "pbuf_try_get_at p offset s = do {
     (q, q_idx) \<leftarrow> pbuf_skip_const p offset s;
     Some (if q \<noteq> 0 \<and> q_idx < len s q then Some (mem_at s (payload s q + q_idx)) else None)
   }"

definition pbuf_get_at :: "nat \<Rightarrow> nat \<Rightarrow> pbufs \<Rightarrow> u8 option" where
  "pbuf_get_at p offset s = map_option (\<lambda>r. case r of Some b \<Rightarrow> b | None \<Rightarrow> 0) (pbuf_try_get_at p offset s)"

definition pbuf_put_at :: "nat \<Rightarrow> nat \<Rightarrow> u8 \<Rightarrow> pbufs \<Rightarrow> pbufs option" where
  "pbuf_put_at p offset data s = do {
     (q, q_idx) \<leftarrow> pbuf_skip p offset s;
     Some (if q \<noteq> 0 \<and> q_idx < len s q then s\<lparr>mem_at := (mem_at s)(payload s q + q_idx := data)\<rparr> else s)
   }"

fun memcmp_loop :: "nat \<Rightarrow> nat \<Rightarrow> u8 list \<Rightarrow> nat \<Rightarrow> pbufs \<Rightarrow> nat option" where
  "memcmp_loop q start [] i s = Some 0"
| "memcmp_loop q start (b # bs) i s =
     Option.bind (pbuf_get_at q (u16_t (start + i)) s)
       (\<lambda>a. if a \<noteq> b then Some (u16_t (min (i + 1) 0xFFFF)) else memcmp_loop q start bs (i + 1) s)"

definition pbuf_memcmp :: "nat \<Rightarrow> nat \<Rightarrow> u8 list \<Rightarrow> pbufs \<Rightarrow> nat option" where
  "pbuf_memcmp p offset s2 s =
     (if tot_len s p < offset + length s2 then Some 0xffff
      else do { (q, start) \<leftarrow> pbuf_skip_const p offset s; memcmp_loop q start s2 0 s })"

partial_function (option) memfind_loop :: "nat \<Rightarrow> u8 list \<Rightarrow> nat \<Rightarrow> nat \<Rightarrow> pbufs \<Rightarrow> nat option" where
  "memfind_loop p mem i max_cmp_start s =
     (if i \<le> max_cmp_start
      then Option.bind (pbuf_memcmp p i mem s) (\<lambda>plus. if plus = 0 then Some i else memfind_loop p mem (u16_t (i + 1)) max_cmp_start s)
      else Some 0xFFFF)"

definition pbuf_memfind :: "nat \<Rightarrow> u8 list \<Rightarrow> nat \<Rightarrow> pbufs \<Rightarrow> nat option" where
  "pbuf_memfind p mem start_offset s =
     (if length mem + start_offset \<le> tot_len s p
      then memfind_loop p mem start_offset (u16_t (tot_len s p + 2 ^ 16 - length mem)) s
      else Some 0xFFFF)"

definition pbuf_strstr :: "nat \<Rightarrow> u8 list \<Rightarrow> pbufs \<Rightarrow> nat option" where
  "pbuf_strstr p substr s =
     (if substr = [] \<or> tot_len s p = 0xFFFF then Some 0xFFFF
      else if 0xFFFF \<le> length substr then Some 0xFFFF
      else pbuf_memfind p substr 0 s)"

end
