(* ===== verification/Pbuf_Chain.thy ===== *)
theory Pbuf_Chain
  imports Pbuf
begin

text \<open>
  Packets as chains of pbufs (\<open>LWIP/src/core/pbuf.c\<close>): what allocation takes from the pool and what
  release gives back, the total lengths along a chain, and joining, splitting and shortening of
  packets. \<open>packet s p qs\<close> says that the pbufs \<open>qs\<close> form the packet at \<open>p\<close>.
\<close>

lemma u16_t_small [simp]: "n < 65536 \<Longrightarrow> u16_t n = n"
  by (simp add: u16_t_def)

lemma u16_t_sub:
  assumes "k \<le> a" and "a < 2 ^ 16"
  shows "u16_t (a + 2 ^ 16 - k) = a - k"
proof -
  have "a + 2 ^ 16 - k = 2 ^ 16 + (a - k)" using assms(1) by simp
  then show ?thesis using assms by (simp only: u16_t_def mod_add_self1) simp
qed

section \<open>Linked pbufs\<close>

fun pchain :: "(nat \<Rightarrow> nat) \<Rightarrow> nat \<Rightarrow> nat list \<Rightarrow> bool" where
  "pchain nx p [] \<longleftrightarrow> p = 0"
| "pchain nx p (q # qs) \<longleftrightarrow> p = q \<and> q \<noteq> 0 \<and> pchain nx (nx q) qs"

lemma pchain_upd [simp]: "a \<notin> set qs \<Longrightarrow> pchain (nx(a := v)) p qs = pchain nx p qs"
  by (induction qs arbitrary: p) auto

lemma pchain_0 [simp]: "pchain nx 0 qs \<longleftrightarrow> qs = []"
  by (cases qs) auto

lemma pchain_cong: "\<forall>q \<in> set qs. nx' q = nx q \<Longrightarrow> pchain nx' p qs = pchain nx p qs"
  by (induction qs arbitrary: p) auto

lemma pchain_hd: "pchain nx p qs \<Longrightarrow> p = (if qs = [] then 0 else hd qs)"
  by (cases qs) auto

lemma pchain_nonnull: "pchain nx p qs \<Longrightarrow> q \<in> set qs \<Longrightarrow> q \<noteq> 0"
  by (induction qs arbitrary: p) auto

lemma pchain_cut: "pchain nx p (xs @ q # ys) \<Longrightarrow> q \<notin> set xs \<Longrightarrow> pchain (nx(q := 0)) p (xs @ [q])"
  by (induction xs arbitrary: p) auto

lemma pchain_split: "pchain nx p (xs @ ys) \<Longrightarrow> pchain nx (if xs = [] then p else nx (last xs)) ys"
  by (induction xs arbitrary: p) (auto split: if_splits)

lemma pchain_join:
  "pchain nx p xs \<Longrightarrow> distinct xs \<Longrightarrow> xs \<noteq> [] \<Longrightarrow> pchain nx t ys \<Longrightarrow> set xs \<inter> set ys = {} \<Longrightarrow> pchain (nx(last xs := t)) p (xs @ ys)"
proof (induction xs arbitrary: p)
  case (Cons x xs)
  show ?case
  proof (cases "xs = []")
    case True
    then show ?thesis using Cons.prems pchain_upd [of x ys nx t t] by (simp add: fun_upd_def)
  next
    case False
    then show ?thesis using Cons.IH [of "nx x"] Cons.prems by auto
  qed
qed simp

abbreviation lens :: "pbufs \<Rightarrow> nat list \<Rightarrow> nat" where
  "lens s qs \<equiv> sum_list (map (len s) qs)"

text \<open>The total lengths, with \<open>r\<close> bytes behind the last pbuf.\<close>

fun tots :: "pbufs \<Rightarrow> nat \<Rightarrow> nat list \<Rightarrow> bool" where
  "tots s r [] \<longleftrightarrow> True"
| "tots s r (q # qs) \<longleftrightarrow> tot_len s q = len s q + lens s qs + r \<and> tots s r qs"

definition packet :: "pbufs \<Rightarrow> nat \<Rightarrow> nat list \<Rightarrow> bool" where
  "packet s p qs \<longleftrightarrow> pchain (p_next s) p qs \<and> distinct qs \<and> tots s 0 qs \<and> lens s qs < 2 ^ 16"

lemma tots_cong:
  "\<forall>q \<in> set qs. tot_len s' q = tot_len s q \<and> len s' q = len s q \<Longrightarrow> tots s' r qs = tots s r qs"
  by (induction qs) (auto intro!: arg_cong [where f = sum_list])

lemma tots_append: "tots s r (xs @ ys) \<longleftrightarrow> tots s (lens s ys + r) xs \<and> tots s r ys"
  by (induction xs) (auto simp: add.assoc)

lemma tots_le: "tots s r qs \<Longrightarrow> q \<in> set qs \<Longrightarrow> tot_len s q \<le> lens s qs + r"
  by (induction qs) auto

lemma tots_ge: "tots s r qs \<Longrightarrow> q \<in> set qs \<Longrightarrow> r \<le> tot_len s q"
  by (induction qs) auto

lemma tots_shift:
  assumes "tots s r qs" and "\<forall>q \<in> set qs. tot_len s' q = tot_len s q + k \<and> len s' q = len s q"
  shows "tots s' (r + k) qs"
  using assms
proof (induction qs)
  case (Cons q qs)
  then have "map (len s') qs = map (len s) qs" by simp
  then have "lens s' qs = lens s qs" by (simp only:)
  then show ?case using Cons by simp
qed simp

lemma tots_unshift:
  assumes "tots s (r + k) qs" and "\<forall>q \<in> set qs. tot_len s q = tot_len s' q + k \<and> len s' q = len s q"
  shows "tots s' r qs"
  using assms
proof (induction qs)
  case (Cons q qs)
  then have "map (len s') qs = map (len s) qs" by simp
  then have "lens s' qs = lens s qs" by (simp only:)
  then show ?case using Cons by simp
qed simp

section \<open>Release\<close>

text \<open>The elements of the pool that are free, in the order of the list.\<close>

definition pool :: "pbufs \<Rightarrow> nat list \<Rightarrow> bool" where
  "pool s fs \<longleftrightarrow> pchain (p_next s) (memp_tab s MEMP_PBUF_POOL) fs \<and> distinct fs \<and> (\<forall>q \<in> set fs. q mod 4 = 0)"

definition from_pool :: "pbufs \<Rightarrow> nat \<Rightarrow> bool" where
  "from_pool s q \<longleftrightarrow> type_internal s q = type_value PBUF_POOL \<and> q mod 4 = 0"

text \<open>
  \<open>released ps s s'\<close>: one reference to the first of \<open>ps\<close> was given up. The pbufs up to the first one
  with another reference went back to the pool, that one lost a reference, and nothing else changed.
\<close>

definition freed :: "pbufs \<Rightarrow> nat list \<Rightarrow> nat list" where
  "freed s ps = takeWhile (\<lambda>q. ref s q = 1) ps"

definition released :: "nat list \<Rightarrow> pbufs \<Rightarrow> pbufs \<Rightarrow> bool" where
  "released ps s s' \<longleftrightarrow> s' = s\<lparr>p_next := p_next s', memp_tab := memp_tab s', ref := ref s'\<rparr> \<and>
     memp_tab s' MEMP_PBUF = memp_tab s MEMP_PBUF \<and> (\<forall>x. x \<notin> set (freed s ps) \<longrightarrow> p_next s' x = p_next s x) \<and>
     (\<forall>x. ref s' x = (if x \<in> set (freed s ps) then 0
                      else if dropWhile (\<lambda>q. ref s q = 1) ps \<noteq> [] \<and> x = hd (dropWhile (\<lambda>q. ref s q = 1) ps) then ref s x - 1
                      else ref s x))"

lemma pbuf_free_loop_pool:
  assumes "pchain (p_next s) p ps" and "pool s fs" and "distinct ps" and "set ps \<inter> set fs = {}"
    and "\<forall>q \<in> set ps. from_pool s q \<and> 0 < ref s q"
  shows "\<exists>s'. pbuf_free_loop p (u8_t n) s = Some (u8_t (n + length (freed s ps)), s') \<and> released ps s s' \<and> pool s' (rev (freed s ps) @ fs)"
  using assms
proof (induction ps arbitrary: p n s fs)
  case Nil
  then show ?case by (subst pbuf_free_loop.simps) (auto simp: released_def freed_def)
next
  case (Cons q qs)
  have p: "p = q" "q \<noteq> 0" "pchain (p_next s) (p_next s q) qs" using Cons.prems(1) by auto
  have q: "from_pool s q" "0 < ref s q" using Cons.prems(5) by auto
  show ?case
  proof (cases "ref s q = 1")
    case False
    then have "pbuf_free_loop p (u8_t n) s = Some (u8_t n, set_ref q (ref s q - 1) s)"
      using p q by (subst pbuf_free_loop.simps) auto
    moreover have "released (q # qs) s (set_ref q (ref s q - 1) s)" using False by (auto simp: released_def freed_def)
    ultimately show ?thesis using False Cons.prems(2) by (auto simp: freed_def pool_def)
  next
    case True
    let ?s1 = "s\<lparr>ref := (ref s)(q := 0), p_next := (p_next s)(q := memp_tab s MEMP_PBUF_POOL),
      memp_tab := (memp_tab s)(MEMP_PBUF_POOL := q)\<rparr>"
    have d: "pbuf_deallocate q (set_ref q 0 s) = Some ?s1"
      using q(1) p(2) by (simp add: pbuf_deallocate_def memp_free_def from_pool_def)
    have dis: "q \<notin> set qs" "distinct qs" "q \<notin> set fs" "set qs \<inter> set (q # fs) = {}" using Cons.prems(3,4) by auto
    have "pool ?s1 (q # fs)" using Cons.prems(2) dis(3) p(2) q(1) by (auto simp: pool_def from_pool_def)
    moreover have "pchain (p_next ?s1) (p_next s q) qs" using p(3) dis(1) by simp
    moreover have "\<forall>x \<in> set qs. from_pool ?s1 x \<and> 0 < ref ?s1 x" using Cons.prems(5) dis(1) by (auto simp: from_pool_def)
    ultimately obtain s' where s': "pbuf_free_loop (p_next s q) (u8_t (n + 1)) ?s1 = Some (u8_t (n + 1 + length (freed ?s1 qs)), s')"
        "released qs ?s1 s'" "pool s' (rev (freed ?s1 qs) @ q # fs)"
      using Cons.IH [OF _ _ dis(2,4)] by blast
    have f: "freed ?s1 qs = freed s qs" "dropWhile (\<lambda>x. ref ?s1 x = 1) qs = dropWhile (\<lambda>x. ref s x = 1) qs"
      using dis(1) by (auto simp: freed_def intro!: takeWhile_cong dropWhile_cong)
    have run: "pbuf_free_loop p (u8_t n) s = Some (u8_t (n + length (freed s (q # qs))), s')"
      using s'(1) p True d f(1) by (subst pbuf_free_loop.simps) (auto simp: u8_t_def freed_def mod_Suc_eq)
    have "s' = s\<lparr>p_next := p_next s', memp_tab := memp_tab s', ref := ref s'\<rparr>" using s'(2) by (simp add: released_def)
    moreover have "memp_tab s' MEMP_PBUF = memp_tab s MEMP_PBUF" using s'(2) by (simp add: released_def)
    moreover have "p_next s' x = p_next s x" if "x \<notin> set (freed s (q # qs))" for x
      using s'(2) that True f by (auto simp: released_def freed_def)
    moreover have "ref s' x = (if x \<in> set (freed s (q # qs)) then 0
        else if dropWhile (\<lambda>q. ref s q = 1) (q # qs) \<noteq> [] \<and> x = hd (dropWhile (\<lambda>q. ref s q = 1) (q # qs)) then ref s x - 1 else ref s x)" for x
      using s'(2) True f dis(1) set_dropWhileD hd_in_set by (fastforce simp: released_def freed_def)
    ultimately have "released (q # qs) s s'" unfolding released_def by blast
    then show ?thesis using run s'(3) f(1) True by (auto simp: freed_def)
  qed
qed

section \<open>Allocation from the pool\<close>

text \<open>Nothing changed but the pbufs in \<open>X\<close> and the free list of the pool.\<close>

definition untouched :: "nat set \<Rightarrow> pbufs \<Rightarrow> pbufs \<Rightarrow> bool" where
  "untouched X s s' \<longleftrightarrow> mem_at s' = mem_at s \<and> heap s' = heap s \<and> memp_tab s' MEMP_PBUF = memp_tab s MEMP_PBUF \<and>
     (\<forall>x. x \<notin> X \<longrightarrow> p_next s' x = p_next s x \<and> payload s' x = payload s x \<and> tot_len s' x = tot_len s x \<and> len s' x = len s x \<and>
        type_internal s' x = type_internal s x \<and> flags s' x = flags s x \<and> ref s' x = ref s x \<and> if_idx s' x = if_idx s x)"

lemma untouched_trans: "untouched X s s' \<Longrightarrow> untouched Y s' s'' \<Longrightarrow> Y \<subseteq> X \<Longrightarrow> untouched X s s''"
  unfolding untouched_def by (metis subsetD)

lemma untouched_mono: "untouched X s s' \<Longrightarrow> X \<subseteq> Y \<Longrightarrow> untouched Y s s'"
  unfolding untouched_def by blast

lemma released_untouched:
  assumes "released ps s s'"
  shows "untouched (set ps) s s'"
proof -
  have r: "s' = s\<lparr>p_next := p_next s', memp_tab := memp_tab s', ref := ref s'\<rparr>" "memp_tab s' MEMP_PBUF = memp_tab s MEMP_PBUF"
    using assms by (auto simp: released_def)
  have "p_next s' x = p_next s x \<and> ref s' x = ref s x" if x: "x \<notin> set ps" for x
  proof -
    have "x \<notin> set (freed s ps)" using x by (auto simp: freed_def dest: set_takeWhileD)
    moreover have "dropWhile (\<lambda>q. ref s q = 1) ps \<noteq> [] \<Longrightarrow> x \<noteq> hd (dropWhile (\<lambda>q. ref s q = 1) ps)"
      using x hd_in_set set_dropWhileD by metis
    ultimately show ?thesis using assms by (auto simp: released_def)
  qed
  moreover have "mem_at s' = mem_at s" "heap s' = heap s" "payload s' = payload s" "tot_len s' = tot_len s" "len s' = len s"
    "type_internal s' = type_internal s" "flags s' = flags s" "if_idx s' = if_idx s" by (subst r(1), simp)+
  ultimately show ?thesis using r(2) by (simp add: untouched_def)
qed

text \<open>The data of a pbuf of the pool lies in its element.\<close>

definition in_slot :: "pbufs \<Rightarrow> nat \<Rightarrow> bool" where
  "in_slot s q \<longleftrightarrow> q + SIZEOF_STRUCT_PBUF \<le> payload s q \<and> payload s q + len s q \<le> q + (SIZEOF_STRUCT_PBUF + PBUF_POOL_BUFSIZE_ALIGNED)"

text \<open>A packet of new pbufs that still lacks \<open>r\<close> bytes.\<close>

definition under_way :: "pbufs \<Rightarrow> nat \<Rightarrow> nat list \<Rightarrow> nat \<Rightarrow> bool" where
  "under_way s p ps r \<longleftrightarrow> pchain (p_next s) p ps \<and> tots s r ps \<and> (\<forall>q \<in> set ps. from_pool s q \<and> ref s q = 1 \<and> in_slot s q)"

definition room :: "nat list \<Rightarrow> nat \<Rightarrow> nat \<Rightarrow> bool" where
  "room fs n off \<longleftrightarrow> fs \<noteq> [] \<and> n + LWIP_MEM_ALIGN_SIZE off \<le> PBUF_POOL_BUFSIZE_ALIGNED * length fs"

lemma align_4: "q mod 4 = 0 \<Longrightarrow> LWIP_MEM_ALIGN_SIZE (q + n) = q + LWIP_MEM_ALIGN_SIZE n"
  unfolding LWIP_MEM_ALIGN_SIZE_def by presburger

lemma align_props: "LWIP_MEM_ALIGN_SIZE n mod 4 = 0" "n \<le> LWIP_MEM_ALIGN_SIZE n" "LWIP_MEM_ALIGN_SIZE n < n + 4" "LWIP_MEM_ALIGN_SIZE 0 = 0"
  unfolding LWIP_MEM_ALIGN_SIZE_def by presburger+

text \<open>One round of the loop: the first free element becomes the last pbuf of the packet.\<close>

definition extend_by :: "nat \<Rightarrow> nat \<Rightarrow> nat \<Rightarrow> nat \<Rightarrow> nat \<Rightarrow> pbufs \<Rightarrow> pbufs" where
  "extend_by g last_p p n off s =
     (let s2 = pbuf_init_alloced_pbuf g (g + 16 + LWIP_MEM_ALIGN_SIZE off) n (min n (512 - LWIP_MEM_ALIGN_SIZE off)) PBUF_POOL 0
                 (s\<lparr>memp_tab := (memp_tab s)(MEMP_PBUF_POOL := p_next s g)\<rparr>)
      in if p = 0 then s2 else set_pnext last_p g s2)"

lemma pool_alloc_loop_step:
  assumes "memp_tab s MEMP_PBUF_POOL = g" and "g \<noteq> 0" and "g mod 4 = 0" and "off \<le> 54" and "n < 2 ^ 16"
  shows "pool_alloc_loop acc p last_p n off s =
    (if 0 < n - min n (512 - LWIP_MEM_ALIGN_SIZE off)
     then pool_alloc_loop acc (if p = 0 then g else p) g (n - min n (512 - LWIP_MEM_ALIGN_SIZE off)) 0 (extend_by g last_p p n off s)
     else Some (if p = 0 then g else p, extend_by g last_p p n off s))"
proof -
  have al: "LWIP_MEM_ALIGN_SIZE (g + 16 + off) = g + 16 + LWIP_MEM_ALIGN_SIZE off" "(g + 16 + LWIP_MEM_ALIGN_SIZE off) mod 4 = 0"
      "LWIP_MEM_ALIGN_SIZE off < 512"
    using align_4 [of "g + 16" off] align_props(1,3) [of off] assms(3,4) by presburger+
  have u: "u16_t (512 - LWIP_MEM_ALIGN_SIZE off) = 512 - LWIP_MEM_ALIGN_SIZE off" "u16_t (n - k) = n - k" for k using assms(5) by simp_all
  show ?thesis
    using assms(1-3) al by (subst pool_alloc_loop.simps) (simp add: memp_malloc_def extend_by_def Let_def u)
qed

lemma extend_by_under_way:
  assumes w: "under_way s p ps n" and pl: "pool s (g # gs)" and dis: "distinct (ps @ g # gs)"
    and l: "ps \<noteq> [] \<Longrightarrow> last_p = last ps" and off: "off \<le> 54"
  defines "s' \<equiv> extend_by g last_p p n off s" and "k \<equiv> min n (512 - LWIP_MEM_ALIGN_SIZE off)"
  shows "under_way s' (if p = 0 then g else p) (ps @ [g]) (n - k)" "pool s' gs" "untouched (set (ps @ [g])) s s'"
    "\<forall>q \<in> set ps. len s' q = len s q" "len s' g = k"
proof -
  have g: "g \<noteq> 0" "g mod 4 = 0" "memp_tab s MEMP_PBUF_POOL = g" "pchain (p_next s) (p_next s g) gs" "distinct gs" "\<forall>q \<in> set gs. q mod 4 = 0"
    using pl by (auto simp: pool_def)
  have ng: "g \<notin> set ps" "g \<notin> set gs" "distinct ps" "set ps \<inter> set gs = {}" using dis by auto
  have p0: "p = 0 \<longleftrightarrow> ps = []" using w pchain_hd [of "p_next s" p ps] pchain_nonnull [of "p_next s" p ps "hd ps"] by (auto simp: under_way_def)
  have last_p: "ps \<noteq> [] \<Longrightarrow> last_p \<in> set ps" using l by simp
  note defs = s'_def extend_by_def pbuf_init_alloced_pbuf_def Let_def
  show kl: "len s' g = k" by (simp add: defs k_def)
  show "\<forall>q \<in> set ps. len s' q = len s q" using ng(1) by (auto simp: defs)
  have nx: "p_next s' = (if ps = [] then (p_next s)(g := 0) else (p_next s)(g := 0, last ps := g))"
    using p0 l ng(1) by (auto simp: defs)
  show "untouched (set (ps @ [g])) s s'" using last_p p0 by (auto simp: untouched_def defs)
  have "ps \<noteq> [] \<Longrightarrow> last ps \<notin> set gs" using ng(4) last_in_set by blast
  then have "pchain (p_next s') (p_next s g) gs" using g(4) ng(2) unfolding nx by simp
  moreover have "memp_tab s' MEMP_PBUF_POOL = p_next s g" by (simp add: defs)
  ultimately show "pool s' gs" using g(5,6) unfolding pool_def by simp
  have "pchain (p_next s') (if p = 0 then g else p) (ps @ [g])"
  proof (cases "ps = []")
    case True
    then show ?thesis using nx p0 g(1) by simp
  next
    case False
    have "pchain ((p_next s)(g := 0)) p ps" using w ng(1) by (simp add: under_way_def)
    then have "pchain (((p_next s)(g := 0))(last ps := g)) p (ps @ [g])" by (rule pchain_join) (use False ng g(1) in auto)
    then show ?thesis using False nx p0 by simp
  qed
  moreover have "tots s' (n - k) (ps @ [g])"
  proof -
    have "tots s' n ps = tots s n ps" by (rule tots_cong) (use ng(1) in \<open>auto simp: defs\<close>)
    then have "tots s' n ps" using w by (simp add: under_way_def)
    moreover have "k + (n - k) = n" by (simp add: k_def)
    moreover have "tot_len s' g = n" by (simp add: defs)
    ultimately show ?thesis by (simp add: tots_append kl)
  qed
  moreover have "from_pool s' q \<and> ref s' q = 1 \<and> in_slot s' q" if "q \<in> set (ps @ [g])" for q
  proof (cases "q = g")
    case True
    have "16 + LWIP_MEM_ALIGN_SIZE off + min n (512 - LWIP_MEM_ALIGN_SIZE off) \<le> 528" using align_props(3) [of off] off by simp
    then show ?thesis using True g(2) by (auto simp: defs from_pool_def in_slot_def)
  next
    case False
    then show ?thesis using that w by (auto simp: under_way_def defs from_pool_def in_slot_def)
  qed
  ultimately show "under_way s' (if p = 0 then g else p) (ps @ [g]) (n - k)" unfolding under_way_def by blast
qed

lemma pool_alloc_loop_spec:
  assumes "under_way s p ps n" and "pool s gs" and "distinct (ps @ gs)" and "ps \<noteq> [] \<Longrightarrow> last_p = last ps \<and> off = 0 \<and> 0 < n"
    and "off \<le> 54" and "n < 2 ^ 16"
  shows "if room gs n off
    then \<exists>as bs s'. gs = as @ bs \<and> as \<noteq> [] \<and> pool_alloc_loop acc p last_p n off s = Some (hd (ps @ as), s') \<and>
      under_way s' (hd (ps @ as)) (ps @ as) 0 \<and> (\<forall>q \<in> set ps. len s' q = len s q) \<and> lens s' as = n \<and> pool s' bs \<and> untouched (set (ps @ as)) s s'
    else \<exists>s'. pool_alloc_loop acc p last_p n off s = Some (0, s') \<and> pool s' (rev (ps @ gs)) \<and> untouched (set (ps @ gs)) s s'"
  using assms
proof (induction gs arbitrary: p ps n last_p off s)
  case Nil
  have tab: "memp_tab s MEMP_PBUF_POOL = 0" using Nil.prems(2) by (simp add: pool_def)
  let ?s = "pbuf_pool_is_empty acc s"
  have e: "p_next ?s = p_next s" "memp_tab ?s = memp_tab s" "ref ?s = ref s" "type_internal ?s = type_internal s" "untouched {} s ?s"
    by (simp_all add: pbuf_pool_is_empty_def Let_def untouched_def)
  have run: "pool_alloc_loop acc p last_p n off s =
      (if p \<noteq> 0 then Option.bind (pbuf_free p ?s) (\<lambda>(c, s3). Some (0, s3)) else Some (0, ?s))"
    using tab by (subst pool_alloc_loop.simps) (simp add: memp_malloc_def Let_def)
  have p0: "p = 0 \<longleftrightarrow> ps = []"
    using Nil.prems(1) pchain_hd [of "p_next s" p ps] pchain_nonnull [of "p_next s" p ps "hd ps"] by (auto simp: under_way_def)
  show ?case
  proof (cases "p = 0")
    case True
    then show ?thesis using run p0 e Nil.prems(2) by (auto simp: room_def pool_def untouched_def)
  next
    case False
    have "pchain (p_next ?s) p ps" "pool ?s []" "distinct ps" "\<forall>q \<in> set ps. from_pool ?s q \<and> 0 < ref ?s q"
      using Nil.prems(1,2,3) e by (auto simp: under_way_def pool_def from_pool_def)
    from pbuf_free_loop_pool [OF this(1,2,3) _ this(4), of 0] obtain s' c where
      f: "pbuf_free_loop p 0 ?s = Some (c, s')" "released ps ?s s'" "pool s' (rev (freed ?s ps))" by (auto simp: u8_t_def)
    have all: "freed ?s ps = ps" using Nil.prems(1) e(3) by (auto simp: freed_def under_way_def takeWhile_eq_all_conv)
    have "untouched (set ps) ?s s'" using f(2) by (rule released_untouched)
    then have "untouched (set ps) s s'" using untouched_trans [OF _ _ order_refl] e(5) by (auto simp: untouched_def)
    then show ?thesis using run False f all by (simp add: pbuf_free_def room_def)
  qed
next
  case (Cons g gs)
  let ?k = "min n (512 - LWIP_MEM_ALIGN_SIZE off)"
  let ?s = "extend_by g last_p p n off s" and ?p = "if p = 0 then g else p"
  have g: "g \<noteq> 0" "g mod 4 = 0" "memp_tab s MEMP_PBUF_POOL = g" using Cons.prems(2) by (auto simp: pool_def)
  have lp: "ps \<noteq> [] \<Longrightarrow> last_p = last ps" using Cons.prems(4) by blast
  note x = extend_by_under_way [OF Cons.prems(1,2,3) lp Cons.prems(5)]
  have hd: "?p = hd (ps @ [g])" using pchain_hd [of "p_next ?s" ?p "ps @ [g]"] x(1) by (simp add: under_way_def)
  note run = pool_alloc_loop_step [OF g(3,1,2) Cons.prems(5,6), of acc p last_p]
  have A: "LWIP_MEM_ALIGN_SIZE off \<le> 56" using align_props(1,3) [of off] Cons.prems(5) by presburger
  show ?case
  proof (cases "0 < n - ?k")
    case False
    then have "room (g # gs) n off" "n - ?k = 0" "?k = n" using A by (auto simp: room_def)
    then show ?thesis using run x hd by simp (intro exI [of _ "[g]"] exI [of _ gs], auto)
  next
    case True
    have k: "?k = 512 - LWIP_MEM_ALIGN_SIZE off" using True by auto
    have rm: "room (g # gs) n off \<longleftrightarrow> room gs (n - ?k) 0" using True k A align_props(4) by (auto simp: room_def)
    have IH: "if room gs (n - ?k) 0
      then \<exists>as bs s'. gs = as @ bs \<and> as \<noteq> [] \<and> pool_alloc_loop acc ?p g (n - ?k) 0 ?s = Some (hd ((ps @ [g]) @ as), s') \<and>
        under_way s' (hd ((ps @ [g]) @ as)) ((ps @ [g]) @ as) 0 \<and> (\<forall>q \<in> set (ps @ [g]). len s' q = len ?s q) \<and> lens s' as = n - ?k \<and> pool s' bs \<and>
        untouched (set ((ps @ [g]) @ as)) ?s s'
      else \<exists>s'. pool_alloc_loop acc ?p g (n - ?k) 0 ?s = Some (0, s') \<and> pool s' (rev ((ps @ [g]) @ gs)) \<and> untouched (set ((ps @ [g]) @ gs)) ?s s'"
      by (rule Cons.IH [OF x(1,2)]) (use Cons.prems(3,6) True in auto)
    show ?thesis
    proof (cases "room gs (n - ?k) 0")
      case rt: True
      then obtain as bs s' where i: "gs = as @ bs" "pool_alloc_loop acc ?p g (n - ?k) 0 ?s = Some (hd ((ps @ [g]) @ as), s')"
        "under_way s' (hd ((ps @ [g]) @ as)) ((ps @ [g]) @ as) 0" "\<forall>q \<in> set (ps @ [g]). len s' q = len ?s q" "lens s' as = n - ?k" "pool s' bs"
        "untouched (set ((ps @ [g]) @ as)) ?s s'" using IH by auto
      have l: "\<forall>q \<in> set ps. len s' q = len s q" "lens s' (g # as) = n" using i(4,5) x(4,5) True by auto
      have u: "untouched (set (ps @ g # as)) s s'" by (rule untouched_trans [OF untouched_mono [OF x(3)] i(7)]) auto
      have r: "pool_alloc_loop acc p last_p n off s = Some (hd (ps @ g # as), s')" unfolding run if_P [OF True] using i(2) by simp
      have w: "under_way s' (hd (ps @ g # as)) (ps @ g # as) 0" using i(3) by simp
      have c: "g # gs = (g # as) @ bs" using i(1) by simp
      show ?thesis unfolding rm if_P [OF rt] using c r w l i(6) u by blast
    next
      case rf: False
      then obtain s' where i: "pool_alloc_loop acc ?p g (n - ?k) 0 ?s = Some (0, s')" "pool s' (rev ((ps @ [g]) @ gs))"
          "untouched (set ((ps @ [g]) @ gs)) ?s s'" using IH by auto
      have "untouched (set (ps @ g # gs)) s s'" by (rule untouched_trans [OF untouched_mono [OF x(3)] i(3)]) auto
      then show ?thesis using i rm rf run True by auto
    qed
  qed
qed

section \<open>The bytes of a packet\<close>

definition piece :: "pbufs \<Rightarrow> nat \<Rightarrow> u8 list" where
  "piece s q = map (mem_at s) [payload s q ..< payload s q + len s q]"

definition pdata :: "pbufs \<Rightarrow> nat list \<Rightarrow> u8 list" where
  "pdata s qs = concat (map (piece s) qs)"

lemma length_piece [simp]: "length (piece s q) = len s q"
  by (simp add: piece_def)

lemma length_pdata [simp]: "length (pdata s qs) = lens s qs"
  by (induction qs) (simp_all add: pdata_def)

lemma pdata_simps [simp]: "pdata s [] = []" "pdata s (q # qs) = piece s q @ pdata s qs" "pdata s (xs @ ys) = pdata s xs @ pdata s ys"
  by (simp_all add: pdata_def)

lemma pdata_cong:
  assumes "mem_at s' = mem_at s" and "\<forall>q \<in> set qs. payload s' q = payload s q \<and> len s' q = len s q"
  shows "pdata s' qs = pdata s qs"
proof -
  have "map (piece s') qs = map (piece s) qs" using assms by (simp add: piece_def)
  then show ?thesis by (simp only: pdata_def)
qed

section \<open>Joining packets\<close>

lemma cat_walk_spec:
  assumes "pchain (p_next s) p ps" and "ps \<noteq> []" and "distinct ps" and "t \<notin> set ps"
  shows "cat_walk p t s = Some (last ps, s\<lparr>tot_len := \<lambda>x. if x \<in> set (butlast ps) then u16_t (tot_len s x + tot_len s t) else tot_len s x\<rparr>)"
  using assms
proof (induction ps arbitrary: p s)
  case (Cons q qs)
  show ?case
  proof (cases "qs = []")
    case True
    then show ?thesis using Cons.prems by (subst cat_walk.simps) auto
  next
    case False
    let ?s = "set_tot_len q (u16_t (tot_len s q + tot_len s t)) s"
    have nx: "p_next s q \<noteq> 0" "pchain (p_next ?s) (p_next s q) qs"
      using Cons.prems(1) False by (cases qs; auto)+
    then have IH: "cat_walk (p_next s q) t ?s =
        Some (last qs, ?s\<lparr>tot_len := \<lambda>x. if x \<in> set (butlast qs) then u16_t (tot_len ?s x + tot_len ?s t) else tot_len ?s x\<rparr>)"
      using Cons.IH [OF nx(2) False] Cons.prems(3,4) by auto
    have "q \<notin> set (butlast qs)" using Cons.prems(3) by (auto dest: in_set_butlastD)
    then have "(\<lambda>x. if x \<in> set (butlast qs) then u16_t (tot_len ?s x + tot_len ?s t) else tot_len ?s x) =
        (\<lambda>x. if x \<in> set (butlast (q # qs)) then u16_t (tot_len s x + tot_len s t) else tot_len s x)"
      using Cons.prems(4) False by (auto simp: fun_eq_iff)
    then show ?thesis using IH Cons.prems(1) nx(1) False by (subst cat_walk.simps) simp
  qed
qed simp

lemma pbuf_cat_spec:
  assumes h: "packet s h hs" "hs \<noteq> []" and t: "packet s t ts" "ts \<noteq> []" and dis: "set hs \<inter> set ts = {}" and n: "lens s hs + lens s ts < 2 ^ 16"
  shows "\<exists>s'. pbuf_cat h t s = Some s' \<and> packet s' h (hs @ ts) \<and> pdata s' (hs @ ts) = pdata s hs @ pdata s ts \<and>
    s' = s\<lparr>p_next := (p_next s)(last hs := t), tot_len := tot_len s'\<rparr> \<and> (\<forall>x. x \<notin> set hs \<longrightarrow> tot_len s' x = tot_len s x)"
proof -
  have ht: "h \<noteq> 0" "t \<noteq> 0" "t \<in> set ts" "t \<notin> set hs"
    using h t dis pchain_hd [of "p_next s"] pchain_nonnull [of "p_next s"] by (auto simp: packet_def) (metis disjoint_iff hd_in_set)+
  have tt: "tot_len s t = lens s ts" using t pchain_hd [of "p_next s" t ts] by (cases ts) (auto simp: packet_def)
  let ?s1 = "s\<lparr>tot_len := \<lambda>x. if x \<in> set (butlast hs) then u16_t (tot_len s x + tot_len s t) else tot_len s x\<rparr>"
  have w: "cat_walk h t s = Some (last hs, ?s1)" by (rule cat_walk_spec) (use h ht(4) in \<open>auto simp: packet_def\<close>)
  have dl: "last hs \<notin> set (butlast hs)" using h by (metis append_butlast_last_id distinct_butlast not_distinct_conv_prefix packet_def)
  have tl: "tot_len s (last hs) = len s (last hs)"
    using h by (metis add_0_right append_butlast_last_id list.map(1) packet_def sum_list.Nil tots.simps(2) tots_append)
  define s' where "s' = set_pnext (last hs) t (set_tot_len (last hs) (u16_t (tot_len ?s1 (last hs) + tot_len ?s1 t)) ?s1)"
  have run: "pbuf_cat h t s = Some s'"
    using ht w dl tl by (simp add: pbuf_cat_def s'_def)
  have f: "len s' = len s" "payload s' = payload s" "mem_at s' = mem_at s" "p_next s' = (p_next s)(last hs := t)"
    by (simp_all add: s'_def)
  have tots_hs: "tot_len s' x = tot_len s x + lens s ts" if x: "x \<in> set hs" for x
  proof -
    have "tot_len s x \<le> lens s hs" using tots_le [of s 0 hs x] h(1) x by (simp add: packet_def)
    moreover have "x = last hs \<or> x \<in> set (butlast hs)" using x h(2) by (metis append_butlast_last_id rotate1.simps(2) set_ConsD set_rotate1)
    moreover have "t \<noteq> last hs" "t \<notin> set (butlast hs)" using ht(4) h(2) by (auto dest: in_set_butlastD)
    ultimately show ?thesis using n tt dl by (auto simp: s'_def)
  qed
  have tots_ts: "tot_len s' x = tot_len s x" if "x \<notin> set hs" for x
    using that h(2) by (auto simp: s'_def dest: in_set_butlastD)
  have "tots s' (0 + lens s ts) hs" by (rule tots_shift [of s]) (use h(1) tots_hs f in \<open>auto simp: packet_def\<close>)
  moreover have "tots s' 0 ts = tots s 0 ts" by (rule tots_cong) (use tots_ts dis f in auto)
  moreover have "pchain (p_next s') h (hs @ ts)"
    unfolding f using pchain_join [of "p_next s" h hs t ts] h t(1) dis by (simp add: packet_def)
  ultimately have pk: "packet s' h (hs @ ts)" using h(1) t(1) dis n f(1) by (simp add: packet_def tots_append)
  have "pdata s' (hs @ ts) = pdata s (hs @ ts)" by (rule pdata_cong) (simp_all add: f)
  moreover have "s' = s\<lparr>p_next := (p_next s)(last hs := t), tot_len := tot_len s'\<rparr>" by (simp add: s'_def)
  ultimately show ?thesis using run pk tots_ts by auto
qed

section \<open>Shortening packets\<close>

lemma cut_point:
  assumes "ps \<noteq> []" and "n \<le> lens s ps"
  shows "\<exists>as q bs. ps = as @ q # bs \<and> (as \<noteq> [] \<longrightarrow> lens s as < n) \<and> n \<le> lens s as + len s q"
  using assms
proof (induction ps arbitrary: n)
  case (Cons q qs)
  show ?case
  proof (cases "n \<le> len s q")
    case True
    then show ?thesis by (intro exI [of _ "[]"]) auto
  next
    case False
    then have "qs \<noteq> []" "n - len s q \<le> lens s qs" using Cons.prems by auto
    then obtain as x bs where i: "qs = as @ x # bs" "as \<noteq> [] \<longrightarrow> lens s as < n - len s q" "n - len s q \<le> lens s as + len s x"
      using Cons.IH by blast
    then show ?thesis using False by (intro exI [of _ "q # as"] exI [of _ x] exI [of _ bs]) auto
  qed
qed simp

lemma realloc_walk_spec:
  assumes "pchain (p_next s) p (as @ q # bs)" and "distinct (as @ q # bs)" and "as \<noteq> [] \<Longrightarrow> lens s as < n" and "n \<le> lens s as + len s q"
  shows "realloc_walk p n k s =
    Some (q, n - lens s as, s\<lparr>tot_len := \<lambda>x. if x \<in> set as then u16_t (tot_len s x + 2 ^ 16 - k) else tot_len s x\<rparr>)"
  using assms
proof (induction as arbitrary: p n s)
  case Nil
  then show ?case by (subst realloc_walk.simps) auto
next
  case (Cons a as)
  let ?s = "set_tot_len a (u16_t (tot_len s a + 2 ^ 16 - k)) s"
  have c: "p = a" "pchain (p_next s) (p_next s a) (as @ q # bs)" using Cons.prems(1) by auto
  have nx: "p_next s a \<noteq> 0" using c(2) by (cases as) auto
  have IH: "realloc_walk (p_next s a) (n - len s a) k ?s = Some (q, n - len s a - lens ?s as,
      ?s\<lparr>tot_len := \<lambda>x. if x \<in> set as then u16_t (tot_len ?s x + 2 ^ 16 - k) else tot_len ?s x\<rparr>)"
    by (rule Cons.IH) (use Cons.prems c in auto)
  have "(\<lambda>x. if x \<in> set as then u16_t (tot_len ?s x + 2 ^ 16 - k) else tot_len ?s x) =
      (\<lambda>x. if x \<in> set (a # as) then u16_t (tot_len s x + 2 ^ 16 - k) else tot_len s x)"
    using Cons.prems(2) by (auto simp: fun_eq_iff)
  moreover have "len s a < n" using Cons.prems(3) by simp
  ultimately show ?case using IH c(1) nx by (subst realloc_walk.simps) simp
qed

lemma pbuf_realloc_spec:
  assumes pk: "packet s p ps" and pl: "pool s fs" "set ps \<inter> set fs = {}" and own: "\<forall>q \<in> set ps. from_pool s q \<and> 0 < ref s q"
    and n: "n < lens s ps"
  shows "\<exists>as q bs s'. ps = as @ q # bs \<and> pbuf_realloc p n s = Some s' \<and> packet s' p (as @ [q]) \<and> pdata s' (as @ [q]) = take n (pdata s ps) \<and>
    pool s' (rev (freed s bs) @ fs) \<and> (\<forall>x \<in> set (as @ [q]). ref s' x = ref s x)"
proof -
  have ps: "ps \<noteq> []" using n by auto
  obtain as q bs where d: "ps = as @ q # bs" "as \<noteq> [] \<longrightarrow> lens s as < n" "n \<le> lens s as + len s q"
    using cut_point [OF ps less_imp_le [OF n]] by blast
  have dis: "distinct (as @ q # bs)" and ch: "pchain (p_next s) p (as @ q # bs)" and tt: "tots s 0 ps" and lt: "lens s ps < 2 ^ 16"
    using pk d(1) by (auto simp: packet_def)
  have p: "p \<noteq> 0" "tot_len s p = lens s ps"
    using pk ps pchain_hd [of "p_next s" p ps] pchain_nonnull [of "p_next s" p ps "hd ps"] by (cases ps; auto simp: packet_def)+
  let ?k = "lens s ps - n" and ?r = "n - lens s as"
  define s1 where "s1 = s\<lparr>tot_len := \<lambda>x. if x \<in> set as then u16_t (tot_len s x + 2 ^ 16 - ?k) else tot_len s x\<rparr>"
  define s3 where "s3 = set_tot_len q ?r (set_len q ?r s1)"
  have w: "realloc_walk p n ?k s = Some (q, ?r, s1)" unfolding s1_def by (rule realloc_walk_spec [OF ch dis]) (use d in auto)
  have q: "from_pool s q" "type_internal s1 q AND 0x0F \<noteq> 0" using own d(1) by (auto simp: s1_def from_pool_def)
  have nx: "p_next s3 = p_next s" "memp_tab s3 = memp_tab s" "ref s3 = ref s" "type_internal s3 = type_internal s" "payload s3 = payload s"
    "mem_at s3 = mem_at s" by (simp_all add: s3_def s1_def)
  have cb: "pchain (p_next s3) (p_next s3 q) bs" using pchain_split [of "p_next s" p "as @ [q]" bs] ch nx(1) by simp
  have pl3: "pool s3 fs" using pl nx by (simp add: pool_def)
  have ob: "\<forall>x \<in> set bs. from_pool s3 x \<and> 0 < ref s3 x" "set bs \<inter> set fs = {}" "distinct bs"
    using own d(1) pl(2) dis nx by (auto simp: from_pool_def)
  obtain s4 where s4: "(if p_next s3 q \<noteq> 0 then map_option snd (pbuf_free (p_next s3 q) s3) else Some s3) = Some s4"
      "released bs s3 s4" "pool s4 (rev (freed s3 bs) @ fs)"
  proof (cases "bs = []")
    case True
    then have "p_next s3 q = 0" using cb by simp
    moreover have "released bs s3 s3" "pool s3 (rev (freed s3 bs) @ fs)" using True pl3 by (auto simp: released_def freed_def)
    ultimately show ?thesis using that by simp
  next
    case False
    then have "p_next s3 q \<noteq> 0" using cb by (cases bs) auto
    moreover from pbuf_free_loop_pool [OF cb pl3 ob(3,2,1), of 0] obtain s4 c where
      "pbuf_free_loop (p_next s3 q) 0 s3 = Some (c, s4)" "released bs s3 s4" "pool s4 (rev (freed s3 bs) @ fs)" by (auto simp: u8_t_def)
    ultimately show ?thesis using that by (simp add: pbuf_free_def)
  qed
  have u: "untouched (set bs) s3 s4" using s4(2) by (rule released_untouched)
  let ?s = "set_pnext q 0 s4"
  have run: "pbuf_realloc p n s = Some ?s"
    using p w q(2) s4(1) n by (auto simp: pbuf_realloc_def Let_def s3_def split: if_splits)
  have fr: "freed s3 bs = freed s bs" by (simp add: freed_def nx)
  have keep: "len ?s x = len s3 x \<and> tot_len ?s x = tot_len s3 x \<and> payload ?s x = payload s x \<and> ref ?s x = ref s x"
    if "x \<in> set (as @ [q])" for x
    using u that dis nx by (auto simp: untouched_def)
  have "pool ?s (rev (freed s bs) @ fs)"
  proof -
    have "q \<notin> set (rev (freed s bs) @ fs)" using dis pl(2) d(1) by (auto simp: freed_def dest: set_takeWhileD)
    then show ?thesis using s4(3) fr by (simp add: pool_def)
  qed
  moreover have "packet ?s p (as @ [q])"
  proof -
    have "pchain (p_next ?s) p (as @ [q]) = pchain ((p_next s)(q := 0)) p (as @ [q])"
      by (rule pchain_cong) (use u dis nx(1) in \<open>auto simp: untouched_def\<close>)
    moreover have "q \<notin> set as" using dis by simp
    ultimately have "pchain (p_next ?s) p (as @ [q])" using pchain_cut [OF ch] by blast
    moreover have "tots ?s ?r as"
    proof (rule tots_unshift [of s _ ?k])
      have e: "?r + ?k = lens s (q # bs)" using n d by (cases as) auto
      then show "tots s (?r + ?k) as" using tt d(1) by (simp add: tots_append)
      show "\<forall>x \<in> set as. tot_len s x = tot_len ?s x + ?k \<and> len ?s x = len s x"
      proof
        fix x assume x: "x \<in> set as"
        then have "x \<noteq> q" "tot_len ?s x = u16_t (tot_len s x + 2 ^ 16 - ?k)" "len ?s x = len s x"
          using keep [of x] dis by (auto simp: s3_def s1_def)
        moreover have "?k \<le> tot_len s x" using tots_ge [of s "?r + ?k" as x] tt d(1) x e by (simp add: tots_append)
        moreover have "tot_len s x < 2 ^ 16" using tots_le [OF tt, of x] lt x d(1) by simp
        ultimately show "tot_len s x = tot_len ?s x + ?k \<and> len ?s x = len s x" using u16_t_sub [of ?k "tot_len s x"] by simp
      qed
    qed
    moreover have "len ?s q = ?r" "tot_len ?s q = ?r" using keep [of q] by (simp_all add: s3_def)
    moreover have "map (len ?s) as = map (len s) as" using keep dis by (auto simp: s3_def s1_def)
    then have "lens ?s as = lens s as" by (simp only:)
    moreover have "lens s as + ?r = n" using d(2) by (cases as) auto
    ultimately show ?thesis using dis n lt by (simp add: packet_def tots_append)
  qed
  moreover have "pdata ?s (as @ [q]) = take n (pdata s ps)"
  proof -
    have mem: "mem_at ?s = mem_at s" using u nx by (simp add: untouched_def)
    have "pdata ?s as = pdata s as" by (rule pdata_cong [OF mem]) (use keep dis in \<open>auto simp: s3_def s1_def\<close>)
    moreover have "piece ?s q = take ?r (piece s q)"
      using keep [of q] mem d(3) by (simp add: piece_def s3_def take_map take_upt)
    moreover have "lens s as \<le> n" using d(2) by (cases as) auto
    ultimately show ?thesis using d(1,3) by simp
  qed
  ultimately show ?thesis using d(1) run keep by blast
qed

section \<open>The initialised pool\<close>

lemma memp_link_pool:
  assumes "pool s fs" and "0 < m" "m mod 4 = 0" "0 < e" "e mod 4 = 0" and "\<forall>q \<in> set fs. q < m"
  shows "pool (memp_link MEMP_PBUF_POOL n m e s) (rev (map (\<lambda>i. m + i * e) [0 ..< n]) @ fs)"
  using assms
proof (induction n arbitrary: m s fs)
  case (Suc n)
  let ?s = "s\<lparr>p_next := (p_next s)(m := memp_tab s MEMP_PBUF_POOL), memp_tab := (memp_tab s)(MEMP_PBUF_POOL := m)\<rparr>"
  have "m \<notin> set fs" using Suc.prems(6) by auto
  then have "pool ?s (m # fs)" using Suc.prems by (auto simp: pool_def)
  moreover have "(m + e) mod 4 = 0" using Suc.prems(3,5) by presburger
  ultimately have IH: "pool (memp_link MEMP_PBUF_POOL n (m + e) e ?s) (rev (map (\<lambda>i. m + e + i * e) [0 ..< n]) @ m # fs)"
    using Suc.prems by (intro Suc.IH) (auto intro: trans_less_add1)
  have "map (\<lambda>i. m + i * e) [0 ..< Suc n] = m # map (\<lambda>i. m + e + i * e) [0 ..< n]"
    by (simp only: upt_conv_Cons [of 0 "Suc n"] map_Suc_upt [symmetric]) (simp add: add.assoc)
  then show ?case using IH by simp
qed simp

lemma memp_init_pool_ok:
  assumes "0 < base" "0 < e" "e mod 4 = 0"
  shows "pool (memp_init_pool MEMP_PBUF_POOL base n e s) (rev (map (\<lambda>i. LWIP_MEM_ALIGN_SIZE base + i * e) [0 ..< n]))"
proof -
  have "0 < LWIP_MEM_ALIGN_SIZE base" using assms(1) align_props(2) [of base] by simp
  moreover have "pool (s\<lparr>memp_tab := (memp_tab s)(MEMP_PBUF_POOL := 0)\<rparr>) []" by (simp add: pool_def)
  ultimately show ?thesis
    using memp_link_pool [of _ "[]" "LWIP_MEM_ALIGN_SIZE base" e n] align_props(1) assms by (simp add: memp_init_pool_def)
qed

section \<open>Headers\<close>

lemma pbuf_add_header_cases:
  assumes t: "p \<noteq> 0" "tot_len s p < 2 ^ 16" "len s p \<le> tot_len s p" and pl: "from_pool s p" "payload s p < 2 ^ 32" "2 ^ 16 \<le> p"
    and lo: "p + SIZEOF_STRUCT_PBUF \<le> payload s p"
  shows "pbuf_add_header p k s =
    (if p + SIZEOF_STRUCT_PBUF + k \<le> payload s p \<and> tot_len s p + k < 2 ^ 16
     then Some (False, s\<lparr>payload := (payload s)(p := payload s p - k), len := (len s)(p := len s p + k),
       tot_len := (tot_len s)(p := tot_len s p + k)\<rparr>)
     else Some (True, s))"
proof -
  have ty: "type_internal s p AND 0x80 \<noteq> 0" using pl(1) by (simp add: from_pool_def)
  consider "65535 < k" | "k = 0" | "0 < k" "k \<le> 65535" by fastforce
  then show ?thesis
  proof cases
    case 1
    then show ?thesis using t by (simp add: pbuf_add_header_def pbuf_add_header_impl_def)
  next
    case 2
    then show ?thesis using t lo by (simp add: pbuf_add_header_def pbuf_add_header_impl_def)
  next
    case 3
    have u: "u32_sub (payload s p) k = payload s p - k" using 3 lo pl by (intro u32_sub_small) simp_all
    have o: "u16_t (k + tot_len s p) < k \<longleftrightarrow> \<not> tot_len s p + k < 2 ^ 16"
    proof (cases "tot_len s p + k < 2 ^ 16")
      case False
      then have "u16_t (k + tot_len s p) = k + tot_len s p - 2 ^ 16" using 3 t(2) by (simp add: u16_t_def le_mod_geq)
      then show ?thesis using False t(2) by simp
    qed simp
    show ?thesis
    proof (cases "p + 16 + k \<le> payload s p \<and> tot_len s p + k < 2 ^ 16")
      case True
      then have "u16_t (tot_len s p + k) = tot_len s p + k" "u16_t (len s p + k) = len s p + k" "\<not> payload s p - k < p + 16" using t(3) 3 by auto
      then show ?thesis using True t(1) 3 u o ty by (simp add: pbuf_add_header_def pbuf_add_header_impl_def Let_def)
    next
      case False
      then have "\<not> tot_len s p + k < 2 ^ 16 \<or> payload s p - k < p + 16" using 3 lo pl(3) by auto
      then show ?thesis using False t(1) 3 u o ty by (auto simp: pbuf_add_header_def pbuf_add_header_impl_def Let_def)
    qed
  qed
qed

section \<open>Properties\<close>

lemma pbuf_alloc_pool_spec:
  assumes "pool s fs" and "n < 2 ^ 16"
  shows "if room fs n (layer_offset layer)
    then \<exists>ps gs s'. fs = ps @ gs \<and> ps \<noteq> [] \<and> pbuf_alloc acc layer n PBUF_POOL s = Some (hd ps, s') \<and> packet s' (hd ps) ps \<and> lens s' ps = n \<and>
      (\<forall>q \<in> set ps. ref s' q = 1 \<and> from_pool s' q \<and> in_slot s' q) \<and> pool s' gs \<and> untouched (set ps) s s'
    else \<exists>s'. pbuf_alloc acc layer n PBUF_POOL s = Some (0, s') \<and> pool s' (rev fs) \<and> untouched (set fs) s s'"
proof -
  have off: "layer_offset layer \<le> 54" by (cases layer) simp_all
  have w: "under_way s 0 [] n" by (simp add: under_way_def)
  have d: "distinct fs" using assms(1) by (simp add: pool_def)
  note spec = pool_alloc_loop_spec [OF w assms(1) _ _ off assms(2), of 0 acc, simplified]
  show ?thesis
  proof (cases "room fs n (layer_offset layer)")
    case True
    obtain ps gs s' where r: "fs = ps @ gs" "ps \<noteq> []" "pool_alloc_loop acc 0 0 n (layer_offset layer) s = Some (hd ps, s')"
        "under_way s' (hd ps) ps 0" "lens s' ps = n" "pool s' gs" "untouched (set ps) s s'"
      using spec d True by auto
    then have "packet s' (hd ps) ps" using d assms(2) by (simp add: packet_def under_way_def)
    then show ?thesis using r True by (auto simp: under_way_def)
  next
    case False
    then show ?thesis using spec d by auto
  qed
qed

text \<open>
  C31: Allocation from the pool. A packet is allocated exactly if the free buffers can hold it; it then
  consists of the first free buffers, has the length asked for with consistent total lengths, one
  reference per pbuf and its data inside the buffers, and the rest of the pool stays free. If the pool
  runs out on the way, every buffer taken is given back: nothing leaks. No other memory is touched.
\<close>

theorem pbuf_alloc_pool:
  assumes "pool s fs" and "n < 2 ^ 16"
  shows "if room fs n (layer_offset layer)
    then \<exists>ps gs s'. fs = ps @ gs \<and> ps \<noteq> [] \<and> pbuf_alloc acc layer n PBUF_POOL s = Some (hd ps, s') \<and> packet s' (hd ps) ps \<and> lens s' ps = n \<and>
      (\<forall>q \<in> set ps. ref s' q = 1 \<and> in_slot s' q) \<and> pool s' gs \<and> untouched (set ps) s s'
    else \<exists>s'. pbuf_alloc acc layer n PBUF_POOL s = Some (0, s') \<and> pool s' (rev fs) \<and> untouched (set fs) s s'"
  using pbuf_alloc_pool_spec [OF assms, of layer acc] by (auto split: if_splits)

definition board_pbufs :: pbufs where
  "board_pbufs = memp_init_pool MEMP_PBUF_POOL 536891392 3 528
     \<lparr>p_next = \<lambda>_. 0, payload = \<lambda>_. 0, tot_len = \<lambda>_. 0, len = \<lambda>_. 0, type_internal = \<lambda>_. 0, flags = \<lambda>_. 0, ref = \<lambda>_. 0,
      if_idx = \<lambda>_. 0, mem_at = \<lambda>a. of_nat a, memp_tab = \<lambda>_. 0, heap = mem_init 536887300 blank_heap, pbuf_free_ooseq_pending = False\<rparr>"

lemma board_pool: "pool board_pbufs [536892448, 536891920, 536891392]"
proof -
  have "pool board_pbufs (rev (map (\<lambda>i. LWIP_MEM_ALIGN_SIZE 536891392 + i * 528) [0 ..< 3]))"
    unfolding board_pbufs_def by (rule memp_init_pool_ok) simp_all
  then show ?thesis by (simp add: LWIP_MEM_ALIGN_SIZE_def upt_rec)
qed

theorem pbuf_alloc_pool_witness:
  "(\<exists>s'. pbuf_alloc False PBUF_RAW 1514 PBUF_POOL board_pbufs = Some (536892448, s') \<and>
     packet s' 536892448 [536892448, 536891920, 536891392] \<and> pool s' []) \<and>
   (\<exists>s'. pbuf_alloc True PBUF_TRANSPORT 1500 PBUF_POOL board_pbufs = Some (0, s') \<and> pool s' [536891392, 536891920, 536892448])"
proof
  have r: "room [536892448, 536891920, 536891392] 1514 (layer_offset PBUF_RAW)" by (simp add: room_def LWIP_MEM_ALIGN_SIZE_def)
  obtain ps gs s' where a: "[536892448, 536891920, 536891392] = ps @ gs" "pbuf_alloc False PBUF_RAW 1514 PBUF_POOL board_pbufs = Some (hd ps, s')"
      "packet s' (hd ps) ps" "lens s' ps = 1514" "\<forall>q \<in> set ps. ref s' q = 1 \<and> in_slot s' q" "pool s' gs"
    using pbuf_alloc_pool [OF board_pool, of 1514 PBUF_RAW False] r by auto
  have "lens s' ps \<le> 512 * length ps" using a(5) by (induction ps) (auto simp: in_slot_def)
  moreover have len: "length ps + length gs = 3" using arg_cong [OF a(1), of length] by simp
  ultimately have "gs = []" using a(4) by (cases gs) simp_all
  then have "ps = [536892448, 536891920, 536891392]" "gs = []" using a(1) by simp_all
  then show "\<exists>s'. pbuf_alloc False PBUF_RAW 1514 PBUF_POOL board_pbufs = Some (536892448, s') \<and>
     packet s' 536892448 [536892448, 536891920, 536891392] \<and> pool s' []" using a by auto
  have "\<not> room [536892448, 536891920, 536891392] 1500 (layer_offset PBUF_TRANSPORT)" by (simp add: room_def LWIP_MEM_ALIGN_SIZE_def)
  then show "\<exists>s'. pbuf_alloc True PBUF_TRANSPORT 1500 PBUF_POOL board_pbufs = Some (0, s') \<and> pool s' [536891392, 536891920, 536892448]"
    using pbuf_alloc_pool [OF board_pool, of 1500 PBUF_TRANSPORT True] by auto
qed


text \<open>A packet of one and one of two pbufs; the second of the latter is shared.\<close>

definition two_packets :: pbufs where
  "two_packets = board_pbufs
     \<lparr>p_next := \<lambda>x. if x = 536891920 then 536891392 else 0, payload := \<lambda>x. x + 16, len := \<lambda>_. 2, memp_tab := \<lambda>_. 0,
      tot_len := \<lambda>x. if x = 536891920 then 4 else 2, type_internal := \<lambda>_. 0x82, ref := \<lambda>x. if x = 536891392 then 2 else 1\<rparr>"

lemma two_packets_ok:
  "packet two_packets 536892448 [536892448]" "packet two_packets 536891920 [536891920, 536891392]" "pool two_packets []"
  "\<forall>q \<in> {536892448, 536891920, 536891392}. from_pool two_packets q \<and> 0 < ref two_packets q"
  by (simp_all add: two_packets_def packet_def pool_def from_pool_def)




text \<open>
  C34: Adding a header never leaves the buffer. The call succeeds exactly if the header fits between
  the pbuf and its data and the packet does not become longer than 65535 bytes; otherwise it fails
  and changes nothing. On success the data of the packet is the header space followed by the old data,
  and removing the header again restores the packet.
\<close>

theorem pbuf_add_header_bounds:
  assumes "packet s p (p # qs)" and "from_pool s p" and "in_slot s p" and "payload s p < 2 ^ 32" and "2 ^ 16 \<le> p"
  shows "if p + SIZEOF_STRUCT_PBUF + k \<le> payload s p \<and> lens s (p # qs) + k < 2 ^ 16
    then \<exists>s'. pbuf_add_header p k s = Some (False, s') \<and> packet s' p (p # qs) \<and> in_slot s' p \<and>
      drop k (pdata s' (p # qs)) = pdata s (p # qs) \<and> length (pdata s' (p # qs)) = length (pdata s (p # qs)) + k \<and>
      pbuf_remove_header p k s' = Some (False, s)
    else pbuf_add_header p k s = Some (True, s)"
proof -
  have t: "p \<noteq> 0" "tot_len s p = lens s (p # qs)" "tot_len s p < 2 ^ 16" "len s p \<le> tot_len s p" "p \<notin> set qs"
    using assms(1) by (auto simp: packet_def)
  have lo: "p + 16 \<le> payload s p" using assms(3) by (simp add: in_slot_def)
  note c = pbuf_add_header_cases [OF t(1,3,4) assms(2,4,5) lo, of k]
  show ?thesis
  proof (cases "p + 16 + k \<le> payload s p \<and> tot_len s p + k < 2 ^ 16")
    case True
    define s' where "s' = s\<lparr>payload := (payload s)(p := payload s p - k), len := (len s)(p := len s p + k), tot_len := (tot_len s)(p := tot_len s p + k)\<rparr>"
    have run: "pbuf_add_header p k s = Some (False, s')" using c True by (simp add: s'_def)
    have same: "\<forall>q \<in> set qs. tot_len s' q = tot_len s q \<and> len s' q = len s q" "\<forall>q \<in> set qs. payload s' q = payload s q \<and> len s' q = len s q"
      using t(5) by (auto simp: s'_def)
    have "map (len s') qs = map (len s) qs" using same by simp
    then have ls: "lens s' qs = lens s qs" by (simp only:)
    have "packet s' p (p # qs)"
      using assms(1) tots_cong [OF same(1), of 0] ls True t(2) by (auto simp: packet_def s'_def)
    moreover have "in_slot s' p" using assms(3) True by (auto simp: in_slot_def s'_def)
    moreover have "pdata s' qs = pdata s qs" by (rule pdata_cong [OF _ same(2)]) (simp add: s'_def)
    moreover have "piece s' p = map (mem_at s) [payload s p - k ..< payload s p] @ piece s p"
    proof -
      have "[payload s p - k ..< payload s p + len s p] = [payload s p - k ..< payload s p] @ [payload s p ..< payload s p + len s p]"
        using upt_add_eq_append [of "payload s p - k" "payload s p" "len s p"] by simp
      moreover have "payload s p - k + (len s p + k) = payload s p + len s p" using True by simp
      ultimately show ?thesis by (simp add: piece_def s'_def)
    qed
    moreover have "pbuf_remove_header p k s' = Some (False, s)"
    proof (cases "k = 0")
      case False
      have "u16_t (tot_len s p + k + 2 ^ 16 - k) = tot_len s p" using u16_t_sub [of k "tot_len s p + k"] True by simp
      then show ?thesis using True t(1) False by (simp add: pbuf_remove_header_def s'_def)
    qed (use t(1) in \<open>simp add: pbuf_remove_header_def s'_def\<close>)
    moreover have "len s' p = len s p + k" by (simp add: s'_def)
    ultimately show ?thesis using run True t(2) ls by (auto intro!: exI [of _ s'])
  next
    case False
    then show ?thesis using c t(2) by auto
  qed
qed

theorem pbuf_add_header_bounds_witness:
  "(\<exists>s'. pbuf_add_header 536892448 14 (two_packets\<lparr>payload := \<lambda>x. x + 72\<rparr>) = Some (False, s') \<and> in_slot s' 536892448) \<and>
   pbuf_add_header 536892448 57 (two_packets\<lparr>payload := \<lambda>x. x + 72\<rparr>) = Some (True, two_packets\<lparr>payload := \<lambda>x. x + 72\<rparr>)"
proof -
  let ?s = "two_packets\<lparr>payload := \<lambda>x. x + 72\<rparr>"
  have o: "packet ?s 536892448 [536892448]" "from_pool ?s 536892448" "in_slot ?s 536892448" "payload ?s 536892448 = 536892520" "len ?s 536892448 = 2"
    by (simp_all add: two_packets_def packet_def from_pool_def in_slot_def)
  show ?thesis
    using pbuf_add_header_bounds [OF o(1,2,3), of 14] pbuf_add_header_bounds [OF o(1,2,3), of 57] o(4,5) by auto
qed

end
