(* ===== verification/Pbuf_Data.thy ===== *)
theory Pbuf_Data
  imports Pbuf_Chain
begin

text \<open>
  Reading and writing the data of a packet (\<open>LWIP/src/core/pbuf.c\<close>): copying into and out of a chain,
  single bytes, comparison and search. The functions that work on the chain are related to the list of
  the bytes of the packet, \<open>pdata\<close>.
\<close>

section \<open>Copying into a packet\<close>

text \<open>The areas of the pbufs are pairwise disjoint, and disjoint from the \<open>n\<close> bytes at \<open>d\<close>.\<close>

abbreviation area :: "pbufs \<Rightarrow> nat \<Rightarrow> nat \<times> nat" where
  "area s q \<equiv> (payload s q, len s q)"

definition areas_apart :: "pbufs \<Rightarrow> nat list \<Rightarrow> bool" where
  "areas_apart s ps \<longleftrightarrow> sorted_wrt (\<lambda>q r. apart (area s q) (area s r)) ps"

definition clear_of :: "pbufs \<Rightarrow> nat list \<Rightarrow> nat \<Rightarrow> nat \<Rightarrow> bool" where
  "clear_of s ps d n \<longleftrightarrow> (\<forall>q \<in> set ps. apart (area s q) (d, n))"

lemma memcpy_sel [simp]:
  "p_next (memcpy d a n s) = p_next s" "payload (memcpy d a n s) = payload s" "len (memcpy d a n s) = len s" "tot_len (memcpy d a n s) = tot_len s"
  "mem_at (memcpy d a n s) x = (if d \<le> x \<and> x < d + n then mem_at s (a + (x - d)) else mem_at s x)"
  by (simp_all add: memcpy_def)

lemma memcpy_mem_update: "memcpy d a n s = s\<lparr>mem_at := mem_at (memcpy d a n s)\<rparr>"
  by (simp add: memcpy_def)

lemma piece_mem: "\<forall>x. payload s q \<le> x \<and> x < payload s q + len s q \<longrightarrow> m x = mem_at s x \<Longrightarrow> piece (s\<lparr>mem_at := m\<rparr>) q = piece s q"
  by (simp add: piece_def)

lemma pdata_mem:
  assumes "\<forall>q \<in> set qs. \<forall>x. payload s q \<le> x \<and> x < payload s q + len s q \<longrightarrow> m x = mem_at s x"
  shows "pdata (s\<lparr>mem_at := m\<rparr>) qs = pdata s qs"
  using assms by (induction qs) (auto simp: piece_mem)

lemma take_loop_spec:
  assumes "pchain (p_next s) p ps" and "areas_apart s ps" and "clear_of s ps d N" and "c + n \<le> N" and "n \<le> lens s ps"
  shows "\<exists>m. take_loop p d n c s = Some (s\<lparr>mem_at := m\<rparr>) \<and> take n (pdata (s\<lparr>mem_at := m\<rparr>) ps) = map (mem_at s) [d + c ..< d + c + n] \<and>
    drop n (pdata (s\<lparr>mem_at := m\<rparr>) ps) = drop n (pdata s ps) \<and>
    (\<forall>x. (\<forall>q \<in> set ps. \<not> (payload s q \<le> x \<and> x < payload s q + len s q)) \<longrightarrow> m x = mem_at s x)"
  using assms
proof (induction ps arbitrary: p s n c)
  case Nil
  then show ?case by (subst take_loop.simps) (auto intro!: exI [of _ "mem_at s"])
next
  case (Cons q qs)
  show ?case
  proof (cases "n = 0")
    case True
    then show ?thesis by (subst take_loop.simps) (auto intro!: exI [of _ "mem_at s"])
  next
    case False
    let ?k = "min n (len s q)"
    define s1 where "s1 = memcpy (payload s q) (d + c) ?k s"
    have s1: "p_next s1 = p_next s" "payload s1 = payload s" "len s1 = len s" "s1\<lparr>mem_at := m\<rparr> = s\<lparr>mem_at := m\<rparr>" for m
      by (simp_all add: s1_def memcpy_def)
    have m1: "mem_at s1 x = (if payload s q \<le> x \<and> x < payload s q + ?k then mem_at s (d + c + (x - payload s q)) else mem_at s x)" for x
      by (simp add: s1_def)
    have q: "p = q" "q \<noteq> 0" "pchain (p_next s1) (p_next s q) qs" "areas_apart s1 qs" "clear_of s1 qs d N"
      "\<forall>r \<in> set qs. apart (area s q) (area s r)" "apart (area s q) (d, N)"
      using Cons.prems(1-3) by (auto simp: areas_apart_def clear_of_def s1)
    have "c + ?k + (n - ?k) \<le> N" "n - ?k \<le> lens s1 qs" using Cons.prems(4,5) by (simp_all add: s1)
    from Cons.IH [OF q(3-5) this] obtain m where m: "take_loop (p_next s q) d (n - ?k) (c + ?k) s1 = Some (s1\<lparr>mem_at := m\<rparr>)"
      "take (n - ?k) (pdata (s1\<lparr>mem_at := m\<rparr>) qs) = map (mem_at s1) [d + (c + ?k) ..< d + (c + ?k) + (n - ?k)]"
      "drop (n - ?k) (pdata (s1\<lparr>mem_at := m\<rparr>) qs) = drop (n - ?k) (pdata s1 qs)"
      "\<forall>x. (\<forall>r \<in> set qs. \<not> (payload s1 r \<le> x \<and> x < payload s1 r + len s1 r)) \<longrightarrow> m x = mem_at s1 x" by blast
    have run: "take_loop p d n c s = Some (s\<lparr>mem_at := m\<rparr>)"
      using m(1) q(1,2) False s1(4) by (subst take_loop.simps) (simp add: Let_def s1_def)
    have mq: "m x = mem_at s1 x" if "payload s q \<le> x" "x < payload s q + len s q" for x
    proof -
      have "\<forall>r \<in> set qs. \<not> (payload s1 r \<le> x \<and> x < payload s1 r + len s1 r)" using q(6) that by (auto simp: s1 apart_iff)
      then show ?thesis using m(4) by blast
    qed
    have src: "map (mem_at s1) [d + (c + ?k) ..< d + (c + ?k) + (n - ?k)] = map (mem_at s) [d + (c + ?k) ..< d + c + n]"
    proof -
      have "mem_at s1 x = mem_at s x" if "d \<le> x" "x < d + c + n" for x using q(7) Cons.prems(4) that by (auto simp: m1 apart_iff)
      moreover have "d + (c + ?k) + (n - ?k) = d + c + n" by simp
      ultimately show ?thesis by (auto intro!: map_cong simp: add.assoc)
    qed
    have old: "pdata s1 qs = pdata s qs"
      using pdata_mem [of qs s "mem_at s1"] q(6) s1(4) [of "mem_at s1"] by (fastforce simp: m1 apart_iff)
    have pq: "take ?k (piece (s\<lparr>mem_at := m\<rparr>) q) = map (mem_at s) [d + c ..< d + c + ?k]" "drop ?k (piece (s\<lparr>mem_at := m\<rparr>) q) = drop ?k (piece s q)"
      using mq by (auto simp: piece_def m1 list_eq_iff_nth_eq)
    have other: "m x = mem_at s x" if "\<forall>r \<in> set (q # qs). \<not> (payload s r \<le> x \<and> x < payload s r + len s r)" for x
      using m(4) that by (auto simp: s1 m1)
    have up: "[d + c ..< d + c + n] = [d + c ..< d + c + ?k] @ [d + (c + ?k) ..< d + c + n]"
      using upt_add_eq_append [of "d + c" "d + c + ?k" "n - ?k"] by (simp add: add.assoc)
    have t: "take n (pdata (s\<lparr>mem_at := m\<rparr>) (q # qs)) = map (mem_at s) [d + c ..< d + c + n]"
    proof (cases "n \<le> len s q")
      case True
      then show ?thesis using pq by (simp add: min_def)
    next
      case False
      then have "?k = len s q" by simp
      then show ?thesis using pq m(2) src False up by (simp add: s1 min_def)
    qed
    have dr: "drop n (pdata (s\<lparr>mem_at := m\<rparr>) (q # qs)) = drop n (pdata s (q # qs))"
      using pq(2) m(3) old by (cases "n \<le> len s q") (auto simp: s1 min_def)
    show ?thesis using run t dr other by blast
  qed
qed

lemma packet_hd:
  assumes "packet s p ps" and "ps \<noteq> []"
  shows "pchain (p_next s) p ps" "tot_len s p = lens s ps" "lens s ps < 2 ^ 16" "p \<noteq> 0" "p = hd ps"
  using assms pchain_hd [of "p_next s" p ps] by (cases ps; auto simp: packet_def)+

lemma pbuf_take_spec:
  assumes "packet s p ps" and "ps \<noteq> []" and "areas_apart s ps" and "clear_of s ps src n" and "src \<noteq> 0" and "n \<le> lens s ps"
  shows "\<exists>m. pbuf_take p src n s = Some (ERR_OK, s\<lparr>mem_at := m\<rparr>) \<and> take n (pdata (s\<lparr>mem_at := m\<rparr>) ps) = map (mem_at s) [src ..< src + n] \<and>
    drop n (pdata (s\<lparr>mem_at := m\<rparr>) ps) = drop n (pdata s ps) \<and>
    (\<forall>x. (\<forall>q \<in> set ps. \<not> (payload s q \<le> x \<and> x < payload s q + len s q)) \<longrightarrow> m x = mem_at s x)"
  using take_loop_spec [OF packet_hd(1) [OF assms(1,2)] assms(3,4), of 0 n] packet_hd(2,4) [OF assms(1,2)] assms(5,6)
  by (auto simp: pbuf_take_def)

section \<open>Copying out of a packet\<close>

lemma copy_partial_loop_spec:
  assumes "pchain (p_next s) p ps" and "clear_of s ps d N" and "left + n \<le> N" and "left + n < 2 ^ 16" and "\<forall>q \<in> set ps. len s q < 2 ^ 16"
  shows "\<exists>m. copy_partial_loop p d n off left s = Some (left + min n (lens s ps - off), s\<lparr>mem_at := m\<rparr>) \<and>
    map m [d + left ..< d + left + min n (lens s ps - off)] = take n (drop off (pdata s ps)) \<and>
    (\<forall>x. x < d + left \<or> d + left + n \<le> x \<longrightarrow> m x = mem_at s x)"
  using assms
proof (induction ps arbitrary: p s n off left)
  case Nil
  then show ?case by (subst copy_partial_loop.simps) (auto intro!: exI [of _ "mem_at s"])
next
  case (Cons q qs)
  have q: "p = q" "q \<noteq> 0" "pchain (p_next s) (p_next s q) qs" "apart (area s q) (d, N)" "clear_of s qs d N" "len s q < 2 ^ 16"
    using Cons.prems by (auto simp: clear_of_def)
  consider "n = 0" | "n \<noteq> 0" "off \<noteq> 0" "len s q \<le> off" | "n \<noteq> 0" "off = 0 \<or> off < len s q" by linarith
  then show ?case
  proof cases
    case 1
    then show ?thesis by (subst copy_partial_loop.simps) (auto intro!: exI [of _ "mem_at s"])
  next
    case 2
    then have "copy_partial_loop p d n off left s = copy_partial_loop (p_next s q) d n (off - len s q) left s"
      using q(1,2) by (subst copy_partial_loop.simps) simp
    moreover have "lens s (q # qs) - off = lens s qs - (off - len s q)" "drop off (pdata s (q # qs)) = drop (off - len s q) (pdata s qs)"
      using 2 by simp_all
    ultimately show ?thesis using Cons.IH [OF q(3,5) Cons.prems(3,4), of "off - len s q"] Cons.prems(5) by simp
  next
    case 3
    let ?k = "min n (len s q - off)"
    have le: "off \<le> len s q" using 3 by auto
    define s1 where "s1 = memcpy (d + left) (payload s q + off) ?k s"
    have s1: "p_next s1 = p_next s" "payload s1 = payload s" "len s1 = len s" "s1\<lparr>mem_at := m\<rparr> = s\<lparr>mem_at := m\<rparr>" for m
      by (simp_all add: s1_def memcpy_def)
    have m1: "mem_at s1 x = (if d + left \<le> x \<and> x < d + left + ?k then mem_at s (payload s q + off + (x - (d + left))) else mem_at s x)" for x
      by (simp add: s1_def)
    have c: "clear_of s1 qs d N" "pchain (p_next s1) (p_next s q) qs" "\<forall>r \<in> set qs. len s1 r < 2 ^ 16" "left + ?k + (n - ?k) \<le> N" "left + ?k + (n - ?k) < 2 ^ 16"
      using q Cons.prems(3-5) by (simp_all add: clear_of_def s1)
    from Cons.IH [OF c(2,1,4,5,3), of 0] obtain m where
      m: "copy_partial_loop (p_next s q) d (n - ?k) 0 (left + ?k) s1 = Some (left + ?k + min (n - ?k) (lens s qs), s\<lparr>mem_at := m\<rparr>)"
        "map m [d + (left + ?k) ..< d + (left + ?k) + min (n - ?k) (lens s qs)] = take (n - ?k) (pdata s1 qs)"
        "\<forall>x. x < d + (left + ?k) \<or> d + (left + ?k) + (n - ?k) \<le> x \<longrightarrow> m x = mem_at s1 x"
      by (auto simp: s1)
    have "u16_t (len s q + 2 ^ 16 - off) = len s q - off" using u16_t_sub [OF le] q(6) by simp
    moreover have "u16_t (left + ?k) = left + ?k" using Cons.prems(4) by simp
    ultimately have "copy_partial_loop p d n off left s = copy_partial_loop (p_next s q) d (n - ?k) 0 (left + ?k) s1"
      using 3 q(1,2) by (subst copy_partial_loop.simps) (auto simp: Let_def s1_def)
    moreover have tot: "left + ?k + min (n - ?k) (lens s qs) = left + min n (lens s (q # qs) - off)" using le by auto
    ultimately have run: "copy_partial_loop p d n off left s = Some (left + min n (lens s (q # qs) - off), s\<lparr>mem_at := m\<rparr>)" using m(1) by simp
    have old: "pdata s1 qs = pdata s qs"
      using pdata_mem [of qs s "mem_at s1"] s1(4) [of "mem_at s1"] q(5) Cons.prems(3) by (fastforce simp: m1 apart_iff clear_of_def)
    have first: "map m [d + left ..< d + left + ?k] = take n (drop off (piece s q))"
    proof -
      have "m x = mem_at s (payload s q + off + (x - (d + left)))" if "d + left \<le> x" "x < d + left + ?k" for x
        using m(3) that m1 by simp
      then show ?thesis by (auto simp: piece_def list_eq_iff_nth_eq)
    qed
    have up: "[d + left ..< d + left + (?k + min (n - ?k) (lens s qs))] =
        [d + left ..< d + left + ?k] @ [d + (left + ?k) ..< d + (left + ?k) + min (n - ?k) (lens s qs)]"
      using upt_add_eq_append [of "d + left" "d + left + ?k" "min (n - ?k) (lens s qs)"] by (simp add: add.assoc)
    have "?k + min (n - ?k) (lens s qs) = min n (lens s (q # qs) - off)" using tot by simp
    then have "map m [d + left ..< d + left + min n (lens s (q # qs) - off)] = take n (drop off (piece s q)) @ take (n - ?k) (pdata s qs)"
      using up first m(2) old by simp
    also have "\<dots> = take n (drop off (pdata s (q # qs)))" using le by (cases "n \<le> len s q - off") auto
    finally have data: "map m [d + left ..< d + left + min n (lens s (q # qs) - off)] = take n (drop off (pdata s (q # qs)))" .
    have "m x = mem_at s x" if "x < d + left \<or> d + left + n \<le> x" for x using m(3) m1 that by auto
    then show ?thesis using run data by blast
  qed
qed

section \<open>Single bytes\<close>

lemma pbuf_skip_const_spec:
  assumes "pchain (p_next s) p ps"
  shows "if off < lens s ps
    then \<exists>as q bs o'. ps = as @ q # bs \<and> off = lens s as + o' \<and> o' < len s q \<and> pbuf_skip_const p off s = Some (q, o')
    else pbuf_skip_const p off s = Some (0, off - lens s ps)"
  using assms
proof (induction ps arbitrary: p off)
  case Nil
  then show ?case by (subst pbuf_skip_const.simps) auto
next
  case (Cons q qs)
  have q: "p = q" "q \<noteq> 0" "pchain (p_next s) (p_next s q) qs" using Cons.prems by auto
  show ?case
  proof (cases "len s q \<le> off")
    case False
    then have "pbuf_skip_const p off s = Some (q, off)" using q by (subst pbuf_skip_const.simps) simp
    then have "q # qs = [] @ q # qs \<and> off = lens s [] + off \<and> off < len s q \<and> pbuf_skip_const p off s = Some (q, off)"
      using False by simp
    moreover have "off < lens s (q # qs)" using False by simp
    ultimately show ?thesis by (simp only: if_True) blast
  next
    case True
    then have r: "pbuf_skip_const p off s = pbuf_skip_const (p_next s q) (off - len s q) s" using q by (subst pbuf_skip_const.simps) simp
    show ?thesis
    proof (cases "off < lens s (q # qs)")
      case lt: True
      then have "off - len s q < lens s qs" using True by simp
      then obtain as x bs o' where i: "qs = as @ x # bs" "off - len s q = lens s as + o'" "o' < len s x" "pbuf_skip_const (p_next s q) (off - len s q) s = Some (x, o')"
        using Cons.IH [OF q(3), of "off - len s q"] by auto
      then have "q # qs = (q # as) @ x # bs \<and> off = lens s (q # as) + o' \<and> o' < len s x \<and> pbuf_skip_const p off s = Some (x, o')"
        using r True by simp
      then show ?thesis using lt by (simp only: if_True) blast
    next
      case False
      then have "\<not> off - len s q < lens s qs" using True by simp
      then show ?thesis using Cons.IH [OF q(3), of "off - len s q"] r False True by simp
    qed
  qed
qed

lemma pbuf_try_get_at_spec:
  assumes "pchain (p_next s) p ps"
  shows "pbuf_try_get_at p off s = Some (if off < lens s ps then Some (pdata s ps ! off) else None)"
proof (cases "off < lens s ps")
  case True
  then obtain as q bs o' where d: "ps = as @ q # bs" "off = lens s as + o'" "o' < len s q" "pbuf_skip_const p off s = Some (q, o')"
    using pbuf_skip_const_spec [OF assms, of off] by auto
  have "q \<noteq> 0" using pchain_nonnull [OF assms] d(1) by simp
  moreover have "pdata s ps ! off = piece s q ! o'" using d by (simp add: nth_append)
  ultimately show ?thesis using d True by (simp add: pbuf_try_get_at_def piece_def)
next
  case False
  then show ?thesis using pbuf_skip_const_spec [OF assms, of off] by (simp add: pbuf_try_get_at_def)
qed

lemma pbuf_get_at_spec: "pchain (p_next s) p ps \<Longrightarrow> off < lens s ps \<Longrightarrow> pbuf_get_at p off s = Some (pdata s ps ! off)"
  by (simp add: pbuf_get_at_def pbuf_try_get_at_spec)

section \<open>Comparison and search\<close>

lemma memcmp_loop_spec:
  assumes c: "pchain (p_next s) q qs" and n: "lens s qs < 2 ^ 16" and "start + i + length xs \<le> lens s qs"
  shows "\<exists>r. memcmp_loop q start xs i s = Some r \<and> (r = 0 \<longleftrightarrow> take (length xs) (drop (start + i) (pdata s qs)) = xs)"
  using assms(3)
proof (induction xs arbitrary: i)
  case (Cons x xs)
  have lt: "start + i < lens s qs" using Cons.prems by simp
  then have g: "pbuf_get_at q (u16_t (start + i)) s = Some (pdata s qs ! (start + i))" using pbuf_get_at_spec [OF c] n by simp
  have d: "drop (start + i) (pdata s qs) = pdata s qs ! (start + i) # drop (start + Suc i) (pdata s qs)"
    using lt Cons_nth_drop_Suc [of "start + i" "pdata s qs"] by simp
  show ?case
  proof (cases "pdata s qs ! (start + i) = x")
    case True
    then show ?thesis using g d Cons.IH [of "i + 1"] Cons.prems by simp
  next
    case False
    have "u16_t (min (Suc i) 65535) \<noteq> 0" by simp
    then show ?thesis using g d False by simp
  qed
qed simp

lemma pbuf_memcmp_spec:
  assumes p: "packet s p ps" "ps \<noteq> []"
  shows "\<exists>r. pbuf_memcmp p off xs s = Some r \<and> (r = 0 \<longleftrightarrow> off + length xs \<le> lens s ps \<and> take (length xs) (drop off (pdata s ps)) = xs)"
proof -
  note c = packet_hd [OF p]
  consider "lens s ps < off + length xs" | "off + length xs \<le> lens s ps" "off < lens s ps" | "off + length xs \<le> lens s ps" "off = lens s ps" "xs = []"
    by (cases "lens s ps < off + length xs"; cases "off < lens s ps"; cases xs) auto
  then show ?thesis
  proof cases
    case 1
    then show ?thesis using c by (simp add: pbuf_memcmp_def)
  next
    case 2
    then obtain as q bs o' where d: "ps = as @ q # bs" "off = lens s as + o'" "o' < len s q" "pbuf_skip_const p off s = Some (q, o')"
      using pbuf_skip_const_spec [OF c(1), of off] by auto
    have "pchain (p_next s) q (q # bs)" using c(1) pchain_split [of "p_next s" p as "q # bs"] d(1) by auto
    moreover have "lens s (q # bs) < 2 ^ 16" "o' + 0 + length xs \<le> lens s (q # bs)" using c(3) 2 d by simp_all
    ultimately have "\<exists>r. memcmp_loop q o' xs 0 s = Some r \<and> (r = 0 \<longleftrightarrow> take (length xs) (drop (o' + 0) (pdata s (q # bs))) = xs)"
      by (rule memcmp_loop_spec)
    then show ?thesis using 2 d c(2) by (auto simp: pbuf_memcmp_def)
  next
    case 3
    then show ?thesis using pbuf_skip_const_spec [OF c(1), of off] c(2) by (simp add: pbuf_memcmp_def)
  qed
qed

lemma memfind_loop_spec:
  assumes p: "packet s p ps" "ps \<noteq> []" and m: "mx + length xs = lens s ps" and i: "i \<le> mx + 1" and x: "xs \<noteq> []"
  shows "memfind_loop p xs i mx s = Some (case find (\<lambda>j. take (length xs) (drop j (pdata s ps)) = xs) [i ..< mx + 1] of Some j \<Rightarrow> j | None \<Rightarrow> 0xFFFF)"
  using i
proof (induction "mx + 1 - i" arbitrary: i)
  case 0
  then show ?case by (subst memfind_loop.simps) simp
next
  case (Suc n)
  have le: "i \<le> mx" using Suc.hyps(2) by simp
  have b: "lens s ps < 2 ^ 16" using p(1) by (simp add: packet_def)
  have "0 < length xs" using x by simp
  then have "i + 1 < 2 ^ 16" using le m b by linarith
  then have w: "u16_t (i + 1) = i + 1" by (simp add: u16_t_def)
  have up: "[i ..< mx + 1] = i # [i + 1 ..< mx + 1]" using le by (simp add: upt_conv_Cons)
  obtain r where r: "pbuf_memcmp p i xs s = Some r" "r = 0 \<longleftrightarrow> take (length xs) (drop i (pdata s ps)) = xs"
    using pbuf_memcmp_spec [OF p, of i xs] le m by auto
  have ih: "memfind_loop p xs (i + 1) mx s =
      Some (case find (\<lambda>j. take (length xs) (drop j (pdata s ps)) = xs) [i + 1 ..< mx + 1] of Some j \<Rightarrow> j | None \<Rightarrow> 0xFFFF)"
    using Suc.hyps(1) [of "i + 1"] Suc.hyps(2) le by simp
  show ?case unfolding up using r le w ih by (subst memfind_loop.simps) auto
qed

section \<open>Properties\<close>

lemma memp_link_mem_at [simp]: "mem_at (memp_link t n a e s) = mem_at s"
  by (induction t n a e s rule: memp_link.induct) simp_all

lemma mem_at_board: "mem_at board_pbufs = (\<lambda>a. of_nat a)"
  by (simp add: board_pbufs_def memp_init_pool_def)

text \<open>
  C35: What \<open>pbuf_take\<close> puts into a packet, \<open>pbuf_copy_partial\<close> gets out again, whichever way the packet
  is split into pbufs. Let the areas of the pbufs be disjoint from each other, from the source and from
  the destination. Taking \<open>n\<close> bytes that fit succeeds, leaves the bytes behind them and the rest of the
  memory alone, and a copy of any part of them delivers exactly that part and writes nothing else.
\<close>

theorem pbuf_take_copy_roundtrip:
  assumes "packet s p ps" and "ps \<noteq> []" and "areas_apart s ps" and "clear_of s ps src n" and "clear_of s ps dst k"
    and "src \<noteq> 0" and "dst \<noteq> 0" and "n \<le> lens s ps" and "off + k \<le> n"
  shows "\<exists>s1 s2. pbuf_take p src n s = Some (ERR_OK, s1) \<and> pbuf_copy_partial p dst k off s1 = Some (k, s2) \<and>
    map (mem_at s2) [dst ..< dst + k] = take k (drop off (map (mem_at s) [src ..< src + n])) \<and>
    drop n (pdata s1 ps) = drop n (pdata s ps) \<and>
    (\<forall>x. (\<forall>q \<in> set ps. \<not> (payload s q \<le> x \<and> x < payload s q + len s q)) \<longrightarrow> mem_at s1 x = mem_at s x) \<and>
    (\<forall>x. x < dst \<or> dst + k \<le> x \<longrightarrow> mem_at s2 x = mem_at s1 x)"
proof -
  note c = packet_hd [OF assms(1,2)]
  obtain m where m: "pbuf_take p src n s = Some (ERR_OK, s\<lparr>mem_at := m\<rparr>)" "take n (pdata (s\<lparr>mem_at := m\<rparr>) ps) = map (mem_at s) [src ..< src + n]"
      "drop n (pdata (s\<lparr>mem_at := m\<rparr>) ps) = drop n (pdata s ps)"
      "\<forall>x. (\<forall>q \<in> set ps. \<not> (payload s q \<le> x \<and> x < payload s q + len s q)) \<longrightarrow> m x = mem_at s x"
    using pbuf_take_spec [OF assms(1-4,6,8)] by blast
  define s1 where "s1 = s\<lparr>mem_at := m\<rparr>"
  have s1: "p_next s1 = p_next s" "len s1 = len s" "payload s1 = payload s" "mem_at s1 = m" by (simp_all add: s1_def)
  have tk: "pbuf_take p src n s = Some (ERR_OK, s1)" using m(1) by (simp add: s1_def)
  have l: "\<forall>q \<in> set ps. len s1 q < 2 ^ 16" using member_le_sum_list [of _ "map (len s) ps"] c(3) by (fastforce simp: s1)
  have cc: "pchain (p_next s1) p ps" "clear_of s1 ps dst k" using c(1) assms(5) by (simp_all add: s1 clear_of_def)
  have e: "min k (lens s1 ps - off) = k" using assms(8,9) by (simp add: s1)
  have "0 + k < 2 ^ 16" using assms(8,9) c(3) by simp
  from copy_partial_loop_spec [OF cc _ this l, of off] obtain m2 where
    m2: "copy_partial_loop p dst k off 0 s1 = Some (k, s1\<lparr>mem_at := m2\<rparr>)" "map m2 [dst ..< dst + k] = take k (drop off (pdata s1 ps))"
      "\<forall>x. x < dst \<or> dst + k \<le> x \<longrightarrow> m2 x = mem_at s1 x" by (auto simp: e)
  have "take k (drop off (pdata s1 ps)) = take k (drop off (take n (pdata s1 ps)))" using assms(9) by (simp add: drop_take)
  then have "map m2 [dst ..< dst + k] = take k (drop off (map (mem_at s) [src ..< src + n]))" using m2(2) m(2) by (simp add: s1_def)
  moreover have "pbuf_copy_partial p dst k off s1 = Some (k, s1\<lparr>mem_at := m2\<rparr>)" using m2(1) c(4) assms(7) by (simp add: pbuf_copy_partial_def)
  ultimately show ?thesis using tk m(3,4) m2(3) unfolding s1_def by (fastforce simp: s1_def)
qed


theorem pbuf_take_copy_roundtrip_witness:
  "\<exists>s1 s2. pbuf_take 536891920 100 4 two_packets = Some (ERR_OK, s1) \<and> pbuf_copy_partial 536891920 200 2 1 s1 = Some (2, s2) \<and>
    map (mem_at s2) [200 ..< 202] = [101, 102]"
proof -
  have a: "areas_apart two_packets [536891920, 536891392]" "clear_of two_packets [536891920, 536891392] 100 4" "clear_of two_packets [536891920, 536891392] 200 2"
    "lens two_packets [536891920, 536891392] = 4"
    by (simp_all add: areas_apart_def clear_of_def apart_iff two_packets_def)
  have "map (mem_at two_packets) [100 ..< 104] = [100, 101, 102, 103]" by (simp add: two_packets_def mem_at_board upt_rec)
  then show ?thesis using pbuf_take_copy_roundtrip [OF two_packets_ok(2) _ a(1,2,3), of 1] a(4) by (fastforce simp: numeral_2_eq_2)
qed

text \<open>
  C36: \<open>pbuf_memfind\<close> agrees with a search in the bytes of the packet: it finds the first position from
  the given one on at which they occur, and answers \<open>0xFFFF\<close> when there is none or the request does
  not fit the packet. The computed 16-bit bounds never wrap in a way that matters.
\<close>

theorem pbuf_memfind_first:
  assumes "packet s p ps" and "ps \<noteq> []"
  shows "pbuf_memfind p xs start s = Some
    (if length xs + start \<le> lens s ps
     then (case find (\<lambda>i. take (length xs) (drop i (pdata s ps)) = xs) [start ..< lens s ps - length xs + 1] of Some i \<Rightarrow> i | None \<Rightarrow> 0xFFFF)
     else 0xFFFF)"
proof (cases "length xs + start \<le> lens s ps")
  case True
  note c = packet_hd(2,3) [OF assms]
  have mx: "u16_t (tot_len s p + 2 ^ 16 - length xs) = lens s ps - length xs" using u16_t_sub [of "length xs" "lens s ps"] True c by simp
  show ?thesis
  proof (cases "xs = []")
    case xs: True
    then have up: "[start ..< lens s ps - length xs + 1] = start # [start + 1 ..< lens s ps + 1]" using True by (simp add: upt_conv_Cons)
    obtain r where "pbuf_memcmp p start [] s = Some r" "r = 0" using pbuf_memcmp_spec [OF assms, of start "[]"] True xs by auto
    then show ?thesis unfolding up using True c xs mx by (simp add: pbuf_memfind_def) (subst memfind_loop.simps; simp)
  next
    case False
    then show ?thesis using memfind_loop_spec [OF assms, of "lens s ps - length xs" xs start] True c mx by (simp add: pbuf_memfind_def)
  qed
next
  case False
  then show ?thesis using packet_hd(2) [OF assms] by (simp add: pbuf_memfind_def)
qed

theorem pbuf_memfind_first_witness:
  "pbuf_memfind 536891920 (map of_nat [536891937, 536891408]) 0 two_packets = Some 1 \<and> pbuf_memfind 536891920 [1] 0 two_packets = Some 0xFFFF"
  unfolding pbuf_memfind_first [OF two_packets_ok(2) list.distinct(2)]
  by (simp add: two_packets_def pdata_def piece_def mem_at_board upt_rec)

end
