(* ===== verification/Eth_Driver.thy ===== *)
theory Eth_Driver
  imports Pbuf_Data Queue_Mutex
begin

text \<open>
  \<open>ETH_Driver/eth_driver_RMII.c\<close> (the driver the demo selects) and the functions of
  \<open>Peripheral/src/ch32v30x_eth.c\<close> it uses for its descriptors: two rings of DMA descriptors, one for
  received frames and one for frames to send. A descriptor belongs to the DMA engine while its bit
  \<open>OWN\<close> is set. The state keeps each field of a descriptor as a function of its address, the pointers
  of the driver, its link state and the registers the driver computes with; a write to a register that
  starts an action of the hardware is recorded in \<open>reg_writes\<close>. The data buffers are part of the memory
  of the packet buffers, \<open>mem_at\<close>. What the hardware answers (the interrupt status, the registers of the
  PHY) is an argument.
\<close>

section \<open>State\<close>

datatype eth_reg = DMARPDR | DMATPDR | DMASR | DMATDLAR | DMARDLAR

record eth =
  Status :: "nat \<Rightarrow> u32"
  ControlBufferSize :: "nat \<Rightarrow> u32"
  Buffer1Addr :: "nat \<Rightarrow> nat"
  Buffer2NextDescAddr :: "nat \<Rightarrow> nat"
  pDMARxSet :: nat
  pDMATxSet :: nat
  DMATxDescToSet :: nat
  DMARxDescToGet :: nat
  LocalTime :: u32
  LinkSta :: bool
  phy_link_state :: bool
  link_poll_time :: u32
  MACCR :: u32
  MACFFR :: u32
  DMAOMR :: u32
  reg_writes :: "(eth_reg \<times> u32) list"

abbreviation (input) ETH_MAX_PACKET_SIZE :: nat where "ETH_MAX_PACKET_SIZE \<equiv> 1524"
abbreviation (input) ETH_RXBUFNB :: nat where "ETH_RXBUFNB \<equiv> 4"
abbreviation (input) ETH_TXBUFNB :: nat where "ETH_TXBUFNB \<equiv> 2"
abbreviation (input) PHY_LINK_TASK_PERIOD :: u32 where "PHY_LINK_TASK_PERIOD \<equiv> 50"
abbreviation (input) ETH_DMADesc_OWN :: u32 where "ETH_DMADesc_OWN \<equiv> 0x80000000"
abbreviation (input) ETH_DMARxDesc_FL :: u32 where "ETH_DMARxDesc_FL \<equiv> 0x3FFF0000"
abbreviation (input) ETH_DMARxDesc_ES :: u32 where "ETH_DMARxDesc_ES \<equiv> 0x00008000"
abbreviation (input) ETH_DMARxDesc_FS :: u32 where "ETH_DMARxDesc_FS \<equiv> 0x00000200"
abbreviation (input) ETH_DMARxDesc_LS :: u32 where "ETH_DMARxDesc_LS \<equiv> 0x00000100"
abbreviation (input) ETH_DMATxDesc_TBS1 :: u32 where "ETH_DMATxDesc_TBS1 \<equiv> 0x00001FFF"
abbreviation (input) ETH_DMATxDesc_LS_FS :: u32 where "ETH_DMATxDesc_LS_FS \<equiv> 0x30000000"
abbreviation (input) ETH_DMATxDesc_TCH_IC :: u32 where "ETH_DMATxDesc_TCH_IC \<equiv> 0x40100000"

abbreviation write_reg :: "eth_reg \<Rightarrow> u32 \<Rightarrow> eth \<Rightarrow> eth" where
  "write_reg r v d \<equiv> d\<lparr>reg_writes := reg_writes d @ [(r, v)]\<rparr>"
abbreviation set_status :: "nat \<Rightarrow> u32 \<Rightarrow> eth \<Rightarrow> eth" where
  "set_status a v d \<equiv> d\<lparr>Status := (Status d)(a := v)\<rparr>"

abbreviation owned :: "u32 \<Rightarrow> bool" where
  "owned st \<equiv> st AND ETH_DMADesc_OWN \<noteq> 0"

section \<open>Setting up the rings\<close>

text \<open>The loops of the two functions; \<open>i\<close> runs up to \<open>n\<close>, a descriptor has 16 bytes.\<close>

fun tx_chain_loop :: "nat \<Rightarrow> nat \<Rightarrow> nat \<Rightarrow> nat \<Rightarrow> nat \<Rightarrow> eth \<Rightarrow> eth" where
  "tx_chain_loop 0 i tab buf n d = d"
| "tx_chain_loop (Suc m) i tab buf n d =
     tx_chain_loop m (i + 1) tab buf n
       (d\<lparr>Status := (Status d)(tab + 16 * i := ETH_DMATxDesc_TCH_IC),
          Buffer1Addr := (Buffer1Addr d)(tab + 16 * i := buf + i * ETH_MAX_PACKET_SIZE),
          Buffer2NextDescAddr := (Buffer2NextDescAddr d)(tab + 16 * i := (if i < n - 1 then tab + 16 * (i + 1) else tab))\<rparr>)"

definition ETH_DMATxDescChainInit :: "nat \<Rightarrow> nat \<Rightarrow> nat \<Rightarrow> eth \<Rightarrow> eth" where
  "ETH_DMATxDescChainInit tab buf n d =
     write_reg DMATDLAR (of_nat tab) (tx_chain_loop n 0 tab buf n (d\<lparr>DMATxDescToSet := tab\<rparr>))"

fun rx_chain_loop :: "nat \<Rightarrow> nat \<Rightarrow> nat \<Rightarrow> nat \<Rightarrow> nat \<Rightarrow> eth \<Rightarrow> eth" where
  "rx_chain_loop 0 i tab buf n d = d"
| "rx_chain_loop (Suc m) i tab buf n d =
     rx_chain_loop m (i + 1) tab buf n
       (d\<lparr>Status := (Status d)(tab + 16 * i := ETH_DMADesc_OWN),
          ControlBufferSize := (ControlBufferSize d)(tab + 16 * i := 0x4000 OR of_nat ETH_MAX_PACKET_SIZE),
          Buffer1Addr := (Buffer1Addr d)(tab + 16 * i := buf + i * ETH_MAX_PACKET_SIZE),
          Buffer2NextDescAddr := (Buffer2NextDescAddr d)(tab + 16 * i := (if i < n - 1 then tab + 16 * (i + 1) else tab))\<rparr>)"

definition ETH_DMARxDescChainInit :: "nat \<Rightarrow> nat \<Rightarrow> nat \<Rightarrow> eth \<Rightarrow> eth" where
  "ETH_DMARxDescChainInit tab buf n d =
     write_reg DMARDLAR (of_nat tab) (rx_chain_loop n 0 tab buf n (d\<lparr>DMARxDescToGet := tab\<rparr>))"

text \<open>The part of \<open>ETH_Init\<close> that sets up the state of the driver; the tables and buffers are static.\<close>

definition ETH_Init :: "nat \<Rightarrow> nat \<Rightarrow> nat \<Rightarrow> nat \<Rightarrow> eth \<Rightarrow> eth" where
  "ETH_Init DMATxDscrTab MACTxBuf DMARxDscrTab MACRxBuf d =
     (let d1 = d\<lparr>LinkSta := False, phy_link_state := False\<rparr>;
          d2 = ETH_DMATxDescChainInit DMATxDscrTab MACTxBuf ETH_TXBUFNB d1;
          d3 = ETH_DMARxDescChainInit DMARxDscrTab MACRxBuf ETH_RXBUFNB d2
      in d3\<lparr>pDMARxSet := DMARxDscrTab, pDMATxSet := DMATxDscrTab, link_poll_time := LocalTime d3 - PHY_LINK_TASK_PERIOD\<rparr>)"

section \<open>Receiving\<close>

definition good_frame :: "u32 \<Rightarrow> bool" where
  "good_frame st \<longleftrightarrow> st AND ETH_DMARxDesc_ES = 0 \<and> st AND ETH_DMARxDesc_FS \<noteq> 0 \<and> st AND ETH_DMARxDesc_LS \<noteq> 0"

text \<open>The frame length without the four bytes of the checksum, converted to 16 bits.\<close>

definition frame_len :: "u32 \<Rightarrow> nat" where
  "frame_len st = u16_t (unat (drop_bit 16 (st AND ETH_DMARxDesc_FL)) + 2 ^ 16 - 4)"

text \<open>\<open>None\<close> as the first result is the null pointer. The loop discards bad frames.\<close>

partial_function (option) ETH_RecPeek :: "eth \<Rightarrow> ((nat \<times> nat) option \<times> eth) option" where
  "ETH_RecPeek d =
     (let st = Status d (pDMARxSet d)
      in if \<not> owned st
         then (if good_frame st then Some (Some (Buffer1Addr d (pDMARxSet d), frame_len st), d)
               else ETH_RecPeek (let d1 = set_status (pDMARxSet d) ETH_DMADesc_OWN d
                                 in d1\<lparr>pDMARxSet := Buffer2NextDescAddr d1 (pDMARxSet d1)\<rparr>))
         else Some (None, d))"

definition ETH_RecFree :: "eth \<Rightarrow> eth" where
  "ETH_RecFree d =
     (let d1 = set_status (pDMARxSet d) ETH_DMADesc_OWN d
      in write_reg DMARPDR 0 (d1\<lparr>pDMARxSet := Buffer2NextDescAddr d1 (pDMARxSet d1)\<rparr>))"

section \<open>Sending\<close>

definition ETH_GetTxBuf :: "eth \<Rightarrow> nat option" where
  "ETH_GetTxBuf d = (if owned (Status d (DMATxDescToSet d)) then None else Some (Buffer1Addr d (DMATxDescToSet d)))"

definition ETH_SendFrame :: "nat \<Rightarrow> eth \<Rightarrow> eth" where
  "ETH_SendFrame n d =
     (let t = DMATxDescToSet d;
          d1 = d\<lparr>ControlBufferSize := (ControlBufferSize d)(t := of_nat n AND ETH_DMATxDesc_TBS1)\<rparr>;
          d2 = set_status t (Status d1 t OR ETH_DMATxDesc_LS_FS) d1;
          d3 = set_status t (Status d2 t OR ETH_DMADesc_OWN) d2;
          d4 = write_reg DMATPDR 0 (write_reg DMASR 0x4 d3)
      in d4\<lparr>DMATxDescToSet := Buffer2NextDescAddr d4 t\<rparr>)"

text \<open>\<open>MACRAW_Tx\<close> also copies the frame; \<open>False\<close> is \<open>ETH_ERROR\<close>.\<close>

definition MACRAW_Tx :: "nat \<Rightarrow> nat \<Rightarrow> eth \<Rightarrow> pbufs \<Rightarrow> bool \<times> eth \<times> pbufs" where
  "MACRAW_Tx buff n d s =
     (if owned (Status d (DMATxDescToSet d)) then (False, d, s)
      else (True, ETH_SendFrame n d, memcpy (Buffer1Addr d (DMATxDescToSet d)) buff n s))"

section \<open>The link\<close>

definition WCHNET_TimeIsr :: "u32 \<Rightarrow> eth \<Rightarrow> eth" where
  "WCHNET_TimeIsr timperiod d = d\<lparr>LocalTime := LocalTime d + timperiod\<rparr>"

definition ETH_Start :: "eth \<Rightarrow> eth" where
  "ETH_Start d = d\<lparr>MACCR := (MACCR d OR 0x8) OR 0x4, DMAOMR := ((DMAOMR d OR 0x100000) OR 0x2000) OR 0x2\<rparr>"

definition ETH_Stop :: "eth \<Rightarrow> eth" where
  "ETH_Stop d = d\<lparr>MACCR := (MACCR d AND NOT 0x8) AND NOT 0x4, DMAOMR := DMAOMR d OR 0x100000\<rparr>"

definition ETH_EnableMacFilter :: "eth \<Rightarrow> eth" where
  "ETH_EnableMacFilter d = d\<lparr>MACFFR := MACFFR d AND NOT 0x80000001\<rparr>"

text \<open>\<open>bsr\<close> is what the second read of the status register answers, \<open>pscr\<close> the speed the PHY negotiated.\<close>

definition WCHNET_HandlePhyNegotiation :: "u16 \<Rightarrow> u16 \<Rightarrow> eth \<Rightarrow> eth" where
  "WCHNET_HandlePhyNegotiation bsr pscr d =
     (if LocalTime d - link_poll_time d < PHY_LINK_TASK_PERIOD then d
      else
        (let d1 = d\<lparr>link_poll_time := LocalTime d\<rparr>
         in if bsr AND 0x0004 \<noteq> 0
            then (let d2 = (if \<not> phy_link_state d1
                            then (let m1 = (if pscr AND 0x8 \<noteq> 0 then MACCR d1 OR 0x4000 else MACCR d1 AND NOT 0x4000);
                                      m2 = (if pscr AND 0x10 \<noteq> 0 then m1 OR 0x800 else m1 AND NOT 0x800)
                                  in ETH_Start (d1\<lparr>phy_link_state := True, MACCR := m2\<rparr>))
                            else d1)
                  in d2\<lparr>LinkSta := True\<rparr>)
            else (let d2 = (if phy_link_state d1 then ETH_Stop (d1\<lparr>phy_link_state := False\<rparr>) else d1)
                  in d2\<lparr>LinkSta := False\<rparr>)))"

end
