(* ===== verification/Ethernetif.thy ===== *)
theory Ethernetif
  imports Eth_Driver
begin

text \<open>
  \<open>LWIP_PORT/ethernetif.c\<close> and the interrupt handler of \<open>ETH_Driver/eth_driver_RMII.c\<close>: frames move
  between the DMA buffers and packets, and two binary semaphores connect the interrupt with the tasks.
  The state combines the packet buffers, the driver, the two semaphores and the kernel. A call that
  waits for a semaphore is split where the task blocks, as the queue operations are: the result
  \<open>Loop\<close> means that the task waits, and the function \<open>\<dots>_resume\<close> is its next pass.
\<close>

section \<open>State and operations\<close>

record ethif =
  pb :: pbufs
  dev :: eth
  eth_rx_semaphore :: Queue_t
  eth_tx_semaphore :: Queue_t
  kern :: kernel

text \<open>Both semaphores are created empty; \<open>q0\<close> is what the allocated memory held before.\<close>

definition ethernetif_sync_init :: "Queue_t \<Rightarrow> heap4 \<Rightarrow> ethif \<Rightarrow> (heap4 \<times> ethif) option" where
  "ethernetif_sync_init q0 h s = do {
     (r, h1, k1) \<leftarrow> xQueueGenericCreate 1 0 q0 h (kern s);
     (t, h2, k2) \<leftarrow> xQueueGenericCreate 1 0 q0 h1 k1;
     (case (r, t) of
        (Some (_, rx), Some (_, tx)) \<Rightarrow> Some (h2, s\<lparr>eth_rx_semaphore := rx, eth_tx_semaphore := tx, kern := k2\<rparr>)
      | _ \<Rightarrow> None)
   }"

definition ethernetif_rx_signal :: "ethif \<Rightarrow> ethif option" where
  "ethernetif_rx_signal s = do {
     (r, woken, q, k) \<leftarrow> xQueueGiveFromISR (eth_rx_semaphore s) (kern s);
     Some (s\<lparr>eth_rx_semaphore := q, kern := (if woken then portYIELD k else k)\<rparr>)
   }"

definition ethernetif_tx_signal :: "ethif \<Rightarrow> ethif option" where
  "ethernetif_tx_signal s = do {
     (r, woken, q, k) \<leftarrow> xQueueGiveFromISR (eth_tx_semaphore s) (kern s);
     Some (s\<lparr>eth_tx_semaphore := q, kern := (if woken then portYIELD k else k)\<rparr>)
   }"

abbreviation (input) ETH_DMA_IT_NIS :: u32 where "ETH_DMA_IT_NIS \<equiv> 0x10000"
abbreviation (input) ETH_DMA_IT_AIS :: u32 where "ETH_DMA_IT_AIS \<equiv> 0x8000"
abbreviation (input) ETH_DMA_IT_RBU :: u32 where "ETH_DMA_IT_RBU \<equiv> 0x80"
abbreviation (input) ETH_DMA_IT_R :: u32 where "ETH_DMA_IT_R \<equiv> 0x40"
abbreviation (input) ETH_DMA_IT_T :: u32 where "ETH_DMA_IT_T \<equiv> 0x1"

abbreviation clear_pending :: "u32 \<Rightarrow> ethif \<Rightarrow> ethif" where
  "clear_pending b s \<equiv> s\<lparr>dev := write_reg DMASR b (dev s)\<rparr>"

definition WCHNET_ETHIsr :: "u32 \<Rightarrow> ethif \<Rightarrow> ethif option" where
  "WCHNET_ETHIsr int_sta s = do {
     let s1 = (if int_sta AND ETH_DMA_IT_AIS \<noteq> 0
               then (let s0 = (if int_sta AND ETH_DMA_IT_RBU \<noteq> 0
                               then clear_pending ETH_DMA_IT_RBU (s\<lparr>dev := write_reg DMARPDR 0 (dev s)\<rparr>) else s)
                     in clear_pending ETH_DMA_IT_AIS s0)
               else s);
     if int_sta AND ETH_DMA_IT_NIS \<noteq> 0
     then do {
       s2 \<leftarrow> (if int_sta AND ETH_DMA_IT_R \<noteq> 0 then map_option (clear_pending ETH_DMA_IT_R) (ethernetif_rx_signal s1) else Some s1);
       s3 \<leftarrow> (if int_sta AND ETH_DMA_IT_T \<noteq> 0 then map_option (clear_pending ETH_DMA_IT_T) (ethernetif_tx_signal s2) else Some s2);
       Some (clear_pending ETH_DMA_IT_NIS s3)
     }
     else Some s1
   }"

text \<open>Sending: the pieces of the packet are copied one after the other into the buffer of the
  descriptor; \<open>n\<close> is the length of the packet when the call started.\<close>

partial_function (option) output_loop :: "nat \<Rightarrow> nat \<Rightarrow> nat \<Rightarrow> pbufs \<Rightarrow> pbufs option" where
  "output_loop dst off q s =
     (if q \<noteq> 0 then output_loop dst (u16_t (off + len s q)) (p_next s q) (memcpy (dst + off) (payload s q) (len s q) s)
      else Some s)"

definition output_copy :: "nat \<Rightarrow> nat \<Rightarrow> nat \<Rightarrow> ethif \<Rightarrow> (err_t pass \<times> ethif) option" where
  "output_copy p n dst s = do {
     b \<leftarrow> output_loop dst 0 p (pb s);
     Some (Return ERR_OK, s\<lparr>pb := b, dev := ETH_SendFrame n (dev s)\<rparr>)
   }"

text \<open>The second look at the descriptor, when the semaphore has been obtained or the wait has expired.\<close>

definition output_retry :: "nat \<Rightarrow> nat \<Rightarrow> bool \<Rightarrow> ethif \<Rightarrow> (err_t pass \<times> ethif) option" where
  "output_retry p n got s =
     (case (if got then ETH_GetTxBuf (dev s) else None) of
        None \<Rightarrow> Some (Return ERR_IF, s)
      | Some dst \<Rightarrow> output_copy p n dst s)"

definition output_taken :: "nat \<Rightarrow> nat \<Rightarrow> bool pass \<times> bool \<times> Queue_t \<times> kernel \<Rightarrow> ethif \<Rightarrow> (err_t pass \<times> ethif) option" where
  "output_taken p n t s =
     (case t of (r, inh, q, k) \<Rightarrow>
        (case r of
           Return b \<Rightarrow> output_retry p n b (s\<lparr>eth_tx_semaphore := q, kern := k\<rparr>)
         | Loop tm w \<Rightarrow> Some (Loop tm w, s\<lparr>eth_tx_semaphore := q, kern := k\<rparr>)))"

text \<open>\<open>pdMS_TO_TICKS (50)\<close> is 25 ticks of 2 ms.\<close>

definition low_level_output :: "nat \<Rightarrow> ethif \<Rightarrow> (err_t pass \<times> ethif) option" where
  "low_level_output p s =
     (if ETH_MAX_PACKET_SIZE < tot_len (pb s) p then Some (Return ERR_MEM, s)
      else case ETH_GetTxBuf (dev s) of
             Some dst \<Rightarrow> output_copy p (tot_len (pb s) p) dst s
           | None \<Rightarrow> do { t \<leftarrow> xQueueSemaphoreTake 25 (eth_tx_semaphore s) (kern s); output_taken p (tot_len (pb s) p) t s })"

definition low_level_output_resume :: "nat \<Rightarrow> nat \<Rightarrow> TimeOut_t \<Rightarrow> u32 \<Rightarrow> ethif \<Rightarrow> (err_t pass \<times> ethif) option" where
  "low_level_output_resume p n tm w s = do {
     t \<leftarrow> xQueueSemaphoreTake_pass (Some tm) w False (eth_tx_semaphore s) (kern s);
     output_taken p n t s
   }"

text \<open>Receiving: the result 0 is the null pointer.\<close>

definition low_level_input :: "bool \<Rightarrow> ethif \<Rightarrow> (nat \<times> ethif) option" where
  "low_level_input accepted s = do {
     (r, d1) \<leftarrow> ETH_RecPeek (dev s);
     case r of
       None \<Rightarrow> Some (0, s\<lparr>dev := d1\<rparr>)
     | Some (src, n) \<Rightarrow> do {
         (p, b1) \<leftarrow> pbuf_alloc accepted PBUF_RAW n PBUF_POOL (pb s);
         b2 \<leftarrow> (if p \<noteq> 0 then map_option snd (pbuf_take p src n b1) else Some b1);
         Some (p, s\<lparr>pb := b2, dev := ETH_RecFree d1\<rparr>)
       }
   }"

text \<open>
  The loop of \<open>ethernetif_input\<close>; \<open>input\<close> is the function pointer of the interface, which takes over
  the packet when it answers \<open>ERR_OK\<close>.
\<close>

partial_function (option) input_loop :: "(nat \<Rightarrow> ethif \<Rightarrow> err_t \<times> ethif) \<Rightarrow> bool \<Rightarrow> ethif \<Rightarrow> ethif option" where
  "input_loop input accepted s =
     Option.bind (low_level_input accepted s) (\<lambda>(p, s1).
       if p = 0 then Some s1
       else case input p s1 of (e, s2) \<Rightarrow>
              if e \<noteq> ERR_OK
              then Option.bind (pbuf_free p (pb s2)) (\<lambda>(c, b). input_loop input accepted (s2\<lparr>pb := b\<rparr>))
              else input_loop input accepted s2)"

definition input_taken ::
  "(nat \<Rightarrow> ethif \<Rightarrow> err_t \<times> ethif) \<Rightarrow> bool \<Rightarrow> bool pass \<times> bool \<times> Queue_t \<times> kernel \<Rightarrow> ethif \<Rightarrow> (unit pass \<times> ethif) option" where
  "input_taken input accepted t s =
     (case t of (r, inh, q, k) \<Rightarrow>
        (case r of
           Return b \<Rightarrow> map_option (Pair (Return ())) (input_loop input accepted (s\<lparr>eth_rx_semaphore := q, kern := k\<rparr>))
         | Loop tm n \<Rightarrow> Some (Loop tm n, s\<lparr>eth_rx_semaphore := q, kern := k\<rparr>)))"

text \<open>\<open>pdMS_TO_TICKS (10)\<close> is 5 ticks.\<close>

definition ethernetif_input :: "(nat \<Rightarrow> ethif \<Rightarrow> err_t \<times> ethif) \<Rightarrow> bool \<Rightarrow> ethif \<Rightarrow> (unit pass \<times> ethif) option" where
  "ethernetif_input input accepted s = do {
     t \<leftarrow> xQueueSemaphoreTake 5 (eth_rx_semaphore s) (kern s);
     input_taken input accepted t s
   }"

definition ethernetif_input_resume ::
  "(nat \<Rightarrow> ethif \<Rightarrow> err_t \<times> ethif) \<Rightarrow> bool \<Rightarrow> TimeOut_t \<Rightarrow> u32 \<Rightarrow> ethif \<Rightarrow> (unit pass \<times> ethif) option" where
  "ethernetif_input_resume input accepted tm n s = do {
     t \<leftarrow> xQueueSemaphoreTake_pass (Some tm) n False (eth_rx_semaphore s) (kern s);
     input_taken input accepted t s
   }"

end
