(* ===== verification/Eth_Rings.thy ===== *)
theory Eth_Rings
  imports Ethernetif "HOL-Library.Sublist"
begin

text \<open>
  The descriptor rings of the Ethernet driver and the way of a frame through them. The DMA engine is
  the environment: it may fill the next descriptor of the receive ring and send the next one of the
  transmit ring whenever it owns it. Through every interleaving with the driver, the stack receives
  the frames of the wire in order and unchanged, and the wire carries the packets of the stack in
  order and unchanged.
\<close>

section \<open>Cyclic lists of descriptors\<close>

definition cyclic :: "(nat \<Rightarrow> nat) \<Rightarrow> nat list \<Rightarrow> bool" where
  "cyclic nxt ds \<longleftrightarrow> ds \<noteq> [] \<and> distinct ds \<and> map nxt ds = rotate1 ds"

lemma cyclic_step:
  assumes "cyclic nxt (x # xs)"
  shows "nxt x = hd (xs @ [x])" "cyclic nxt (xs @ [x])" "x \<notin> set xs"
proof -
  have e: "nxt x # map nxt xs = xs @ [x]" "x \<notin> set xs" "distinct xs" using assms by (simp_all add: cyclic_def)
  show "x \<notin> set xs" by (rule e(2))
  show h: "nxt x = hd (xs @ [x])" using e(1) by (metis list.sel(1))
  have "map nxt (xs @ [x]) = tl (nxt x # map nxt xs) @ [nxt x]" by simp
  also have "\<dots> = tl (xs @ [x]) @ [hd (xs @ [x])]" using e(1) h by simp
  also have "\<dots> = rotate1 (xs @ [x])" by (cases xs) simp_all
  finally show "cyclic nxt (xs @ [x])" using e by (simp add: cyclic_def)
qed

text \<open>The receive ring: first the descriptors with frames for the driver, then those of the DMA engine.\<close>

definition rx_ring :: "eth \<Rightarrow> nat list \<Rightarrow> nat list \<Rightarrow> bool" where
  "rx_ring d pend free \<longleftrightarrow> cyclic (Buffer2NextDescAddr d) (pend @ free) \<and> pDMARxSet d = hd (pend @ free) \<and>
     (\<forall>x \<in> set pend. \<not> owned (Status d x)) \<and> (\<forall>x \<in> set free. owned (Status d x))"

text \<open>The transmit ring: first the descriptors the driver may use, then those to be sent.\<close>

definition tx_ring :: "eth \<Rightarrow> nat list \<Rightarrow> nat list \<Rightarrow> bool" where
  "tx_ring d idle busy \<longleftrightarrow> cyclic (Buffer2NextDescAddr d) (idle @ busy) \<and> DMATxDescToSet d = hd (idle @ busy) \<and>
     (\<forall>x \<in> set idle. \<not> owned (Status d x)) \<and> (\<forall>x \<in> set busy. owned (Status d x))"

section \<open>The driver on its rings\<close>

abbreviation bad_frames :: "eth \<Rightarrow> nat list \<Rightarrow> nat list" where
  "bad_frames d \<equiv> takeWhile (\<lambda>x. \<not> good_frame (Status d x))"
abbreviation from_good :: "eth \<Rightarrow> nat list \<Rightarrow> nat list" where
  "from_good d \<equiv> dropWhile (\<lambda>x. \<not> good_frame (Status d x))"

definition give_back :: "nat list \<Rightarrow> eth \<Rightarrow> eth" where
  "give_back xs d = d\<lparr>Status := (\<lambda>x. if x \<in> set xs then ETH_DMADesc_OWN else Status d x)\<rparr>"

text \<open>\<open>ETH_RecPeek\<close> always returns: with the first good frame, or with none when there is none.\<close>

lemma ETH_RecPeek_spec:
  assumes "rx_ring d pend free"
  shows "\<exists>d'. ETH_RecPeek d = Some (case from_good d pend of [] \<Rightarrow> None | x # _ \<Rightarrow> Some (Buffer1Addr d x, frame_len (Status d x)), d') \<and>
      rx_ring d' (from_good d pend) (free @ bad_frames d pend) \<and> d' = give_back (bad_frames d pend) d\<lparr>pDMARxSet := pDMARxSet d'\<rparr>"
  using assms
proof (induction pend arbitrary: d free)
  case Nil
  then have "free \<noteq> []" "pDMARxSet d = hd free" "\<forall>x \<in> set free. owned (Status d x)" by (auto simp: rx_ring_def cyclic_def)
  then have "ETH_RecPeek d = Some (None, d)" by (subst ETH_RecPeek.simps) simp
  then show ?case using Nil by (simp add: give_back_def)
next
  case (Cons x xs)
  have c: "pDMARxSet d = x" "\<not> owned (Status d x)" "x \<notin> set xs" using Cons.prems by (simp_all add: rx_ring_def cyclic_def)
  show ?case
  proof (cases "good_frame (Status d x)")
    case True
    then have "ETH_RecPeek d = Some (Some (Buffer1Addr d x, frame_len (Status d x)), d)" using c by (subst ETH_RecPeek.simps) simp
    then show ?thesis using True Cons.prems by (simp add: give_back_def)
  next
    case False
    define d1 where "d1 = (set_status x ETH_DMADesc_OWN d)\<lparr>pDMARxSet := Buffer2NextDescAddr d x\<rparr>"
    have run: "ETH_RecPeek d = ETH_RecPeek d1" using c False by (subst ETH_RecPeek.simps) (simp add: d1_def Let_def)
    have "rx_ring d1 xs (free @ [x])"
      using Cons.prems cyclic_step [of "Buffer2NextDescAddr d" x "xs @ free"] by (auto simp: rx_ring_def d1_def)
    from Cons.IH [OF this] obtain d' where d': "ETH_RecPeek d1 = Some (case from_good d1 xs of [] \<Rightarrow> None | x # _ \<Rightarrow> Some (Buffer1Addr d1 x, frame_len (Status d1 x)), d')"
        "rx_ring d' (from_good d1 xs) ((free @ [x]) @ bad_frames d1 xs)" "d' = give_back (bad_frames d1 xs) d1\<lparr>pDMARxSet := pDMARxSet d'\<rparr>" by blast
    have same: "from_good d1 xs = from_good d xs" "bad_frames d1 xs = bad_frames d xs"
      using c(3) by (auto simp: d1_def intro!: takeWhile_cong dropWhile_cong)
    have xg: "x \<notin> set (from_good d xs)" using c(3) set_dropWhileD by metis
    have "(case ys of [] \<Rightarrow> None | x # _ \<Rightarrow> Some (Buffer1Addr d1 x, frame_len (Status d1 x))) =
        (case ys of [] \<Rightarrow> None | x # _ \<Rightarrow> Some (Buffer1Addr d x, frame_len (Status d x)))" if "x \<notin> set ys" for ys
      using that by (cases ys) (auto simp: d1_def)
    note this [OF xg]
    moreover have "give_back (bad_frames d xs) d1\<lparr>pDMARxSet := pDMARxSet d'\<rparr> = give_back (x # bad_frames d xs) d\<lparr>pDMARxSet := pDMARxSet d'\<rparr>"
      by (rule eth.equality) (auto simp: d1_def give_back_def)
    ultimately show ?thesis using d' run same False by simp
  qed
qed

lemma ETH_RecFree_spec:
  assumes "rx_ring d (x # pend) free"
  shows "rx_ring (ETH_RecFree d) pend (free @ [x])"
    and "ETH_RecFree d = (set_status x ETH_DMADesc_OWN d)\<lparr>pDMARxSet := Buffer2NextDescAddr d x, reg_writes := reg_writes d @ [(DMARPDR, 0)]\<rparr>"
  using assms cyclic_step [of "Buffer2NextDescAddr d" x "pend @ free"] by (auto simp: rx_ring_def ETH_RecFree_def Let_def)

lemma ETH_SendFrame_spec:
  assumes "tx_ring d (x # idle) busy"
  shows "tx_ring (ETH_SendFrame n d) idle (busy @ [x])"
    and "ETH_SendFrame n d = d\<lparr>ControlBufferSize := (ControlBufferSize d)(x := of_nat n AND ETH_DMATxDesc_TBS1),
      Status := (Status d)(x := (Status d x OR ETH_DMATxDesc_LS_FS) OR ETH_DMADesc_OWN),
      DMATxDescToSet := Buffer2NextDescAddr d x, reg_writes := reg_writes d @ [(DMASR, 4), (DMATPDR, 0)]\<rparr>"
proof -
  have x: "DMATxDescToSet d = x" "x \<notin> set (idle @ busy)" using assms by (simp_all add: tx_ring_def cyclic_def)
  show e: "ETH_SendFrame n d = d\<lparr>ControlBufferSize := (ControlBufferSize d)(x := of_nat n AND ETH_DMATxDesc_TBS1),
      Status := (Status d)(x := (Status d x OR ETH_DMATxDesc_LS_FS) OR ETH_DMADesc_OWN),
      DMATxDescToSet := Buffer2NextDescAddr d x, reg_writes := reg_writes d @ [(DMASR, 4), (DMATPDR, 0)]\<rparr>"
    using x by (simp add: ETH_SendFrame_def Let_def)
  have "owned ((a OR ETH_DMATxDesc_LS_FS) OR ETH_DMADesc_OWN)" for a :: u32 by (simp add: bit.conj_disj_distrib2)
  then show "tx_ring (ETH_SendFrame n d) idle (busy @ [x])"
    using assms x cyclic_step [of "Buffer2NextDescAddr d" x "idle @ busy"] unfolding e by (auto simp: tx_ring_def)
qed

section \<open>Copying a packet into a buffer\<close>

lemma output_loop_spec:
  assumes "pchain (p_next s) q qs" and "clear_of s qs dst N" and "off + lens s qs \<le> N" and "N < 2 ^ 16"
  shows "\<exists>m. output_loop dst off q s = Some (s\<lparr>mem_at := m\<rparr>) \<and> map m [dst + off ..< dst + off + lens s qs] = pdata s qs \<and>
    (\<forall>x. x < dst + off \<or> dst + off + lens s qs \<le> x \<longrightarrow> m x = mem_at s x)"
  using assms
proof (induction qs arbitrary: q s off)
  case Nil
  then show ?case by (subst output_loop.simps) (auto intro!: exI [of _ "mem_at s"])
next
  case (Cons r rs)
  define s1 where "s1 = memcpy (dst + off) (payload s r) (len s r) s"
  have s1: "p_next s1 = p_next s" "payload s1 = payload s" "len s1 = len s" "s1\<lparr>mem_at := m\<rparr> = s\<lparr>mem_at := m\<rparr>" for m
    by (simp_all add: s1_def memcpy_def)
  have m1: "mem_at s1 x = (if dst + off \<le> x \<and> x < dst + off + len s r then mem_at s (payload s r + (x - (dst + off))) else mem_at s x)" for x
    by (simp add: s1_def)
  have q: "q = r" "q \<noteq> 0" "pchain (p_next s1) (p_next s r) rs" "clear_of s1 rs dst N" "apart (area s r) (dst, N)" "clear_of s rs dst N"
    using Cons.prems(1,2) by (auto simp: clear_of_def s1)
  have o: "u16_t (off + len s r) = off + len s r" using Cons.prems(3,4) by simp
  have "off + len s r + lens s1 rs \<le> N" using Cons.prems(3) by (simp add: s1)
  from Cons.IH [OF q(3,4) this Cons.prems(4)] obtain m where m: "output_loop dst (off + len s r) (p_next s r) s1 = Some (s\<lparr>mem_at := m\<rparr>)"
      "map m [dst + (off + len s r) ..< dst + (off + len s r) + lens s rs] = pdata s1 rs"
      "\<forall>x. x < dst + (off + len s r) \<or> dst + (off + len s r) + lens s rs \<le> x \<longrightarrow> m x = mem_at s1 x"
    by (auto simp: s1)
  have run: "output_loop dst off q s = Some (s\<lparr>mem_at := m\<rparr>)"
    using m(1) q(1,2) o by (subst output_loop.simps) (simp add: s1_def)
  have old: "pdata s1 rs = pdata s rs"
    using pdata_mem [of rs s "mem_at s1"] s1(4) [of "mem_at s1"] q(6) Cons.prems(3) by (fastforce simp: m1 apart_iff clear_of_def)
  have "m x = mem_at s (payload s r + (x - (dst + off)))" if "dst + off \<le> x" "x < dst + off + len s r" for x
    using m(3) that m1 by simp
  then have first: "map m [dst + off ..< dst + off + len s r] = piece s r" by (auto simp: piece_def list_eq_iff_nth_eq)
  have up: "[dst + off ..< dst + off + lens s (r # rs)] =
      [dst + off ..< dst + off + len s r] @ [dst + (off + len s r) ..< dst + (off + len s r) + lens s rs]"
    using upt_add_eq_append [of "dst + off" "dst + off + len s r" "lens s rs"] by (simp add: add.assoc)
  have "map m [dst + off ..< dst + off + lens s (r # rs)] = pdata s (r # rs)" unfolding up using first m(2) old by simp
  moreover have "m x = mem_at s x" if "x < dst + off \<or> dst + off + lens s (r # rs) \<le> x" for x using m(3) m1 that by auto
  ultimately show ?case using run by blast
qed

section \<open>Frames, the wire and the environment\<close>

text \<open>
  The history around the interface: the good frames that arrived, those the stack was given, those it
  asked to send and those on the wire. \<open>rx_dma\<close> and \<open>tx_dma\<close> are the places of the DMA engine in the rings.
\<close>

record net =
  sys :: ethif
  rx_dma :: nat
  tx_dma :: nat
  arrived :: "u8 list list"
  delivered :: "u8 list list"
  queued :: "u8 list list"
  on_wire :: "u8 list list"

abbreviation buffer :: "eth \<Rightarrow> nat \<Rightarrow> nat \<times> nat" where
  "buffer d x \<equiv> (Buffer1Addr d x, ETH_MAX_PACKET_SIZE)"

definition rx_frame :: "pbufs \<Rightarrow> eth \<Rightarrow> nat \<Rightarrow> u8 list" where
  "rx_frame b d x = map (mem_at b) [Buffer1Addr d x ..< Buffer1Addr d x + frame_len (Status d x)]"

definition tx_frame :: "pbufs \<Rightarrow> eth \<Rightarrow> nat \<Rightarrow> u8 list" where
  "tx_frame b d x = map (mem_at b) [Buffer1Addr d x ..< Buffer1Addr d x + unat (ControlBufferSize d x)]"

text \<open>A packet that lies outside the DMA buffers, and a pool whose free elements are disjoint and do so too.\<close>

definition off_dma :: "eth \<Rightarrow> nat list \<Rightarrow> nat \<times> nat \<Rightarrow> bool" where
  "off_dma d xs a \<longleftrightarrow> (\<forall>x \<in> set xs. apart (buffer d x) a)"

definition pool_off_dma :: "pbufs \<Rightarrow> eth \<Rightarrow> nat list \<Rightarrow> bool" where
  "pool_off_dma b d xs \<longleftrightarrow> (\<exists>fs. pool b fs \<and> (\<forall>q \<in> set fs. off_dma d xs (q, 528)) \<and>
     (\<forall>q \<in> set fs. \<forall>r \<in> set fs. q \<noteq> r \<longrightarrow> apart (q, 528) (r, 528)))"

definition packet_off_dma :: "pbufs \<Rightarrow> eth \<Rightarrow> nat list \<Rightarrow> nat \<Rightarrow> nat list \<Rightarrow> bool" where
  "packet_off_dma b d xs p ps \<longleftrightarrow> packet b p ps \<and> ps \<noteq> [] \<and> (\<forall>q \<in> set ps. off_dma d xs (area b q))"

text \<open>The contents of the DMA buffers are the same.\<close>

definition same_buffers :: "eth \<Rightarrow> nat list \<Rightarrow> pbufs \<Rightarrow> pbufs \<Rightarrow> bool" where
  "same_buffers d xs b b' \<longleftrightarrow>
     (\<forall>x \<in> set xs. \<forall>y. Buffer1Addr d x \<le> y \<and> y < Buffer1Addr d x + ETH_MAX_PACKET_SIZE \<longrightarrow> mem_at b' y = mem_at b y)"

text \<open>What the DMA engine does: it stores a frame and its status, or it sends one.\<close>

definition dma_store :: "u32 \<Rightarrow> u8 list \<Rightarrow> net \<Rightarrow> net" where
  "dma_store st f w =
     (let s = sys w; d = dev s; x = rx_dma w; a = Buffer1Addr d x
      in w\<lparr>sys := s\<lparr>dev := set_status x st d,
                     pb := (pb s)\<lparr>mem_at := \<lambda>y. if a \<le> y \<and> y < a + length f then f ! (y - a) else mem_at (pb s) y\<rparr>\<rparr>,
           rx_dma := Buffer2NextDescAddr d x, arrived := arrived w @ (if good_frame st then [f] else [])\<rparr>)"

definition dma_send :: "u32 \<Rightarrow> net \<Rightarrow> net" where
  "dma_send st w =
     (let s = sys w; d = dev s; x = tx_dma w
      in w\<lparr>sys := s\<lparr>dev := set_status x st d\<rparr>, tx_dma := Buffer2NextDescAddr d x, on_wire := on_wire w @ [tx_frame (pb s) d x]\<rparr>)"

text \<open>
  One step: of the DMA engine, of the driver on behalf of the stack, of an interrupt, or of the stack
  with its packets. \<open>xs\<close> are the descriptors.
\<close>

inductive net_step :: "nat list \<Rightarrow> net \<Rightarrow> net \<Rightarrow> bool" for xs where
  arrive: "owned (Status (dev (sys w)) (rx_dma w)) \<Longrightarrow> \<not> owned st \<Longrightarrow> length f \<le> ETH_MAX_PACKET_SIZE \<Longrightarrow>
    (good_frame st \<Longrightarrow> frame_len st = length f) \<Longrightarrow> net_step xs w (dma_store st f w)"
| send: "owned (Status (dev (sys w)) (tx_dma w)) \<Longrightarrow> \<not> owned st \<Longrightarrow> net_step xs w (dma_send st w)"
| input: "low_level_input acc (sys w) = Some (p, s) \<Longrightarrow> p \<noteq> 0 \<Longrightarrow> packet (pb s) p ps \<Longrightarrow>
    net_step xs w (w\<lparr>sys := s, delivered := delivered w @ [pdata (pb s) ps]\<rparr>)"
| no_input: "low_level_input acc (sys w) = Some (0, s) \<Longrightarrow> net_step xs w (w\<lparr>sys := s\<rparr>)"
| out: "packet_off_dma (pb (sys w)) (dev (sys w)) xs p ps \<Longrightarrow> low_level_output p (sys w) = Some (Return ERR_OK, s) \<Longrightarrow>
    net_step xs w (w\<lparr>sys := s, queued := queued w @ [pdata (pb (sys w)) ps]\<rparr>)"
| no_out: "low_level_output p (sys w) = Some (r, s) \<Longrightarrow> r \<noteq> Return ERR_OK \<Longrightarrow> net_step xs w (w\<lparr>sys := s\<rparr>)"
| out_later: "packet_off_dma (pb (sys w)) (dev (sys w)) xs p ps \<Longrightarrow> tot_len (pb (sys w)) p \<le> ETH_MAX_PACKET_SIZE \<Longrightarrow>
    low_level_output_resume p (tot_len (pb (sys w)) p) tm n (sys w) = Some (Return ERR_OK, s) \<Longrightarrow>
    net_step xs w (w\<lparr>sys := s, queued := queued w @ [pdata (pb (sys w)) ps]\<rparr>)"
| no_out_later: "low_level_output_resume p l tm n (sys w) = Some (r, s) \<Longrightarrow> r \<noteq> Return ERR_OK \<Longrightarrow> net_step xs w (w\<lparr>sys := s\<rparr>)"
| interrupt: "WCHNET_ETHIsr sta (sys w) = Some s \<Longrightarrow> net_step xs w (w\<lparr>sys := s\<rparr>)"
| link: "net_step xs w (w\<lparr>sys := (sys w)\<lparr>dev := WCHNET_HandlePhyNegotiation bsr pscr (WCHNET_TimeIsr n (dev (sys w)))\<rparr>\<rparr>)"
| stack: "dev s = dev (sys w) \<Longrightarrow> pool_off_dma (pb s) (dev s) xs \<Longrightarrow> same_buffers (dev s) xs (pb (sys w)) (pb s) \<Longrightarrow> net_step xs w (w\<lparr>sys := s\<rparr>)"

section \<open>One frame in\<close>

lemma pchain_unique: "pchain f p xs \<Longrightarrow> pchain f p ys \<Longrightarrow> xs = ys"
  by (induction xs arbitrary: p ys) (case_tac ys; auto)+

lemma same_buffers_refl [simp]: "same_buffers d xs b b"
  by (simp add: same_buffers_def)

lemma same_buffers_mem: "mem_at b' = mem_at b \<Longrightarrow> same_buffers d xs b b'"
  by (simp add: same_buffers_def)

lemma sorted_wrt_distinct: "distinct xs \<Longrightarrow> (\<And>x y. x \<in> set xs \<Longrightarrow> y \<in> set xs \<Longrightarrow> x \<noteq> y \<Longrightarrow> P x y) \<Longrightarrow> sorted_wrt P xs"
  by (induction xs) auto

text \<open>The frame of a descriptor goes into a packet of the pool when there is room.\<close>

lemma input_packet:
  assumes pool: "pool b fs" "\<forall>q \<in> set fs. off_dma d xs (q, 528)" "\<forall>q \<in> set fs. \<forall>r \<in> set fs. q \<noteq> r \<longrightarrow> apart (q, 528) (r, 528)"
    and x: "x \<in> set xs" "n \<le> ETH_MAX_PACKET_SIZE" "Buffer1Addr d x \<noteq> 0"
  shows "\<exists>p b1 b2. pbuf_alloc acc PBUF_RAW n PBUF_POOL b = Some (p, b1) \<and>
    (if p \<noteq> 0 then map_option snd (pbuf_take p (Buffer1Addr d x) n b1) else Some b1) = Some b2 \<and> same_buffers d xs b b2 \<and> pool_off_dma b2 d xs \<and>
    (p \<noteq> 0 \<longleftrightarrow> room fs n 0) \<and> (p \<noteq> 0 \<longrightarrow> (\<exists>ps. packet b2 p ps \<and> pdata b2 ps = map (mem_at b) [Buffer1Addr d x ..< Buffer1Addr d x + n]))"
proof -
  have n: "n < 2 ^ 16" using x(2) by simp
  note spec = pbuf_alloc_pool_spec [OF pool(1) n, of PBUF_RAW acc, simplified]
  show ?thesis
  proof (cases "room fs n 0")
    case False
    then obtain b1 where b1: "pbuf_alloc acc PBUF_RAW n PBUF_POOL b = Some (0, b1)" "pool b1 (rev fs)" "untouched (set fs) b b1" using spec by auto
    have "pool_off_dma b1 d xs" unfolding pool_off_dma_def using b1(2) pool(2,3) by (intro exI [of _ "rev fs"]) simp
    moreover have "same_buffers d xs b b1" using b1(3) by (simp add: same_buffers_mem untouched_def)
    ultimately show ?thesis using b1(1) False by simp
  next
    case True
    then obtain ps gs b1 where b1: "fs = ps @ gs" "ps \<noteq> []" "pbuf_alloc acc PBUF_RAW n PBUF_POOL b = Some (hd ps, b1)" "packet b1 (hd ps) ps" "lens b1 ps = n"
        "\<forall>q \<in> set ps. in_slot b1 q" "pool b1 gs" "untouched (set ps) b b1"
      using spec by auto
    have mem: "mem_at b1 = mem_at b" using b1(8) by (simp add: untouched_def)
    have d: "distinct fs" using pool(1) by (simp add: pool_def)
    have ap: "areas_apart b1 ps"
    proof -
      have "apart (area b1 q) (area b1 r)" if "q \<in> set ps" "r \<in> set ps" "q \<noteq> r" for q r
      proof -
        have "apart (q, 528) (r, 528)" "in_slot b1 q" "in_slot b1 r" using pool(3) b1(1,6) that by auto
        then show ?thesis by (auto simp: apart_iff in_slot_def)
      qed
      then show ?thesis using d b1(1) unfolding areas_apart_def by (intro sorted_wrt_distinct) auto
    qed
    have slot: "apart (buffer d y) (area b1 q)" if "q \<in> set ps" "y \<in> set xs" for q y
    proof -
      have "apart (buffer d y) (q, 528)" "in_slot b1 q" using pool(2) b1(1,6) that by (auto simp: off_dma_def)
      then show ?thesis by (auto simp: apart_iff in_slot_def)
    qed
    have cl: "clear_of b1 ps (Buffer1Addr d x) n" using slot [OF _ x(1)] x(2) by (fastforce simp: clear_of_def apart_iff)
    obtain m where m: "pbuf_take (hd ps) (Buffer1Addr d x) n b1 = Some (ERR_OK, b1\<lparr>mem_at := m\<rparr>)"
        "take n (pdata (b1\<lparr>mem_at := m\<rparr>) ps) = map (mem_at b1) [Buffer1Addr d x ..< Buffer1Addr d x + n]"
        "\<forall>y. (\<forall>q \<in> set ps. \<not> (payload b1 q \<le> y \<and> y < payload b1 q + len b1 q)) \<longrightarrow> m y = mem_at b1 y"
      using pbuf_take_spec [OF b1(4,2) ap cl x(3)] b1(5) by auto
    define b2 where "b2 = b1\<lparr>mem_at := m\<rparr>"
    have dat: "pdata b2 ps = map (mem_at b) [Buffer1Addr d x ..< Buffer1Addr d x + n]" using m(2) b1(5) mem by (simp add: b2_def)
    have pk: "packet b2 (hd ps) ps" using b1(4) tots_cong [of ps b2 b1 0] by (simp add: b2_def packet_def)
    have sb: "same_buffers d xs b b2"
    proof -
      have "m y = mem_at b y" if "z \<in> set xs" "Buffer1Addr d z \<le> y" "y < Buffer1Addr d z + ETH_MAX_PACKET_SIZE" for y z
      proof -
        have "\<forall>q \<in> set ps. \<not> (payload b1 q \<le> y \<and> y < payload b1 q + len b1 q)" using slot [OF _ that(1)] that(2,3) by (fastforce simp: apart_iff)
        then show ?thesis using m(3) mem by auto
      qed
      then show ?thesis by (auto simp: same_buffers_def b2_def)
    qed
    have po: "pool_off_dma b2 d xs" unfolding pool_off_dma_def using b1(1,7) pool(2,3) by (intro exI [of _ gs]) (simp add: b2_def pool_def)
    have "hd ps \<noteq> 0" using packet_hd(4) [OF b1(4,2)] .
    then show ?thesis using b1(3) m(1) sb po True pk dat by (auto simp: b2_def)
  qed
qed

text \<open>
  One call of \<open>low_level_input\<close>: bad frames at the front are discarded; the first good one leaves the
  ring whether or not a packet could be allocated for it.
\<close>

lemma low_level_input_spec:
  assumes ring: "rx_ring (dev s) pend free" and sub: "set pend \<subseteq> set xs" and pool: "pool (pb s) fs" "\<forall>q \<in> set fs. off_dma (dev s) xs (q, 528)"
      "\<forall>q \<in> set fs. \<forall>r \<in> set fs. q \<noteq> r \<longrightarrow> apart (q, 528) (r, 528)"
    and ok: "\<forall>x \<in> set pend. good_frame (Status (dev s) x) \<longrightarrow> frame_len (Status (dev s) x) \<le> ETH_MAX_PACKET_SIZE" "\<forall>x \<in> set pend. Buffer1Addr (dev s) x \<noteq> 0"
    and front: "pend = bad @ rest" "\<forall>x \<in> set bad. \<not> good_frame (Status (dev s) x)" "rest \<noteq> [] \<Longrightarrow> good_frame (Status (dev s) (hd rest))"
  shows "\<exists>p s'. low_level_input acc s = Some (p, s') \<and> rx_ring (dev s') (tl rest) (free @ bad @ take 1 rest) \<and>
    dev s' = give_back (bad @ take 1 rest) (dev s)\<lparr>pDMARxSet := pDMARxSet (dev s'), reg_writes := reg_writes (dev s')\<rparr> \<and>
    same_buffers (dev s) xs (pb s) (pb s') \<and> pool_off_dma (pb s') (dev s) xs \<and>
    (p \<noteq> 0 \<longleftrightarrow> rest \<noteq> [] \<and> room fs (frame_len (Status (dev s) (hd rest))) 0) \<and>
    (p \<noteq> 0 \<longrightarrow> (\<exists>ps. packet (pb s') p ps \<and> pdata (pb s') ps = rx_frame (pb s) (dev s) (hd rest)))"
proof -
  let ?d = "dev s"
  have fr: "from_good ?d pend = rest" "bad_frames ?d pend = bad"
    using front by (cases rest; simp add: dropWhile_append2 takeWhile_append2)+
  obtain d1 where d1: "ETH_RecPeek ?d = Some (case rest of [] \<Rightarrow> None | x # _ \<Rightarrow> Some (Buffer1Addr ?d x, frame_len (Status ?d x)), d1)"
      "rx_ring d1 rest (free @ bad)" "d1 = give_back bad ?d\<lparr>pDMARxSet := pDMARxSet d1\<rparr>"
    using ETH_RecPeek_spec [OF ring] fr by auto
  obtain v where v: "d1 = give_back bad ?d\<lparr>pDMARxSet := v\<rparr>" using d1(3) by blast
  show ?thesis
  proof (cases rest)
    case Nil
    have "pool_off_dma (pb s) ?d xs" unfolding pool_off_dma_def using pool by blast
    moreover have "low_level_input acc s = Some (0, s\<lparr>dev := d1\<rparr>)" using d1(1) Nil by (simp add: low_level_input_def)
    moreover have "d1 = give_back bad ?d\<lparr>pDMARxSet := pDMARxSet d1, reg_writes := reg_writes d1\<rparr>"
      unfolding v by (simp add: give_back_def)
    ultimately show ?thesis using d1(2) Nil by simp
  next
    case (Cons x rs)
    have x: "x \<in> set xs" "frame_len (Status ?d x) \<le> ETH_MAX_PACKET_SIZE" "Buffer1Addr ?d x \<noteq> 0"
      using Cons front sub ok by auto
    from input_packet [OF pool x, of acc] obtain p b1 b2 where i: "pbuf_alloc acc PBUF_RAW (frame_len (Status ?d x)) PBUF_POOL (pb s) = Some (p, b1)"
        "(if p \<noteq> 0 then map_option snd (pbuf_take p (Buffer1Addr ?d x) (frame_len (Status ?d x)) b1) else Some b1) = Some b2"
        "same_buffers ?d xs (pb s) b2" "pool_off_dma b2 ?d xs" "p \<noteq> 0 \<longleftrightarrow> room fs (frame_len (Status ?d x)) 0"
        "p \<noteq> 0 \<longrightarrow> (\<exists>ps. packet b2 p ps \<and> pdata b2 ps = rx_frame (pb s) ?d x)"
      unfolding rx_frame_def by blast
    have run: "low_level_input acc s = Some (p, s\<lparr>pb := b2, dev := ETH_RecFree d1\<rparr>)"
      using d1(1) Cons i(1,2) by (simp add: low_level_input_def)
    note fr = ETH_RecFree_spec [OF d1(2) [unfolded Cons]]
    have "ETH_RecFree d1 = give_back (bad @ [x]) ?d\<lparr>pDMARxSet := pDMARxSet (ETH_RecFree d1), reg_writes := reg_writes (ETH_RecFree d1)\<rparr>"
      unfolding fr(2) unfolding v by (rule eth.equality) (auto simp: give_back_def)
    then show ?thesis using run fr(1) i Cons by simp
  qed
qed

section \<open>The invariant of the interface\<close>

text \<open>The rings are disjoint, and so are the buffers of all descriptors \<open>xs\<close>.\<close>

definition rings :: "nat list \<Rightarrow> eth \<Rightarrow> nat list \<Rightarrow> nat list \<Rightarrow> nat list \<Rightarrow> nat list \<Rightarrow> bool" where
  "rings xs d pend free idle busy \<longleftrightarrow> rx_ring d pend free \<and> tx_ring d idle busy \<and> set xs = set (pend @ free @ idle @ busy) \<and>
     distinct (pend @ free @ idle @ busy) \<and> length (idle @ busy) = ETH_TXBUFNB \<and>
     (\<forall>x \<in> set xs. Buffer1Addr d x \<noteq> 0 \<and> (\<forall>y \<in> set xs. x \<noteq> y \<longrightarrow> apart (buffer d x) (buffer d y)))"

definition frames_fit :: "eth \<Rightarrow> nat list \<Rightarrow> nat list \<Rightarrow> bool" where
  "frames_fit d pend busy \<longleftrightarrow> (\<forall>x \<in> set pend. good_frame (Status d x) \<longrightarrow> frame_len (Status d x) \<le> ETH_MAX_PACKET_SIZE) \<and>
     (\<forall>x \<in> set busy. unat (ControlBufferSize d x) \<le> ETH_MAX_PACKET_SIZE)"

definition waiting_frames :: "pbufs \<Rightarrow> eth \<Rightarrow> nat list \<Rightarrow> u8 list list" where
  "waiting_frames b d pend = map (rx_frame b d) (filter (\<lambda>x. good_frame (Status d x)) pend)"

definition net_inv :: "nat list \<Rightarrow> net \<Rightarrow> nat list \<Rightarrow> nat list \<Rightarrow> nat list \<Rightarrow> nat list \<Rightarrow> bool" where
  "net_inv xs w pend free idle busy \<longleftrightarrow>
     rings xs (dev (sys w)) pend free idle busy \<and> frames_fit (dev (sys w)) pend busy \<and>
     rx_dma w = hd (free @ pend) \<and> tx_dma w = hd (busy @ idle) \<and> pool_off_dma (pb (sys w)) (dev (sys w)) xs \<and>
     subseq (delivered w @ waiting_frames (pb (sys w)) (dev (sys w)) pend) (arrived w) \<and>
     queued w = on_wire w @ map (tx_frame (pb (sys w)) (dev (sys w))) busy"

definition net_ok :: "nat list \<Rightarrow> net \<Rightarrow> bool" where
  "net_ok xs w \<longleftrightarrow> (\<exists>pend free idle busy. net_inv xs w pend free idle busy)"

lemma waiting_frames_snoc:
  "waiting_frames b d (pend @ [x]) = waiting_frames b d pend @ (if good_frame (Status d x) then [rx_frame b d x] else [])"
  by (simp add: waiting_frames_def)

lemma rx_frame_cong:
  assumes "Buffer1Addr d' x = Buffer1Addr d x" and "Status d' x = Status d x" and "frame_len (Status d x) \<le> ETH_MAX_PACKET_SIZE"
    and "\<forall>y. Buffer1Addr d x \<le> y \<and> y < Buffer1Addr d x + ETH_MAX_PACKET_SIZE \<longrightarrow> mem_at b' y = mem_at b y"
  shows "rx_frame b' d' x = rx_frame b d x"
  using assms by (simp add: rx_frame_def)

lemma tx_frame_cong:
  assumes "Buffer1Addr d' x = Buffer1Addr d x" and "ControlBufferSize d' x = ControlBufferSize d x" and "unat (ControlBufferSize d x) \<le> ETH_MAX_PACKET_SIZE"
    and "\<forall>y. Buffer1Addr d x \<le> y \<and> y < Buffer1Addr d x + ETH_MAX_PACKET_SIZE \<longrightarrow> mem_at b' y = mem_at b y"
  shows "tx_frame b' d' x = tx_frame b d x"
  using assms by (simp add: tx_frame_def)

text \<open>Frames depend only on the status, the size and the buffers of their descriptors.\<close>

lemma waiting_frames_cong:
  assumes "\<forall>x \<in> set pend. Status d' x = Status d x" and "Buffer1Addr d' = Buffer1Addr d"
    and "\<forall>x \<in> set pend. good_frame (Status d x) \<longrightarrow> frame_len (Status d x) \<le> ETH_MAX_PACKET_SIZE"
    and "same_buffers d pend b b'"
  shows "waiting_frames b' d' pend = waiting_frames b d pend"
proof -
  have "rx_frame b' d' x = rx_frame b d x" if "x \<in> set pend" "good_frame (Status d x)" for x
    using assms that by (intro rx_frame_cong) (auto simp: same_buffers_def)
  then show ?thesis using assms(1) by (auto simp: waiting_frames_def cong: filter_cong)
qed

lemma tx_frames_cong:
  assumes "\<forall>x \<in> set busy. ControlBufferSize d' x = ControlBufferSize d x" and "Buffer1Addr d' = Buffer1Addr d"
    and "\<forall>x \<in> set busy. unat (ControlBufferSize d x) \<le> ETH_MAX_PACKET_SIZE" and "same_buffers d busy b b'"
  shows "map (tx_frame b' d') busy = map (tx_frame b d) busy"
proof -
  have "tx_frame b' d' x = tx_frame b d x" if "x \<in> set busy" for x
    using assms that by (intro tx_frame_cong) (auto simp: same_buffers_def)
  then show ?thesis by simp
qed

lemma same_buffers_mono: "same_buffers d xs b b' \<Longrightarrow> set ys \<subseteq> set xs \<Longrightarrow> same_buffers d ys b b'"
  by (auto simp: same_buffers_def)

text \<open>Steps that leave the rings, the buffers and the histories alone.\<close>

definition same_rings :: "eth \<Rightarrow> eth \<Rightarrow> bool" where
  "same_rings d d' \<longleftrightarrow> Status d' = Status d \<and> ControlBufferSize d' = ControlBufferSize d \<and> Buffer1Addr d' = Buffer1Addr d \<and>
     Buffer2NextDescAddr d' = Buffer2NextDescAddr d \<and> pDMARxSet d' = pDMARxSet d \<and> DMATxDescToSet d' = DMATxDescToSet d"

lemma net_ok_quiet:
  assumes "net_ok xs w" and "same_rings (dev (sys w)) (dev s)" and "pool_off_dma (pb s) (dev (sys w)) xs" and "same_buffers (dev (sys w)) xs (pb (sys w)) (pb s)"
  shows "net_ok xs (w\<lparr>sys := s\<rparr>)"
proof -
  let ?d = "dev (sys w)"
  obtain pend free idle busy where i: "net_inv xs w pend free idle busy" using assms(1) by (auto simp: net_ok_def)
  have r: "rings xs ?d pend free idle busy" "frames_fit ?d pend busy" using i by (simp_all add: net_inv_def)
  have sub: "set pend \<subseteq> set xs" "set busy \<subseteq> set xs" using r by (auto simp: rings_def)
  have e: "waiting_frames (pb s) (dev s) pend = waiting_frames (pb (sys w)) ?d pend" "map (tx_frame (pb s) (dev s)) busy = map (tx_frame (pb (sys w)) ?d) busy"
    using assms(2) r(2) same_buffers_mono [OF assms(4) sub(1)] same_buffers_mono [OF assms(4) sub(2)]
    by (auto simp: same_rings_def frames_fit_def intro!: waiting_frames_cong tx_frames_cong simp del: map_eq_conv)
  have "rings xs (dev s) pend free idle busy" "frames_fit (dev s) pend busy" "pool_off_dma (pb s) (dev s) xs"
    using r assms(2,3) by (simp_all add: rings_def rx_ring_def tx_ring_def same_rings_def frames_fit_def pool_off_dma_def off_dma_def)
  then have "net_inv xs (w\<lparr>sys := s\<rparr>) pend free idle busy" using i e unfolding net_inv_def by simp
  then show ?thesis unfolding net_ok_def by blast
qed

lemma cyclic_rotate: "cyclic nxt (xs @ ys) \<Longrightarrow> cyclic nxt (ys @ xs)"
proof (induction xs arbitrary: ys)
  case (Cons x xs)
  then have "cyclic nxt (xs @ (ys @ [x]))" using cyclic_step(2) [of nxt x "xs @ ys"] by simp
  from Cons.IH [OF this] show ?case by simp
qed simp

lemma pool_off_dma_mem: "pool_off_dma (b\<lparr>mem_at := m\<rparr>) d xs = pool_off_dma b d xs"
  by (simp add: pool_off_dma_def pool_def)

lemma pool_off_dma_dev: "Buffer1Addr d' = Buffer1Addr d \<Longrightarrow> pool_off_dma b d' xs = pool_off_dma b d xs"
  by (simp add: pool_off_dma_def off_dma_def)

text \<open>A frame arrives.\<close>

lemma net_ok_arrive:
  assumes "net_ok xs w" and own: "owned (Status (dev (sys w)) (rx_dma w))" and st: "\<not> owned st" and f: "length f \<le> ETH_MAX_PACKET_SIZE" "good_frame st \<Longrightarrow> frame_len st = length f"
  shows "net_ok xs (dma_store st f w)"
proof -
  let ?d = "dev (sys w)" and ?b = "pb (sys w)" and ?w = "dma_store st f w"
  obtain pend free idle busy where i: "net_inv xs w pend free idle busy" using assms(1) by (auto simp: net_ok_def)
  have r: "rx_ring ?d pend free" "tx_ring ?d idle busy" "set xs = set (pend @ free @ idle @ busy)" "distinct (pend @ free @ idle @ busy)"
      "length (idle @ busy) = ETH_TXBUFNB" "\<forall>x \<in> set xs. Buffer1Addr ?d x \<noteq> 0 \<and> (\<forall>y \<in> set xs. x \<noteq> y \<longrightarrow> apart (buffer ?d x) (buffer ?d y))"
      "frames_fit ?d pend busy"
    using i by (simp_all add: net_inv_def rings_def)
  have "free \<noteq> []" using own r(1) i by (cases pend) (auto simp: net_inv_def rx_ring_def cyclic_def)
  then obtain x fr where x: "free = x # fr" by (cases free) auto
  have rx: "rx_dma w = x" using i x by (simp add: net_inv_def)
  let ?d' = "set_status x st ?d"
  define b' where "b' = ?b\<lparr>mem_at := \<lambda>y. if Buffer1Addr ?d x \<le> y \<and> y < Buffer1Addr ?d x + length f then f ! (y - Buffer1Addr ?d x) else mem_at ?b y\<rparr>"
  have w: "sys ?w = (sys w)\<lparr>dev := ?d', pb := b'\<rparr>" "rx_dma ?w = Buffer2NextDescAddr ?d x" "tx_dma ?w = tx_dma w" "delivered ?w = delivered w"
      "queued ?w = queued w" "on_wire ?w = on_wire w" "arrived ?w = arrived w @ (if good_frame st then [f] else [])"
    by (simp_all add: dma_store_def Let_def rx b'_def)
  have "same_buffers ?d (pend @ busy) ?b b'"
  proof -
    have "apart (buffer ?d z) (buffer ?d x)" if "z \<in> set (pend @ busy)" for z using r(3,4,6) x that by auto
    then show ?thesis using f(1) by (fastforce simp: same_buffers_def b'_def apart_iff)
  qed
  then have sb: "same_buffers ?d pend ?b b'" "same_buffers ?d busy ?b b'" by (auto simp: same_buffers_def)
  have wf: "waiting_frames b' ?d' pend = waiting_frames ?b ?d pend"
    by (rule waiting_frames_cong) (use r(4,7) x sb in \<open>auto simp: frames_fit_def\<close>)
  have tf: "map (tx_frame b' ?d') busy = map (tx_frame ?b ?d) busy"
    by (rule tx_frames_cong) (use r(7) sb in \<open>auto simp: frames_fit_def\<close>)
  have "rx_frame b' ?d' x = f" if "good_frame st"
    by (rule nth_equalityI) (simp_all add: rx_frame_def f(2) [OF that] b'_def)
  then have wn: "waiting_frames b' ?d' (pend @ [x]) = waiting_frames ?b ?d pend @ (if good_frame st then [f] else [])"
    unfolding waiting_frames_snoc wf by simp
  have so: "subseq (delivered w @ waiting_frames ?b ?d pend) (arrived w)" using i by (simp add: net_inv_def)
  have ss: "subseq (delivered w @ waiting_frames b' ?d' (pend @ [x])) (arrived ?w)"
    using list_emb_append_mono [OF so subseq_order.order_refl] unfolding w(7) wn by simp
  have c: "cyclic (Buffer2NextDescAddr ?d) (x # fr @ pend)" using r(1) x cyclic_rotate [of _ pend free] by (simp add: rx_ring_def)
  have "rx_ring ?d' (pend @ [x]) fr" "tx_ring ?d' idle busy" using r(1,2,4) x st by (auto simp: rx_ring_def tx_ring_def)
  then have "rings xs ?d' (pend @ [x]) fr idle busy" using r(3-6) x by (auto simp: rings_def)
  moreover have "frames_fit ?d' (pend @ [x]) busy" using r(4,7) x f by (auto simp: frames_fit_def)
  moreover have "pool_off_dma b' ?d' xs" using i pool_off_dma_dev [of ?d' ?d] by (simp add: net_inv_def b'_def pool_off_dma_mem)
  ultimately have "net_inv xs ?w (pend @ [x]) fr idle busy"
    using ss tf i cyclic_step(1) [OF c] unfolding net_inv_def w by (simp add: del: map_eq_conv)
  then show ?thesis unfolding net_ok_def by blast
qed

text \<open>A frame is sent.\<close>

lemma net_ok_send:
  assumes "net_ok xs w" and own: "owned (Status (dev (sys w)) (tx_dma w))" and st: "\<not> owned st"
  shows "net_ok xs (dma_send st w)"
proof -
  let ?d = "dev (sys w)" and ?b = "pb (sys w)" and ?w = "dma_send st w"
  obtain pend free idle busy where i: "net_inv xs w pend free idle busy" using assms(1) by (auto simp: net_ok_def)
  have r: "rings xs ?d pend free idle busy" "frames_fit ?d pend busy" using i by (simp_all add: net_inv_def)
  have t: "tx_ring ?d idle busy" using r by (simp add: rings_def)
  have "busy \<noteq> []" using own t i by (cases idle) (auto simp: net_inv_def tx_ring_def cyclic_def)
  then obtain x bs where x: "busy = x # bs" by (cases busy) auto
  have tx: "tx_dma w = x" using i x by (simp add: net_inv_def)
  let ?d' = "set_status x st ?d"
  have w: "sys ?w = (sys w)\<lparr>dev := ?d'\<rparr>" "rx_dma ?w = rx_dma w" "tx_dma ?w = Buffer2NextDescAddr ?d x" "delivered ?w = delivered w"
      "queued ?w = queued w" "on_wire ?w = on_wire w @ [tx_frame ?b ?d x]" "arrived ?w = arrived w"
    by (simp_all add: dma_send_def Let_def tx)
  have wf: "waiting_frames ?b ?d' pend = waiting_frames ?b ?d pend"
    by (rule waiting_frames_cong) (use r x in \<open>auto simp: frames_fit_def rings_def\<close>)
  have tf: "map (tx_frame ?b ?d') bs = map (tx_frame ?b ?d) bs" by (simp add: tx_frame_def)
  have c: "cyclic (Buffer2NextDescAddr ?d) (x # bs @ idle)" using t x cyclic_rotate [of _ idle busy] by (simp add: tx_ring_def)
  have "rx_ring ?d' pend free" "tx_ring ?d' (idle @ [x]) bs" using r(1) x st by (auto simp: rx_ring_def tx_ring_def rings_def)
  then have "rings xs ?d' pend free (idle @ [x]) bs" using r(1) x by (auto simp: rings_def)
  moreover have "frames_fit ?d' pend bs" using r x by (auto simp: frames_fit_def rings_def)
  ultimately have "net_inv xs ?w pend free (idle @ [x]) bs"
    using wf tf i x pool_off_dma_dev [of ?d' ?d] cyclic_step(1) [OF c] unfolding net_inv_def w by (simp add: del: map_eq_conv)
  then show ?thesis unfolding net_ok_def by blast
qed

text \<open>A call of \<open>low_level_input\<close>.\<close>

lemma net_ok_input:
  assumes ok: "net_ok xs w" and run: "low_level_input acc (sys w) = Some (p, s)"
  shows "p = 0 \<Longrightarrow> net_ok xs (w\<lparr>sys := s\<rparr>)"
    and "p \<noteq> 0 \<Longrightarrow> packet (pb s) p ps \<Longrightarrow> net_ok xs (w\<lparr>sys := s, delivered := delivered w @ [pdata (pb s) ps]\<rparr>)"
proof -
  let ?d = "dev (sys w)" and ?b = "pb (sys w)"
  obtain pend free idle busy where i: "net_inv xs w pend free idle busy" using ok by (auto simp: net_ok_def)
  have r: "rings xs ?d pend free idle busy" "frames_fit ?d pend busy" "pool_off_dma ?b ?d xs" using i by (simp_all add: net_inv_def)
  obtain fs where fs: "pool ?b fs" "\<forall>q \<in> set fs. off_dma ?d xs (q, 528)" "\<forall>q \<in> set fs. \<forall>r \<in> set fs. q \<noteq> r \<longrightarrow> apart (q, 528) (r, 528)"
    using r(3) by (auto simp: pool_off_dma_def)
  define bad where "bad = bad_frames ?d pend"
  define rest where "rest = from_good ?d pend"
  have pd: "pend = bad @ rest" "\<forall>x \<in> set bad. \<not> good_frame (Status ?d x)" "rest \<noteq> [] \<Longrightarrow> good_frame (Status ?d (hd rest))"
    using hd_dropWhile [of "\<lambda>x. \<not> good_frame (Status ?d x)" pend] by (auto simp: bad_def rest_def dest: set_takeWhileD)
  have dis: "distinct (bad @ rest @ free @ idle @ busy)" using r(1) pd(1) by (simp add: rings_def)
  have "rx_ring ?d pend free" "set pend \<subseteq> set xs" "\<forall>x \<in> set pend. good_frame (Status ?d x) \<longrightarrow> frame_len (Status ?d x) \<le> ETH_MAX_PACKET_SIZE"
      "\<forall>x \<in> set pend. Buffer1Addr ?d x \<noteq> 0"
    using r by (auto simp: rings_def frames_fit_def)
  from low_level_input_spec [OF this(1,2) fs this(3,4) pd, of acc] run
  have q: "rx_ring (dev s) (tl rest) (free @ bad @ take 1 rest)"
      "dev s = give_back (bad @ take 1 rest) ?d\<lparr>pDMARxSet := pDMARxSet (dev s), reg_writes := reg_writes (dev s)\<rparr>"
      "same_buffers ?d xs ?b (pb s)" "pool_off_dma (pb s) ?d xs" "p \<noteq> 0 \<Longrightarrow> rest \<noteq> []"
      "p \<noteq> 0 \<longrightarrow> (\<exists>ps. packet (pb s) p ps \<and> pdata (pb s) ps = rx_frame ?b ?d (hd rest))"
    by auto
  obtain v l where v: "dev s = give_back (bad @ take 1 rest) ?d\<lparr>pDMARxSet := v, reg_writes := l\<rparr>" using q(2) by blast
  have st: "Status (dev s) x = Status ?d x" if "x \<in> set (tl rest @ idle @ busy)" for x
  proof -
    have "x \<notin> set (bad @ take 1 rest)" using dis that by (cases rest) auto
    then show ?thesis unfolding v by (simp add: give_back_def)
  qed
  have same: "Buffer1Addr (dev s) = Buffer1Addr ?d" "ControlBufferSize (dev s) = ControlBufferSize ?d"
      "Buffer2NextDescAddr (dev s) = Buffer2NextDescAddr ?d" "DMATxDescToSet (dev s) = DMATxDescToSet ?d"
    unfolding v by (simp_all add: give_back_def)
  have split: "take 1 rest @ tl rest = rest" by (cases rest) simp_all
  have tx: "tx_ring (dev s) idle busy" using r(1) st same by (simp add: rings_def tx_ring_def)
  have sets: "set (tl rest @ (free @ bad @ take 1 rest) @ idle @ busy) = set (pend @ free @ idle @ busy)"
    "distinct (tl rest @ (free @ bad @ take 1 rest) @ idle @ busy)" using dis pd(1) by (cases rest; auto)+
  have rg: "rings xs (dev s) (tl rest) (free @ bad @ take 1 rest) idle busy"
    using r(1) q(1) tx sets unfolding rings_def same by simp
  have tlr: "set (tl rest) \<subseteq> set pend" using pd(1) by (cases rest) auto
  then have ff: "frames_fit (dev s) (tl rest) busy" using r(2) st same by (fastforce simp: frames_fit_def)
  have sub: "set (tl rest) \<subseteq> set xs" "set busy \<subseteq> set xs" using r(1) tlr by (auto simp: rings_def)
  have wf: "waiting_frames (pb s) (dev s) (tl rest) = waiting_frames ?b ?d (tl rest)"
    by (rule waiting_frames_cong) (use r(2) tlr st same same_buffers_mono [OF q(3) sub(1)] in \<open>auto simp: frames_fit_def\<close>)
  have tf: "map (tx_frame (pb s) (dev s)) busy = map (tx_frame ?b ?d) busy"
    by (rule tx_frames_cong) (use r(2) same same_buffers_mono [OF q(3) sub(2)] in \<open>auto simp: frames_fit_def\<close>)
  have po: "pool_off_dma (pb s) (dev s) xs" using q(4) pool_off_dma_dev [OF same(1)] by simp
  have front: "waiting_frames ?b ?d pend = (if rest = [] then [] else rx_frame ?b ?d (hd rest) # waiting_frames ?b ?d (tl rest))"
    using pd by (cases rest) (auto simp: waiting_frames_def filter_empty_conv)
  have fin: "net_ok xs (w\<lparr>sys := s, delivered := D\<rparr>)" if "subseq (D @ waiting_frames ?b ?d (tl rest)) (arrived w)" for D
  proof -
    have "net_inv xs (w\<lparr>sys := s, delivered := D\<rparr>) (tl rest) (free @ bad @ take 1 rest) idle busy"
      using i rg ff wf tf po that split pd(1) unfolding net_inv_def by (simp del: map_eq_conv)
    then show ?thesis unfolding net_ok_def by blast
  qed
  have old: "subseq (delivered w @ waiting_frames ?b ?d pend) (arrived w)" using i by (simp add: net_inv_def)
  {
    have "subseq (waiting_frames ?b ?d (tl rest)) (waiting_frames ?b ?d pend)"
      unfolding front by (simp add: list_emb_Cons) (simp add: waiting_frames_def)
    then have "subseq (delivered w @ waiting_frames ?b ?d (tl rest)) (delivered w @ waiting_frames ?b ?d pend)"
      by (rule list_emb_append_mono [OF subseq_order.order_refl])
    then have "subseq (delivered w @ waiting_frames ?b ?d (tl rest)) (arrived w)" using old by (rule subseq_order.order_trans)
    from fin [OF this] show "net_ok xs (w\<lparr>sys := s\<rparr>)" by simp
  }
  {
    assume p: "p \<noteq> 0" "packet (pb s) p ps"
    have "pdata (pb s) ps = rx_frame ?b ?d (hd rest)" using q(6) p pchain_unique by (auto simp: packet_def)
    then have "delivered w @ waiting_frames ?b ?d pend = (delivered w @ [pdata (pb s) ps]) @ waiting_frames ?b ?d (tl rest)"
      using front q(5) p(1) by simp
    then show "net_ok xs (w\<lparr>sys := s, delivered := delivered w @ [pdata (pb s) ps]\<rparr>)" using fin old by simp
  }
qed

text \<open>Sending: either the packet is handed to the DMA engine, or nothing of the rings and packets changes.\<close>

definition output_sent :: "nat \<Rightarrow> nat \<Rightarrow> ethif \<Rightarrow> ethif \<Rightarrow> bool" where
  "output_sent p n s s' \<longleftrightarrow> (\<exists>s0 dst. dev s0 = dev s \<and> pb s0 = pb s \<and> ETH_GetTxBuf (dev s) = Some dst \<and> output_copy p n dst s0 = Some (Return ERR_OK, s'))"

lemma output_retry_cases:
  assumes "output_retry p n b s0 = Some (r, s')" and "dev s0 = dev s" and "pb s0 = pb s"
  shows "if r = Return ERR_OK then output_sent p n s s' else dev s' = dev s \<and> pb s' = pb s"
proof (cases "if b then ETH_GetTxBuf (dev s0) else None")
  case None
  then show ?thesis using assms by (auto simp: output_retry_def)
next
  case (Some dst)
  then have c: "output_copy p n dst s0 = Some (r, s')" "ETH_GetTxBuf (dev s) = Some dst" using assms by (auto simp: output_retry_def split: if_splits)
  then have "r = Return ERR_OK" by (auto simp: output_copy_def split: Option.bind_splits)
  then show ?thesis using c assms(2,3) by (auto simp: output_sent_def)
qed

lemma output_taken_cases:
  assumes "output_taken p n t s = Some (r, s')"
  shows "if r = Return ERR_OK then output_sent p n s s' else dev s' = dev s \<and> pb s' = pb s"
proof -
  obtain u inh q k where t: "t = (u, inh, q, k)" by (cases t)
  show ?thesis
  proof (cases u)
    case (Return b)
    then have "output_retry p n b (s\<lparr>eth_tx_semaphore := q, kern := k\<rparr>) = Some (r, s')" using assms t by (simp add: output_taken_def)
    then show ?thesis by (rule output_retry_cases) simp_all
  next
    case (Loop tm l)
    then show ?thesis using assms t by (auto simp: output_taken_def)
  qed
qed

lemma low_level_output_cases:
  assumes "low_level_output p s = Some (r, s')"
  shows "if r = Return ERR_OK then output_sent p (tot_len (pb s) p) s s' \<and> tot_len (pb s) p \<le> ETH_MAX_PACKET_SIZE else dev s' = dev s \<and> pb s' = pb s"
proof (cases "ETH_MAX_PACKET_SIZE < tot_len (pb s) p")
  case True
  then show ?thesis using assms by (auto simp: low_level_output_def)
next
  case False
  show ?thesis
  proof (cases "ETH_GetTxBuf (dev s)")
    case None
    then obtain t where "output_taken p (tot_len (pb s) p) t s = Some (r, s')" using assms False by (auto simp: low_level_output_def bind_eq_Some_conv)
    from output_taken_cases [OF this] False show ?thesis by simp
  next
    case (Some dst)
    then have c: "output_copy p (tot_len (pb s) p) dst s = Some (r, s')" using assms False by (simp add: low_level_output_def)
    then have "r = Return ERR_OK" by (auto simp: output_copy_def split: Option.bind_splits)
    then show ?thesis using c Some False by (auto simp: output_sent_def)
  qed
qed

lemma low_level_output_resume_cases:
  assumes "low_level_output_resume p n tm l s = Some (r, s')"
  shows "if r = Return ERR_OK then output_sent p n s s' else dev s' = dev s \<and> pb s' = pb s"
proof -
  obtain t where "output_taken p n t s = Some (r, s')" using assms by (auto simp: low_level_output_resume_def bind_eq_Some_conv)
  then show ?thesis by (rule output_taken_cases)
qed

lemma TBS1_small: "n \<le> ETH_MAX_PACKET_SIZE \<Longrightarrow> unat (of_nat n AND ETH_DMATxDesc_TBS1 :: u32) = n"
proof -
  assume n: "n \<le> ETH_MAX_PACKET_SIZE"
  have "n AND 8191 = n mod 2 ^ 13" using take_bit_eq_mask [of 13 n] by (simp add: mask_eq_exp_minus_1 take_bit_eq_mod)
  moreover have "unat (of_nat n :: u32) = n" using n by (simp add: unat_of_nat)
  ultimately show ?thesis using n by (simp add: unsigned_and_eq)
qed

text \<open>A packet handed to the DMA engine joins the frames to be sent.\<close>

lemma net_ok_sent:
  assumes ok: "net_ok xs w" and sent: "output_sent p n (sys w) s" and pk: "packet_off_dma (pb (sys w)) (dev (sys w)) xs p ps"
    and n: "n = tot_len (pb (sys w)) p" "n \<le> ETH_MAX_PACKET_SIZE"
  shows "net_ok xs (w\<lparr>sys := s, queued := queued w @ [pdata (pb (sys w)) ps]\<rparr>)"
proof -
  let ?d = "dev (sys w)" and ?b = "pb (sys w)"
  obtain pend free idle busy where i: "net_inv xs w pend free idle busy" using ok by (auto simp: net_ok_def)
  have r: "rings xs ?d pend free idle busy" "frames_fit ?d pend busy" "pool_off_dma ?b ?d xs" using i by (simp_all add: net_inv_def)
  obtain s0 dst where s0: "dev s0 = ?d" "pb s0 = ?b" "ETH_GetTxBuf ?d = Some dst" "output_copy p n dst s0 = Some (Return ERR_OK, s)"
    using sent by (auto simp: output_sent_def)
  have tx: "tx_ring ?d idle busy" using r(1) by (simp add: rings_def)
  have "idle \<noteq> []" using s0(3) tx by (cases busy) (auto simp: ETH_GetTxBuf_def tx_ring_def cyclic_def split: if_splits)
  then obtain x js where x: "idle = x # js" by (cases idle) auto
  have dst: "dst = Buffer1Addr ?d x" "DMATxDescToSet ?d = x" using s0(3) tx x by (auto simp: ETH_GetTxBuf_def tx_ring_def split: if_splits)
  have xx: "x \<in> set xs" using r(1) x by (simp add: rings_def)
  have p: "packet ?b p ps" "ps \<noteq> []" "\<forall>q \<in> set ps. off_dma ?d xs (area ?b q)" using pk by (simp_all add: packet_off_dma_def)
  note h = packet_hd [OF p(1,2)]
  have cl: "clear_of ?b ps dst ETH_MAX_PACKET_SIZE" using p(3) xx by (auto simp: clear_of_def off_dma_def apart_iff dst(1))
  obtain m where m: "output_loop dst 0 p ?b = Some (?b\<lparr>mem_at := m\<rparr>)" "map m [dst ..< dst + n] = pdata ?b ps"
      "\<forall>y. y < dst \<or> dst + n \<le> y \<longrightarrow> m y = mem_at ?b y"
    using output_loop_spec [OF h(1) cl, of 0] h(2) n by auto
  define b' where "b' = ?b\<lparr>mem_at := m\<rparr>"
  define d' where "d' = ETH_SendFrame n ?d"
  note sf = ETH_SendFrame_spec [OF tx [unfolded x], of n, folded d'_def]
  have s: "pb s = b'" "dev s = d'" using s0 m(1) by (auto simp: output_copy_def b'_def d'_def)
  have same: "Buffer1Addr d' = Buffer1Addr ?d" "Buffer2NextDescAddr d' = Buffer2NextDescAddr ?d" "pDMARxSet d' = pDMARxSet ?d"
      "\<And>y. y \<noteq> x \<Longrightarrow> Status d' y = Status ?d y" "\<And>y. y \<noteq> x \<Longrightarrow> ControlBufferSize d' y = ControlBufferSize ?d y"
      "unat (ControlBufferSize d' x) = n"
    unfolding sf(2) using TBS1_small [OF n(2)] by simp_all
  have nx: "x \<notin> set pend" "x \<notin> set busy" "x \<notin> set free" using r(1) x by (auto simp: rings_def)
  have "same_buffers ?d (pend @ busy) ?b b'"
  proof -
    have "apart (buffer ?d z) (buffer ?d x)" if "z \<in> set (pend @ busy)" for z using r(1) nx xx that unfolding rings_def by (metis Un_iff set_append)
    then show ?thesis using m(3) n(2) by (fastforce simp: same_buffers_def b'_def apart_iff dst(1))
  qed
  then have sb: "same_buffers ?d pend ?b b'" "same_buffers ?d busy ?b b'" by (auto simp: same_buffers_def)
  have st: "\<forall>y \<in> set pend. Status d' y = Status ?d y" "\<forall>y \<in> set free. Status d' y = Status ?d y" "\<forall>y \<in> set busy. ControlBufferSize d' y = ControlBufferSize ?d y"
    using nx same(4,5) by metis+
  have wf: "waiting_frames b' d' pend = waiting_frames ?b ?d pend"
    by (rule waiting_frames_cong [OF st(1) same(1) _ sb(1)]) (use r(2) in \<open>simp add: frames_fit_def\<close>)
  have tf: "map (tx_frame b' d') busy = map (tx_frame ?b ?d) busy"
    by (rule tx_frames_cong [OF st(3) same(1) _ sb(2)]) (use r(2) in \<open>simp add: frames_fit_def\<close>)
  have new: "tx_frame b' d' x = pdata ?b ps" using m(2) same(1,6) by (simp add: tx_frame_def b'_def dst(1))
  have rx: "rx_ring d' pend free" using r(1) st(1,2) same(2,3) by (simp add: rings_def rx_ring_def)
  have rg: "rings xs d' pend free js (busy @ [x])" using r(1) rx sf(1) same(1) x unfolding rings_def by auto
  have ff: "frames_fit d' pend (busy @ [x])" using r(2) st same(6) n(2) by (simp add: frames_fit_def)
  have po: "pool_off_dma b' d' xs" using r(3) pool_off_dma_dev [OF same(1)] by (simp add: b'_def pool_off_dma_mem)
  have tm: "hd ((busy @ [x]) @ js) = hd (busy @ idle)" using x by simp
  have "net_inv xs (w\<lparr>sys := s, queued := queued w @ [pdata ?b ps]\<rparr>) pend free js (busy @ [x])"
    using i rg ff wf tf new po tm unfolding net_inv_def by (simp add: s del: map_eq_conv)
  then show ?thesis unfolding net_ok_def by blast
qed

section \<open>Interrupts and the link\<close>

lemma signal_quiet:
  "ethernetif_rx_signal s = Some s' \<Longrightarrow> dev s' = dev s \<and> pb s' = pb s"
  "ethernetif_tx_signal s = Some s' \<Longrightarrow> dev s' = dev s \<and> pb s' = pb s"
  by (auto simp: ethernetif_rx_signal_def ethernetif_tx_signal_def split: Option.bind_splits)

lemma WCHNET_ETHIsr_quiet:
  assumes "WCHNET_ETHIsr sta s = Some s'"
  shows "same_rings (dev s) (dev s') \<and> pb s' = pb s"
  using assms by (auto simp: WCHNET_ETHIsr_def Let_def same_rings_def bind_eq_Some_conv dest!: signal_quiet split: if_splits)

lemma link_quiet: "same_rings d (WCHNET_HandlePhyNegotiation bsr pscr (WCHNET_TimeIsr n d))"
  by (simp add: same_rings_def WCHNET_HandlePhyNegotiation_def WCHNET_TimeIsr_def ETH_Start_def ETH_Stop_def Let_def)

lemma net_ok_same: "net_ok xs w \<Longrightarrow> dev s = dev (sys w) \<Longrightarrow> pb s = pb (sys w) \<Longrightarrow> net_ok xs (w\<lparr>sys := s\<rparr>)"
  by (rule net_ok_quiet) (auto simp: same_rings_def net_ok_def net_inv_def)

lemma net_step_ok: "net_step xs w w' \<Longrightarrow> net_ok xs w \<Longrightarrow> net_ok xs w'"
proof (induction rule: net_step.induct)
  case (out w p ps s)
  then show ?case using low_level_output_cases [of p "sys w" "Return ERR_OK" s] by (auto intro: net_ok_sent)
next
  case (no_out p w r s)
  then show ?case using low_level_output_cases [of p "sys w" r s] by (auto intro: net_ok_same)
next
  case (out_later w p ps tm n s)
  then show ?case using low_level_output_resume_cases [of p _ tm n "sys w" "Return ERR_OK" s] by (fastforce intro: net_ok_sent)
next
  case (no_out_later p l tm n w r s)
  then show ?case using low_level_output_resume_cases [of p l tm n "sys w" r s] by (auto intro: net_ok_same)
next
  case (interrupt sta w s)
  have "pool_off_dma (pb (sys w)) (dev (sys w)) xs" using interrupt(2) by (auto simp: net_ok_def net_inv_def)
  then show ?case using WCHNET_ETHIsr_quiet [OF interrupt(1)] interrupt(2) by (auto intro: net_ok_quiet)
next
  case (link w bsr pscr n)
  have "pool_off_dma (pb (sys w)) (dev (sys w)) xs" using link by (auto simp: net_ok_def net_inv_def)
  then show ?case using link_quiet link by (auto intro!: net_ok_quiet)
next
  case (stack s w)
  then show ?case by (auto simp: same_rings_def intro!: net_ok_quiet)
qed (auto intro: net_ok_arrive net_ok_send net_ok_input)

end
