(* ===== verification/Eth_Frames.thy ===== *)
theory Eth_Frames
  imports Eth_Rings
begin

text \<open>
  What the Ethernet interface promises: the set-up of the rings, the history of the frames from there
  on, single receptions, and what happens when the transmit ring is full.
\<close>

section \<open>The start\<close>

text \<open>The descriptors of \<open>ETH_Init\<close>: four to receive and two to send.\<close>

definition descriptors :: "nat \<Rightarrow> nat \<Rightarrow> nat list" where
  "descriptors rxt txt = [rxt, rxt + 16, rxt + 32, rxt + 48, txt, txt + 16]"

definition net_start :: "nat \<Rightarrow> nat \<Rightarrow> nat \<Rightarrow> nat \<Rightarrow> ethif \<Rightarrow> net" where
  "net_start rxt rxb txt txb s =
     \<lparr>sys = s\<lparr>dev := ETH_Init txt txb rxt rxb (dev s)\<rparr>, rx_dma = rxt, tx_dma = txt, arrived = [], delivered = [], queued = [], on_wire = []\<rparr>"

lemma loop_numerals: "tx_chain_loop 2 i = tx_chain_loop (Suc (Suc 0)) i" "rx_chain_loop 4 i = rx_chain_loop (Suc (Suc (Suc (Suc 0)))) i"
  by (simp_all add: eval_nat_numeral)

lemma ETH_Init_rings:
  assumes "apart (rxt, 64) (txt, 32)" and "apart (rxb, 6096) (txb, 3048)" and "rxb \<noteq> 0" and "txb \<noteq> 0"
  shows "rings (descriptors rxt txt) (ETH_Init txt txb rxt rxb d) [] [rxt, rxt + 16, rxt + 32, rxt + 48] [txt, txt + 16] []"
proof -
  define d' where "d' = ETH_Init txt txb rxt rxb d"
  have ap: "rxt + 64 \<le> txt \<or> txt + 32 \<le> rxt" "rxb + 6096 \<le> txb \<or> txb + 3048 \<le> rxb" using assms(1,2) by (simp_all add: apart_iff)
  have f: "Status d' rxt = ETH_DMADesc_OWN" "Status d' (rxt + 16) = ETH_DMADesc_OWN" "Status d' (rxt + 32) = ETH_DMADesc_OWN" "Status d' (rxt + 48) = ETH_DMADesc_OWN"
      "Status d' txt = ETH_DMATxDesc_TCH_IC" "Status d' (txt + 16) = ETH_DMATxDesc_TCH_IC"
      "Buffer1Addr d' rxt = rxb" "Buffer1Addr d' (rxt + 16) = rxb + 1524" "Buffer1Addr d' (rxt + 32) = rxb + 3048" "Buffer1Addr d' (rxt + 48) = rxb + 4572"
      "Buffer1Addr d' txt = txb" "Buffer1Addr d' (txt + 16) = txb + 1524"
      "Buffer2NextDescAddr d' rxt = rxt + 16" "Buffer2NextDescAddr d' (rxt + 16) = rxt + 32" "Buffer2NextDescAddr d' (rxt + 32) = rxt + 48"
      "Buffer2NextDescAddr d' (rxt + 48) = rxt" "Buffer2NextDescAddr d' txt = txt + 16" "Buffer2NextDescAddr d' (txt + 16) = txt"
      "pDMARxSet d' = rxt" "DMATxDescToSet d' = txt"
    using ap(1) by (auto simp: d'_def ETH_Init_def ETH_DMATxDescChainInit_def ETH_DMARxDescChainInit_def Let_def loop_numerals)
  have "rings (descriptors rxt txt) d' [] [rxt, rxt + 16, rxt + 32, rxt + 48] [txt, txt + 16] []"
    using ap assms(3,4) by (auto simp: rings_def rx_ring_def tx_ring_def cyclic_def descriptors_def f apart_iff)
  then show ?thesis unfolding d'_def .
qed

lemma net_start_ok:
  assumes "apart (rxt, 64) (txt, 32)" and "apart (rxb, 6096) (txb, 3048)" and "rxb \<noteq> 0" and "txb \<noteq> 0"
    and "pool_off_dma (pb s) (ETH_Init txt txb rxt rxb (dev s)) (descriptors rxt txt)"
  shows "net_ok (descriptors rxt txt) (net_start rxt rxb txt txb s)"
proof -
  let ?w = "net_start rxt rxb txt txb s"
  have "net_inv (descriptors rxt txt) ?w [] [rxt, rxt + 16, rxt + 32, rxt + 48] [txt, txt + 16] []"
    unfolding net_inv_def using ETH_Init_rings [OF assms(1-4)] assms(5)
    by (simp add: net_start_def frames_fit_def waiting_frames_def)
  then show ?thesis unfolding net_ok_def by blast
qed

lemma net_steps_ok: "(net_step xs)\<^sup>*\<^sup>* w w' \<Longrightarrow> net_ok xs w \<Longrightarrow> net_ok xs w'"
  by (induction rule: rtranclp_induct) (auto intro: net_step_ok)


text \<open>A board: its packet pool, its driver before the start, a free transmit semaphore.\<close>

definition blank_eth :: eth where
  "blank_eth = \<lparr>Status = \<lambda>_. 0, ControlBufferSize = \<lambda>_. 0, Buffer1Addr = \<lambda>_. 0, Buffer2NextDescAddr = \<lambda>_. 0, pDMARxSet = 0, pDMATxSet = 0,
     DMATxDescToSet = 0, DMARxDescToGet = 0, LocalTime = 0, LinkSta = False, phy_link_state = False, link_poll_time = 0, MACCR = 0,
     MACFFR = 0, DMAOMR = 0, reg_writes = []\<rparr>"

definition binary_semaphore :: Queue_t where
  "binary_semaphore = small_queue\<lparr>uxLength := 1, uxItemSize := 0\<rparr>"

definition board :: ethif where
  "board = \<lparr>pb = two_packets, dev = blank_eth, eth_rx_semaphore = binary_semaphore, eth_tx_semaphore = binary_semaphore, kern = two_tasks\<rparr>"


section \<open>One reception\<close>

text \<open>
  C38: One call of \<open>low_level_input\<close>. It always returns; the descriptors of the bad frames before the
  first good one and of that frame go back to the DMA engine, whatever happens; a packet is delivered
  exactly when there is a good frame and the pool has room for it, and it holds the bytes of the frame.
\<close>

theorem low_level_input_exact:
  assumes "rx_ring (dev s) (bad @ rest) free" and "set (bad @ rest) \<subseteq> set xs" and "pool (pb s) fs" and "\<forall>q \<in> set fs. off_dma (dev s) xs (q, 528)"
    and "\<forall>q \<in> set fs. \<forall>r \<in> set fs. q \<noteq> r \<longrightarrow> apart (q, 528) (r, 528)"
    and "\<forall>x \<in> set bad. \<not> good_frame (Status (dev s) x)" and "rest \<noteq> [] \<Longrightarrow> good_frame (Status (dev s) (hd rest))"
    and "\<forall>x \<in> set (bad @ rest). frame_len (Status (dev s) x) \<le> ETH_MAX_PACKET_SIZE \<and> Buffer1Addr (dev s) x \<noteq> 0"
  shows "\<exists>p s'. low_level_input acc s = Some (p, s') \<and> rx_ring (dev s') (tl rest) (free @ bad @ take 1 rest) \<and>
    (p \<noteq> 0 \<longleftrightarrow> rest \<noteq> [] \<and> room fs (frame_len (Status (dev s) (hd rest))) 0) \<and>
    (p \<noteq> 0 \<longrightarrow> (\<exists>ps. packet (pb s') p ps \<and> pdata (pb s') ps = rx_frame (pb s) (dev s) (hd rest)))"
  using low_level_input_spec [OF assms(1-5) _ _ refl assms(6,7), of acc] assms(8) by blast

section \<open>A full transmit ring\<close>

lemma output_loop_returns: "pchain (p_next s) q qs \<Longrightarrow> \<exists>m. output_loop dst off q s = Some (s\<lparr>mem_at := m\<rparr>)"
proof (induction qs arbitrary: q s off)
  case Nil
  then show ?case by (subst output_loop.simps) (auto intro!: exI [of _ "mem_at s"])
next
  case (Cons r rs)
  let ?s1 = "memcpy (dst + off) (payload s r) (len s r) s"
  have q: "q = r" "q \<noteq> 0" "pchain (p_next ?s1) (p_next s r) rs" using Cons.prems by simp_all
  from Cons.IH [OF q(3), of "u16_t (off + len s r)"] show ?case
    using q(1,2) by (subst output_loop.simps) (auto simp: memcpy_def)
qed

lemma low_level_output_free:
  assumes "tx_ring (dev s) (x # idle) busy" and "pchain (p_next (pb s)) p ps" and "tot_len (pb s) p \<le> ETH_MAX_PACKET_SIZE"
  shows "\<exists>m. low_level_output p s = Some (Return ERR_OK, s\<lparr>pb := (pb s)\<lparr>mem_at := m\<rparr>, dev := ETH_SendFrame (tot_len (pb s) p) (dev s)\<rparr>)"
proof -
  have "ETH_GetTxBuf (dev s) = Some (Buffer1Addr (dev s) x)" using assms(1) by (simp add: tx_ring_def ETH_GetTxBuf_def)
  moreover obtain m where "output_loop (Buffer1Addr (dev s) x) 0 p (pb s) = Some ((pb s)\<lparr>mem_at := m\<rparr>)"
    using output_loop_returns [OF assms(2)] by blast
  ultimately show ?thesis using assms(3) by (auto simp: low_level_output_def output_copy_def)
qed

text \<open>Nobody waits for the semaphore, and it can be used.\<close>

definition unattended :: "Queue_t \<Rightarrow> kernel \<Rightarrow> bool" where
  "unattended q k \<longleftrightarrow> semaphore q \<and> queue_free q \<and> capacity q = 1 \<and> may_wait 25 k \<and>
     kseq k (EventList (xTasksWaitingToReceive q)) = [] \<and> kseq k (EventList (xTasksWaitingToSend q)) = []"

lemma unattended_give:
  assumes "unattended q k" and "count q = 0"
  shows "\<exists>q'. xQueueGiveFromISR q k = Some (True, False, q', k) \<and> unattended q' k \<and> count q' = 1"
proof -
  let ?q' = "q\<lparr>uxMessagesWaiting := 1\<rparr>"
  have q: "semaphore q" "queue_free q" "capacity q = 1" "uxMessagesWaiting q = 0" using assms sizes(5) [of q] by (simp_all add: unattended_def)
  have "0 < uxLength q" using q(3) unfolding capacity_def by (simp add: word_gt_0) fastforce
  have "xQueueGiveFromISR q k = Some (True, False, ?q', k)"
    using assms q \<open>0 < uxLength q\<close> by (simp add: xQueueGiveFromISR_def configASSERT_def sizes(4) queue_free_def Let_def semaphore_def unattended_def wake_waiter_from_isr_def)
  moreover have "count ?q' = 1" "capacity ?q' = capacity q" by (simp_all add: count_def capacity_def)
  ultimately show ?thesis using assms q by (auto simp: unattended_def semaphore_def queue_free_def)
qed

lemma unattended_take:
  assumes "unattended q k" and "count q = 1"
  shows "\<exists>q'. xQueueSemaphoreTake 25 q k = Some (Return True, False, q', k) \<and> count q' = 0"
proof -
  have q: "uxMessagesWaiting q = 1" using assms(2) unfolding count_def by (metis unat_1 word_unat_eq_iff)
  have "xQueueSemaphoreTake 25 q k = Some (Return True, False, q\<lparr>uxMessagesWaiting := 0\<rparr>, k)"
    using assms(1) q by (simp add: xQueueSemaphoreTake_def xQueueSemaphoreTake_pass_def xQueueSemaphoreTake_critical_def configASSERT_def
        unattended_def semaphore_def wake_waiter_def Let_def)
  moreover have "count (q\<lparr>uxMessagesWaiting := 0\<rparr>) = 0" by (simp add: count_def)
  ultimately show ?thesis by blast
qed

text \<open>
  C39: A packet is dropped although the driver could wait. The semaphore keeps the token of a
  transmission that completed while nobody waited. After such an interrupt, three packets in a row
  find two free descriptors and then none: the third takes the old token without waiting, finds no
  descriptor and is dropped with \<open>ERR_IF\<close>; no time passes and no task switch happens.
\<close>

theorem low_level_output_stale_token:
  assumes "tx_ring (dev s) [x, y] []" and "unattended (eth_tx_semaphore s) (kern s)" and "count (eth_tx_semaphore s) = 0"
    and "\<forall>p \<in> {p1, p2, p3}. tot_len (pb s) p \<le> ETH_MAX_PACKET_SIZE \<and> (\<exists>ps. pchain (p_next (pb s)) p ps)"
  shows "\<exists>s1 s2 s3 s4. WCHNET_ETHIsr (ETH_DMA_IT_NIS OR ETH_DMA_IT_T) s = Some s1 \<and>
    low_level_output p1 s1 = Some (Return ERR_OK, s2) \<and> low_level_output p2 s2 = Some (Return ERR_OK, s3) \<and>
    low_level_output p3 s3 = Some (Return ERR_IF, s4) \<and> dev s4 = dev s3 \<and> kern s4 = kern s"
proof -
  obtain q1 where q1: "xQueueGiveFromISR (eth_tx_semaphore s) (kern s) = Some (True, False, q1, kern s)" "unattended q1 (kern s)" "count q1 = 1"
    using unattended_give [OF assms(2,3)] by blast
  define s1 where "s1 = s\<lparr>eth_tx_semaphore := q1, dev := write_reg DMASR ETH_DMA_IT_NIS (write_reg DMASR ETH_DMA_IT_T (dev s))\<rparr>"
  have r1: "WCHNET_ETHIsr (ETH_DMA_IT_NIS OR ETH_DMA_IT_T) s = Some s1"
    using q1(1) by (simp add: WCHNET_ETHIsr_def ethernetif_tx_signal_def s1_def)
  have t1: "tx_ring (dev s1) [x, y] []" using assms(1) by (simp add: s1_def tx_ring_def)
  obtain m1 where m1: "low_level_output p1 s1 = Some (Return ERR_OK, s1\<lparr>pb := (pb s1)\<lparr>mem_at := m1\<rparr>, dev := ETH_SendFrame (tot_len (pb s1) p1) (dev s1)\<rparr>)"
    using low_level_output_free [OF t1, of p1] assms(4) by (auto simp: s1_def)
  define s2 where "s2 = s1\<lparr>pb := (pb s1)\<lparr>mem_at := m1\<rparr>, dev := ETH_SendFrame (tot_len (pb s1) p1) (dev s1)\<rparr>"
  have t2: "tx_ring (dev s2) [y] [x]" using ETH_SendFrame_spec(1) [OF t1] by (simp add: s2_def)
  obtain m2 where m2: "low_level_output p2 s2 = Some (Return ERR_OK, s2\<lparr>pb := (pb s2)\<lparr>mem_at := m2\<rparr>, dev := ETH_SendFrame (tot_len (pb s2) p2) (dev s2)\<rparr>)"
    using low_level_output_free [OF t2, of p2] assms(4) by (auto simp: s1_def s2_def)
  define s3 where "s3 = s2\<lparr>pb := (pb s2)\<lparr>mem_at := m2\<rparr>, dev := ETH_SendFrame (tot_len (pb s2) p2) (dev s2)\<rparr>"
  have t3: "tx_ring (dev s3) [] [x, y]" using ETH_SendFrame_spec(1) [OF t2] by (simp add: s3_def)
  then have full: "ETH_GetTxBuf (dev s3) = None" by (simp add: tx_ring_def ETH_GetTxBuf_def)
  have e3: "eth_tx_semaphore s3 = q1" "kern s3 = kern s" "tot_len (pb s3) p3 \<le> ETH_MAX_PACKET_SIZE" using assms(4) by (simp_all add: s3_def s2_def s1_def)
  obtain q2 where "xQueueSemaphoreTake 25 q1 (kern s) = Some (Return True, False, q2, kern s)" using unattended_take [OF q1(2,3)] by blast
  then have r3: "low_level_output p3 s3 = Some (Return ERR_IF, s3\<lparr>eth_tx_semaphore := q2, kern := kern s\<rparr>)"
    using full e3 by (simp add: low_level_output_def output_taken_def output_retry_def)
  show ?thesis using r1 m1 m2 r3 e3(2) unfolding s3_def s2_def by (intro exI conjI) (assumption | simp)+
qed

text \<open>The board with its rings set up.\<close>

definition started_board :: ethif where
  "started_board = board\<lparr>dev := ETH_Init 536871000 536880000 536870912 536872000 blank_eth\<rparr>"

lemma started_rings:
  "rx_ring (dev started_board) [] [536870912, 536870928, 536870944, 536870960]" "tx_ring (dev started_board) [536871000, 536871016] []"
  using ETH_Init_rings [of 536870912 536871000 536872000 536880000 blank_eth] by (simp_all add: apart_iff rings_def started_board_def)

lemma started_semaphore: "unattended (eth_tx_semaphore started_board) (kern started_board)" "count (eth_tx_semaphore started_board) = 0"
  by (simp_all add: two_tasks_def started_board_def board_def unattended_def binary_semaphore_def semaphore_def queue_free_def capacity_def count_def small_queue_def may_wait_def)

theorem low_level_output_stale_token_witness:
  "\<exists>s1 s2 s3 s4. WCHNET_ETHIsr 0x10001 started_board = Some s1 \<and>
    low_level_output 536891920 s1 = Some (Return ERR_OK, s2) \<and> low_level_output 536891392 s2 = Some (Return ERR_OK, s3) \<and>
    low_level_output 536892448 s3 = Some (Return ERR_IF, s4)"
proof -
  have p: "\<forall>p \<in> {536891920, 536891392, 536892448}. tot_len (pb started_board) p \<le> ETH_MAX_PACKET_SIZE \<and> (\<exists>ps. pchain (p_next (pb started_board)) p ps)"
  proof -
    have "pchain (p_next two_packets) 536891392 [536891392]" by (simp add: two_packets_def)
    then have "\<forall>p \<in> {536891920, 536891392, 536892448}. \<exists>ps. pchain (p_next two_packets) p ps"
      using two_packets_ok(1,2) unfolding packet_def by blast
    then show ?thesis by (simp add: started_board_def board_def two_packets_def)
  qed
  show ?thesis using low_level_output_stale_token [OF started_rings(2) started_semaphore p] by simp blast
qed

definition received_board :: ethif where
  "received_board = started_board\<lparr>pb := board_pbufs, dev := set_status 536870912 0x00070300 (dev started_board)\<rparr>"

theorem low_level_input_exact_witness:
  "\<exists>p s' ps. low_level_input False received_board = Some (p, s') \<and> p \<noteq> 0 \<and> packet (pb s') p ps \<and> pdata (pb s') ps = [64, 65, 66] \<and>
    rx_ring (dev s') [] [536870928, 536870944, 536870960, 536870912]"
proof -
  let ?xs = "descriptors 536870912 536871000" and ?d = "dev received_board"
  have r: "rx_ring ?d ([] @ [536870912]) [536870928, 536870944, 536870960]"
    using started_rings(1) by (simp add: received_board_def rx_ring_def)
  have f: "frame_len 0x00070300 = 3" "good_frame 0x00070300" by (simp_all add: frame_len_def u16_t_def good_frame_def)
  have x: "set ([] @ [536870912]) \<subseteq> set [536870912 :: nat]" by simp
  have po: "pool (pb received_board) [536892448, 536891920, 536891392]" using board_pool by (simp add: received_board_def)
  have b: "Buffer1Addr ?d 536870912 = 536872000" "Status ?d 536870912 = 0x00070300"
    by (simp_all add: received_board_def started_board_def ETH_Init_def ETH_DMATxDescChainInit_def ETH_DMARxDescChainInit_def Let_def loop_numerals)
  have off: "\<forall>q \<in> set [536892448, 536891920, 536891392]. off_dma ?d [536870912] (q, 528)"
      "\<forall>q \<in> set [536892448, 536891920, 536891392]. \<forall>r \<in> set [536892448, 536891920, 536891392]. q \<noteq> r \<longrightarrow> apart (q, 528) (r, 528 :: nat)"
    by (simp_all add: off_dma_def b apart_iff)
  have m: "mem_at (pb received_board) = (\<lambda>a. of_nat a)" by (simp add: received_board_def mem_at_board)
  have "rx_frame (pb received_board) ?d 536870912 = [64, 65, 66]"
    by (simp add: rx_frame_def b f m upt_rec)
  moreover have "room [536892448, 536891920, 536891392] 3 0" by (simp add: room_def LWIP_MEM_ALIGN_SIZE_def)
  ultimately show ?thesis
    using low_level_input_exact [OF r x po off, of False, simplified b f list.sel list.simps append.simps] by (auto simp: b f)
qed

end
