(* ===== verification/Inet_Chksum.thy ===== *)
theory Inet_Chksum
  imports Pbuf_Data
begin

text \<open>
  \<open>LWIP/src/core/inet_chksum.c\<close>: the Internet checksum over memory and over packets. The code has three
  algorithms for a piece of memory, of which the second is the configured one; all three are modelled.
  A 16- or 32-bit read takes its bytes in little-endian order, as the target does. The reference is the
  one's complement sum of RFC 1071: the bytes are paired to 16-bit words and added with end-around carry.
\<close>

section \<open>Definitions\<close>

definition FOLD_U32T :: "nat \<Rightarrow> nat" where "FOLD_U32T u = u div 2 ^ 16 + u mod 2 ^ 16"
definition SWAP_BYTES_IN_WORD :: "nat \<Rightarrow> nat" where "SWAP_BYTES_IN_WORD w = (w mod 256) * 256 + (w div 256) mod 256"
definition lwip_htons :: "nat \<Rightarrow> nat" where "lwip_htons n = (n mod 256) * 256 + (n div 256) mod 256"

definition read16 :: "(nat \<Rightarrow> u8) \<Rightarrow> nat \<Rightarrow> nat" where "read16 m a = unat (m a) + 256 * unat (m (a + 1))"
definition read32 :: "(nat \<Rightarrow> u8) \<Rightarrow> nat \<Rightarrow> nat" where "read32 m a = read16 m a + 2 ^ 16 * read16 m (a + 2)"

text \<open>The first algorithm adds words in network order.\<close>

fun chksum1_loop :: "(nat \<Rightarrow> u8) \<Rightarrow> nat \<Rightarrow> nat \<Rightarrow> nat \<Rightarrow> nat" where
  "chksum1_loop m a n acc =
     (if 1 < n then chksum1_loop m (a + 2) (n - 2) (u32_add acc (unat (m a) * 256 + unat (m (a + 1))))
      else if 0 < n then u32_add acc (unat (m a) * 256) else acc)"

definition lwip_standard_chksum_1 :: "(nat \<Rightarrow> u8) \<Rightarrow> nat \<Rightarrow> nat \<Rightarrow> nat" where
  "lwip_standard_chksum_1 m a n =
     (let acc = chksum1_loop m a n 0; acc1 = FOLD_U32T acc;
          acc2 = (if acc1 div 2 ^ 16 \<noteq> 0 then FOLD_U32T acc1 else acc1)
      in lwip_htons (u16_t acc2))"

text \<open>The second, configured one adds aligned words in host order and swaps at the end.\<close>

fun chksum2_loop :: "(nat \<Rightarrow> u8) \<Rightarrow> nat \<Rightarrow> nat \<Rightarrow> nat \<Rightarrow> nat \<times> nat \<times> nat" where
  "chksum2_loop m ps n acc = (if 1 < n then chksum2_loop m (ps + 2) (n - 2) (u32_add acc (read16 m ps)) else (ps, n, acc))"

definition chksum_end :: "(nat \<Rightarrow> u8) \<Rightarrow> bool \<Rightarrow> nat \<Rightarrow> nat \<times> nat \<times> nat \<Rightarrow> nat" where
  "chksum_end m od t r =
     (case r of (ps, n, acc) \<Rightarrow>
        (let t1 = (if 0 < n then (t div 256) * 256 + unat (m ps) else t);
             acc1 = FOLD_U32T (FOLD_U32T (u32_add acc t1));
             acc2 = (if od then SWAP_BYTES_IN_WORD acc1 else acc1)
         in u16_t acc2))"

definition lwip_standard_chksum :: "(nat \<Rightarrow> u8) \<Rightarrow> nat \<Rightarrow> nat \<Rightarrow> nat" where
  "lwip_standard_chksum m a n =
     (let od = (a mod 2 = 1);
          (t, pb, n1) = (if od \<and> 0 < n then (256 * unat (m a), a + 1, n - 1) else (0, a, n))
      in chksum_end m od t (chksum2_loop m pb n1 0))"

text \<open>The third adds 32-bit words with end-around carry.\<close>

definition carry_add :: "nat \<Rightarrow> nat \<Rightarrow> nat" where
  "carry_add acc x = (let tmp = u32_add acc x in if tmp < acc then u32_add tmp 1 else tmp)"

fun chksum3_loop :: "(nat \<Rightarrow> u8) \<Rightarrow> nat \<Rightarrow> nat \<Rightarrow> nat \<Rightarrow> nat \<times> nat \<times> nat" where
  "chksum3_loop m pl n acc =
     (if 7 < n then chksum3_loop m (pl + 8) (n - 8) (carry_add (carry_add acc (read32 m pl)) (read32 m (pl + 4))) else (pl, n, acc))"

definition lwip_standard_chksum_3 :: "(nat \<Rightarrow> u8) \<Rightarrow> nat \<Rightarrow> nat \<Rightarrow> nat" where
  "lwip_standard_chksum_3 m a n =
     (let od = (a mod 2 = 1);
          (t, pb, n1) = (if od \<and> 0 < n then (256 * unat (m a), a + 1, n - 1) else (0, a, n));
          (ps, n2, acc) = (if pb mod 4 \<noteq> 0 \<and> 1 < n1 then (pb + 2, n1 - 2, read16 m pb) else (pb, n1, 0));
          (pl, n3, acc1) = chksum3_loop m ps n2 acc
      in chksum_end m od t (chksum2_loop m pl n3 (FOLD_U32T acc1)))"

text \<open>Over packets: the pieces are added, swapped while an odd number of bytes has gone before.\<close>

partial_function (option) chksum_pbuf_loop :: "nat \<Rightarrow> nat \<Rightarrow> bool \<Rightarrow> pbufs \<Rightarrow> (nat \<times> bool) option" where
  "chksum_pbuf_loop q acc swapped s =
     (if q \<noteq> 0
      then (let acc1 = FOLD_U32T (u32_add acc (lwip_standard_chksum (mem_at s) (payload s q) (len s q)));
                od = (len s q mod 2 \<noteq> 0)
            in chksum_pbuf_loop (p_next s q) (if od then SWAP_BYTES_IN_WORD acc1 else acc1) (if od then \<not> swapped else swapped) s)
      else Some (acc, swapped))"

definition complement16 :: "nat \<Rightarrow> nat" where "complement16 x = 2 ^ 16 - 1 - x mod 2 ^ 16"

definition inet_chksum :: "(nat \<Rightarrow> u8) \<Rightarrow> nat \<Rightarrow> nat \<Rightarrow> nat" where
  "inet_chksum m a n = complement16 (lwip_standard_chksum m a n)"

definition inet_chksum_pbuf :: "nat \<Rightarrow> pbufs \<Rightarrow> nat option" where
  "inet_chksum_pbuf p s = do {
     (acc, swapped) \<leftarrow> chksum_pbuf_loop p 0 False s;
     Some (complement16 (if swapped then SWAP_BYTES_IN_WORD acc else acc))
   }"

definition inet_cksum_pseudo_base :: "nat \<Rightarrow> nat \<Rightarrow> nat \<Rightarrow> nat \<Rightarrow> pbufs \<Rightarrow> nat option" where
  "inet_cksum_pseudo_base p proto proto_len acc s = do {
     (acc1, swapped) \<leftarrow> chksum_pbuf_loop p acc False s;
     let acc2 = (if swapped then SWAP_BYTES_IN_WORD acc1 else acc1);
     let acc3 = u32_add (u32_add acc2 (lwip_htons (u16_t proto))) (lwip_htons proto_len);
     Some (complement16 (FOLD_U32T (FOLD_U32T acc3)))
   }"

text \<open>The addresses are 32-bit words in network order.\<close>

definition address_sum :: "u32 \<Rightarrow> u32 \<Rightarrow> nat" where
  "address_sum src dest =
     (let acc = unat src mod 2 ^ 16; acc1 = u32_add acc (unat src div 2 ^ 16 mod 2 ^ 16);
          acc2 = u32_add acc1 (unat dest mod 2 ^ 16); acc3 = u32_add acc2 (unat dest div 2 ^ 16 mod 2 ^ 16)
      in FOLD_U32T (FOLD_U32T acc3))"

definition inet_chksum_pseudo :: "nat \<Rightarrow> nat \<Rightarrow> nat \<Rightarrow> u32 \<Rightarrow> u32 \<Rightarrow> pbufs \<Rightarrow> nat option" where
  "inet_chksum_pseudo p proto proto_len src dest s = inet_cksum_pseudo_base p proto proto_len (address_sum src dest) s"

partial_function (option) chksum_partial_loop :: "nat \<Rightarrow> nat \<Rightarrow> nat \<Rightarrow> bool \<Rightarrow> pbufs \<Rightarrow> (nat \<times> bool) option" where
  "chksum_partial_loop q chksum_len acc swapped s =
     (if q \<noteq> 0 \<and> 0 < chksum_len
      then (let chklen = min (len s q) chksum_len;
                acc1 = FOLD_U32T (u32_add acc (lwip_standard_chksum (mem_at s) (payload s q) chklen));
                od = (len s q mod 2 \<noteq> 0)
            in if chksum_len - chklen < 0x7fff
               then chksum_partial_loop (p_next s q) (chksum_len - chklen) (if od then SWAP_BYTES_IN_WORD acc1 else acc1) (if od then \<not> swapped else swapped) s
               else None)
      else Some (acc, swapped))"

definition inet_cksum_pseudo_partial_base :: "nat \<Rightarrow> nat \<Rightarrow> nat \<Rightarrow> nat \<Rightarrow> nat \<Rightarrow> pbufs \<Rightarrow> nat option" where
  "inet_cksum_pseudo_partial_base p proto proto_len chksum_len acc s = do {
     (acc1, swapped) \<leftarrow> chksum_partial_loop p chksum_len acc False s;
     let acc2 = (if swapped then SWAP_BYTES_IN_WORD acc1 else acc1);
     let acc3 = u32_add (u32_add acc2 (lwip_htons (u16_t proto))) (lwip_htons proto_len);
     Some (complement16 (FOLD_U32T (FOLD_U32T acc3)))
   }"

definition inet_chksum_pseudo_partial :: "nat \<Rightarrow> nat \<Rightarrow> nat \<Rightarrow> nat \<Rightarrow> u32 \<Rightarrow> u32 \<Rightarrow> pbufs \<Rightarrow> nat option" where
  "inet_chksum_pseudo_partial p proto proto_len chksum_len src dest s =
     inet_cksum_pseudo_partial_base p proto proto_len chksum_len (address_sum src dest) s"

section \<open>The reference: RFC 1071\<close>

definition ones_add :: "nat \<Rightarrow> nat \<Rightarrow> nat" where
  "ones_add a b = (let s = a + b in if s < 2 ^ 16 then s else s - 2 ^ 16 + 1)"

fun ones_sum :: "u8 list \<Rightarrow> nat" where
  "ones_sum [] = 0"
| "ones_sum [b] = unat b"
| "ones_sum (b # c # bs) = ones_add (unat b + 256 * unat c) (ones_sum bs)"

section \<open>Arithmetic modulo 65535\<close>

text \<open>
  Sums of 16-bit words matter modulo \<open>2 ^ 16 - 1\<close>, with one exception: zero stays zero and every other
  multiple becomes \<open>0xFFFF\<close>.
\<close>

definition canon :: "nat \<Rightarrow> nat" where
  "canon x = (if x = 0 then 0 else (x - 1) mod 65535 + 1)"

lemma canon_iff: "canon a = canon b \<longleftrightarrow> (a = 0 \<longleftrightarrow> b = 0) \<and> a mod 65535 = b mod 65535"
proof (cases "a = 0 \<or> b = 0")
  case False
  then obtain c d where "a = c + 1" "b = d + 1" by (metis Suc_eq_plus1 not0_implies_Suc)
  then show ?thesis by (simp add: canon_def mod_Suc)
qed (auto simp: canon_def)

lemma canon_id: "x \<le> 65535 \<Longrightarrow> canon x = x"
  by (simp add: canon_def)

lemma canon_le: "canon x \<le> 65535"
  using mod_less_divisor [of 65535 "x - 1"] unfolding canon_def by (simp del: mod_less_divisor)

lemma canon_canon [simp]: "canon (canon x) = canon x"
  by (simp add: canon_id canon_le)

lemma canon_eq_0 [simp]: "canon x = 0 \<longleftrightarrow> x = 0"
  by (simp add: canon_def)

lemma canon_add_cong: "canon a = canon a' \<Longrightarrow> canon b = canon b' \<Longrightarrow> canon (a + b) = canon (a' + b')"
  unfolding canon_iff by (metis add_is_0 mod_add_cong)

lemma canon_mult_cong: "canon a = canon a' \<Longrightarrow> canon (k * a) = canon (k * a')"
  unfolding canon_iff by (metis mod_mult_cong mult_is_0)

lemma canon_add [simp]: "canon (canon a + b) = canon (a + b)" "canon (a + canon b) = canon (a + b)"
  by (rule canon_add_cong; simp)+

lemma canon_mult [simp]: "canon (k * canon a) = canon (k * a)"
  by (rule canon_mult_cong) simp

lemma canon_mod: "0 < b \<Longrightarrow> a = b + 65535 * k \<Longrightarrow> canon a = canon b"
  unfolding canon_iff by simp

lemma canon_65536 [simp]: "canon (65536 * a) = canon a"
  by (cases "a = 0") (auto intro!: canon_mod [of a _ a])

lemma canon_fold: "canon (FOLD_U32T x) = canon x"
proof (cases "x = 0")
  case False
  have d: "x = x div 65536 * 65536 + x mod 65536" by simp
  have e: "FOLD_U32T x = x div 65536 + x mod 65536" by (simp add: FOLD_U32T_def)
  then have "0 < FOLD_U32T x" "x = FOLD_U32T x + 65535 * (x div 65536)" using False d by linarith+
  then show ?thesis by (rule canon_mod [symmetric])
qed (simp add: FOLD_U32T_def)

lemma fold_le: "x \<le> 131070 \<Longrightarrow> FOLD_U32T x \<le> 65535"
proof -
  assume "x \<le> 131070"
  then have "x < 65536 \<or> (65536 \<le> x \<and> x - 65536 \<le> 65534)" by linarith
  then show ?thesis
  proof
    assume "65536 \<le> x \<and> x - 65536 \<le> 65534"
    then obtain y where "x = 65536 + y" "y \<le> 65534" by (metis le_add_diff_inverse)
    then show ?thesis by (simp add: FOLD_U32T_def)
  qed (simp add: FOLD_U32T_def)
qed

lemma fold_once: "x \<le> 131070 \<Longrightarrow> FOLD_U32T x = canon x"
  using canon_id [OF fold_le] canon_fold by metis

lemma fold_twice: "x < 2 ^ 32 \<Longrightarrow> FOLD_U32T (FOLD_U32T x) = canon x"
proof -
  assume "x < 2 ^ 32"
  then have "x div 65536 < 65536" by simp
  moreover have "x mod 65536 < 65536" by simp
  ultimately have "FOLD_U32T x \<le> 131070" by (simp add: FOLD_U32T_def)
  then show ?thesis using fold_once canon_fold by metis
qed

lemma swap_canon: "x \<le> 65535 \<Longrightarrow> SWAP_BYTES_IN_WORD x = canon (256 * x)"
proof -
  assume x: "x \<le> 65535"
  let ?y = "SWAP_BYTES_IN_WORD x"
  have d: "x = x div 256 * 256 + x mod 256" "x div 256 < 256" "x mod 256 < 256" using x by simp_all
  have y: "?y = (x mod 256) * 256 + x div 256" using d(2) by (simp add: SWAP_BYTES_IN_WORD_def)
  then have "256 * x = ?y + 65535 * (x div 256)" using d(1) by linarith
  moreover have "?y \<le> 65535" using y d(2,3) by linarith
  moreover have "?y = 0 \<Longrightarrow> x = 0" using y d(1) by linarith
  ultimately show ?thesis using canon_mod [of ?y "256 * x"] canon_id [of ?y] by (cases "?y = 0") auto
qed

lemma swap_of_canon [simp]: "SWAP_BYTES_IN_WORD (canon x) = canon (256 * x)"
  using swap_canon [OF canon_le] by simp

lemma u16_t_canon [simp]: "u16_t (canon x) = canon x"
  using canon_le [of x] by (simp add: u16_t_def)

section \<open>The bytes as a number\<close>

text \<open>Modulo 65535 the one's complement sum is the number the bytes spell in little-endian order.\<close>

fun le_value :: "u8 list \<Rightarrow> nat" where
  "le_value [] = 0"
| "le_value (b # bs) = unat b + 256 * le_value bs"

definition bytes_at :: "(nat \<Rightarrow> u8) \<Rightarrow> nat \<Rightarrow> nat \<Rightarrow> u8 list" where
  "bytes_at m a n = map m [a ..< a + n]"

lemma bytes_at_simps [simp]: "bytes_at m a 0 = []" "bytes_at m a (Suc n) = m a # bytes_at m (a + 1) n"
  by (simp_all add: bytes_at_def upt_conv_Cons del: upt_Suc)

lemma bytes_at_one: "0 < n \<Longrightarrow> bytes_at m a n = m a # bytes_at m (a + 1) (n - 1)"
  by (cases n) simp_all

lemma unat_u8: "unat (b :: u8) \<le> 255"
  using unsigned_less [of b, where ?'a = nat] by simp

lemma bytes_at_two: "1 < n \<Longrightarrow> bytes_at m a n = m a # m (a + 1) # bytes_at m (a + 2) (n - 2)"
  by (cases n rule: nat.exhaust; cases "n - 1") auto

lemma le_value_two: "1 < n \<Longrightarrow> le_value (bytes_at m a n) = read16 m a + 65536 * le_value (bytes_at m (a + 2) (n - 2))"
  by (subst bytes_at_two) (simp_all add: read16_def)

lemma read16_le: "read16 m a \<le> 65535"
  using unat_u8 [of "m a"] unat_u8 [of "m (a + 1)"] by (simp add: read16_def)

lemma canon_le_two: "1 < n \<Longrightarrow> canon (x + le_value (bytes_at m a n)) = canon (x + read16 m a + le_value (bytes_at m (a + 2) (n - 2)))"
  unfolding le_value_two add.assoc by (intro canon_add_cong refl canon_65536)

lemma canon_256_256: "canon (256 * (256 * x)) = canon x"
  using canon_65536 [of x] by (simp add: mult.assoc [symmetric])

lemma ones_add_canon: "a \<le> 65535 \<Longrightarrow> b \<le> 65535 \<Longrightarrow> ones_add a b = canon (a + b)"
proof -
  assume ab: "a \<le> 65535" "b \<le> 65535"
  show ?thesis
  proof (cases "a + b < 65536")
    case False
    then have "canon (a + b) = canon (a + b - 65535)" using ab by (intro canon_mod [of _ _ 1]) auto
    then show ?thesis using False ab by (simp add: ones_add_def Let_def canon_id)
  qed (simp add: ones_add_def Let_def canon_id)
qed

text \<open>The reference is the canonical form of that number.\<close>

lemma ones_sum_canon: "ones_sum bs = canon (le_value bs)"
proof (induction bs rule: ones_sum.induct)
  case (2 b)
  then show ?case using unat_u8 [of b] by (simp add: canon_id)
next
  case (3 b c bs)
  have "unat b + 256 * unat c \<le> 65535" using unat_u8 [of b] unat_u8 [of c] by simp
  then have "ones_sum (b # c # bs) = canon (unat b + 256 * unat c + le_value bs)"
    using 3 ones_add_canon [OF _ canon_le] by simp
  also have "\<dots> = canon (unat b + 256 * unat c + 65536 * le_value bs)" by (intro canon_add_cong refl canon_65536 [symmetric])
  finally show ?case by (simp add: algebra_simps)
qed simp

section \<open>The three algorithms\<close>

declare chksum1_loop.simps [simp del] chksum2_loop.simps [simp del] chksum3_loop.simps [simp del]

lemma chksum1_loop_spec:
  "acc + 65535 * n < 2 ^ 32 \<Longrightarrow> canon (chksum1_loop m a n acc) = canon (acc + 256 * le_value (bytes_at m a n)) \<and> chksum1_loop m a n acc \<le> acc + 65535 * n"
proof (induction m a n acc rule: chksum1_loop.induct)
  case (1 m a n acc)
  let ?w = "unat (m a) * 256 + unat (m (a + 1))"
  have w: "?w \<le> 65535" using unat_u8 [of "m a"] unat_u8 [of "m (a + 1)"] by simp
  consider "1 < n" | "n = 1" | "n = 0" by linarith
  then show ?case
  proof cases
    case 1
    then have u: "u32_add acc ?w = acc + ?w" "acc + ?w + 65535 * (n - 2) < 2 ^ 32" using w "1.prems" by (auto simp: u32_simps)
    have run: "chksum1_loop m a n acc = chksum1_loop m (a + 2) (n - 2) (acc + ?w)"
      using 1 u(1) by (subst chksum1_loop.simps) simp
    have ih: "canon (chksum1_loop m (a + 2) (n - 2) (acc + ?w)) = canon (acc + ?w + 256 * le_value (bytes_at m (a + 2) (n - 2)))"
        "chksum1_loop m (a + 2) (n - 2) (acc + ?w) \<le> acc + ?w + 65535 * (n - 2)"
      using "1.IH" 1 u by simp_all
    have "canon ?w = canon (256 * read16 m a)"
    proof (cases "?w = 0")
      case False
      then show ?thesis by (intro canon_mod [of _ _ "unat (m (a + 1))", symmetric]) (auto simp: read16_def)
    qed (simp add: read16_def)
    then have "canon (acc + ?w + 256 * le_value (bytes_at m (a + 2) (n - 2))) = canon (acc + 256 * read16 m a + 256 * le_value (bytes_at m (a + 2) (n - 2)))"
      by (intro canon_add_cong refl)
    also have "\<dots> = canon (acc + 256 * (read16 m a + 65536 * le_value (bytes_at m (a + 2) (n - 2))))"
      unfolding add_mult_distrib2 add.assoc by (intro canon_add_cong canon_mult_cong refl canon_65536 [symmetric])
    also have "\<dots> = canon (acc + 256 * le_value (bytes_at m a n))" using le_value_two [OF 1] by simp
    finally show ?thesis using run ih w 1 by simp
  next
    case 2
    then show ?thesis using "1.prems" unat_u8 [of "m a"] by (subst (1 2) chksum1_loop.simps) (simp add: u32_simps mult.commute)
  qed (simp add: chksum1_loop.simps)
qed

lemma chksum2_loop_spec:
  "acc + 65535 * n < 2 ^ 32 \<Longrightarrow> \<exists>ps' n' acc'. chksum2_loop m ps n acc = (ps', n', acc') \<and> acc' + 65535 * n' \<le> acc + 65535 * n \<and>
    canon (acc' + (if 0 < n' then unat (m ps') else 0)) = canon (acc + le_value (bytes_at m ps n))"
proof (induction m ps n acc rule: chksum2_loop.induct)
  case (1 m ps n acc)
  consider "1 < n" | "n = 1" | "n = 0" by linarith
  then show ?case
  proof cases
    case 1
    then have u: "u32_add acc (read16 m ps) = acc + read16 m ps" "acc + read16 m ps + 65535 * (n - 2) < 2 ^ 32"
      using read16_le [of m ps] "1.prems" by (auto simp: u32_simps)
    have "chksum2_loop m ps n acc = chksum2_loop m (ps + 2) (n - 2) (acc + read16 m ps)"
      using 1 u(1) by (subst chksum2_loop.simps) simp
    moreover have "acc + read16 m ps + 65535 * (n - 2) \<le> acc + 65535 * n" using read16_le [of m ps] 1 by linarith
    ultimately show ?thesis using "1.IH" [unfolded u(1), OF 1 u(2)] unfolding canon_le_two [OF 1, of acc m ps] by (elim exE) (auto intro: order_trans)
  next
    case 2
    then show ?thesis by (subst chksum2_loop.simps) simp
  qed (simp add: chksum2_loop.simps)
qed

lemma chksum_end_spec:
  assumes "acc + 65535 < 2 ^ 32"
  shows "chksum_end m od (256 * unat (b :: u8)) (ps, n, acc) =
    canon ((if od then 256 else 1) * (256 * unat b + (acc + (if 0 < n then unat (m ps) else 0))))"
proof -
  let ?t = "256 * unat b + (if 0 < n then unat (m ps) else 0)"
  have "?t \<le> 65535" using unat_u8 [of b] unat_u8 [of "m ps"] by simp
  then have a: "u32_add acc ?t = acc + ?t" "FOLD_U32T (FOLD_U32T (acc + ?t)) = canon (acc + ?t)"
    using assms by (auto simp: u32_simps intro!: fold_twice)
  have "chksum_end m od (256 * unat b) (ps, n, acc) = u16_t (if od then SWAP_BYTES_IN_WORD (canon (acc + ?t)) else canon (acc + ?t))"
  proof -
    have "(if 0 < n then (256 * unat b) div 256 * 256 + unat (m ps) else 256 * unat b) = ?t" by simp
    then show ?thesis unfolding chksum_end_def prod.case Let_def by (simp only: a)
  qed
  also have "\<dots> = (if od then SWAP_BYTES_IN_WORD (canon (acc + ?t)) else canon (acc + ?t))"
    by (simp only: swap_of_canon u16_t_canon if_distrib [of u16_t])
  also have "\<dots> = canon ((if od then 256 else 1) * (acc + ?t))" by simp
  finally show ?thesis by (simp add: ac_simps)
qed

lemma odd_start: "canon (256 * (256 * unat (m a) + le_value (bytes_at m (a + 1) (n - 1)))) = canon (le_value (bytes_at m a n))" if "0 < n"
proof -
  have "256 * (256 * unat (m a) + le_value (bytes_at m (a + 1) (n - 1))) = 256 * (256 * unat (m a)) + 256 * le_value (bytes_at m (a + 1) (n - 1))"
    by simp
  then show ?thesis unfolding bytes_at_one [OF that] by (auto intro!: canon_add_cong canon_256_256)
qed

lemma lwip_standard_chksum_spec:
  assumes "n < 2 ^ 16"
  shows "lwip_standard_chksum m a n = canon (le_value (bytes_at m a n))"
proof -
  have run: "chksum_end m od (256 * unat b) (chksum2_loop m pb n1 0) = canon ((if od then 256 else 1) * (256 * unat b + le_value (bytes_at m pb n1)))"
    if "n1 < 2 ^ 16" for od and b :: u8 and pb n1
  proof -
    have "0 + 65535 * n1 < 2 ^ 32" using that by simp
    from chksum2_loop_spec [OF this, of m pb] obtain ps' n' acc' where l: "chksum2_loop m pb n1 0 = (ps', n', acc')" "acc' + 65535 * n' \<le> 65535 * n1"
        "canon (acc' + (if 0 < n' then unat (m ps') else 0)) = canon (le_value (bytes_at m pb n1))" by auto
    have b: "acc' + 65535 < 2 ^ 32" using l(2) that by simp
    show ?thesis unfolding l(1) chksum_end_spec [OF b] by (intro canon_mult_cong canon_add_cong l(3) refl)
  qed
  consider "a mod 2 = 1" "0 < n" | "a mod 2 = 1" "n = 0" | "a mod 2 \<noteq> 1" by linarith
  then show ?thesis
  proof cases
    case 1
    then have "lwip_standard_chksum m a n = canon (256 * (256 * unat (m a) + le_value (bytes_at m (a + 1) (n - 1))))"
      using run [of "n - 1" True "m a" "a + 1"] assms by (simp add: lwip_standard_chksum_def)
    then show ?thesis using odd_start 1 by simp
  next
    case 2
    then show ?thesis using run [of 0 True 0 a] by (simp add: lwip_standard_chksum_def)
  next
    case 3
    then show ?thesis using run [OF assms, of False 0 a] by (simp add: lwip_standard_chksum_def)
  qed
qed

lemma htons_swap: "lwip_htons x = SWAP_BYTES_IN_WORD x"
  by (simp add: lwip_htons_def SWAP_BYTES_IN_WORD_def)

lemma lwip_standard_chksum_1_spec:
  assumes "n < 2 ^ 16"
  shows "lwip_standard_chksum_1 m a n = canon (le_value (bytes_at m a n))"
proof -
  let ?acc = "chksum1_loop m a n 0"
  have l: "canon ?acc = canon (256 * le_value (bytes_at m a n))" "?acc < 2 ^ 32"
    using chksum1_loop_spec [of 0 n m a] assms by simp_all
  have "(if FOLD_U32T ?acc div 2 ^ 16 \<noteq> 0 then FOLD_U32T (FOLD_U32T ?acc) else FOLD_U32T ?acc) = FOLD_U32T (FOLD_U32T ?acc)"
    by (simp add: FOLD_U32T_def)
  also have "\<dots> = canon ?acc" by (rule fold_twice [OF l(2)])
  finally have "lwip_standard_chksum_1 m a n = SWAP_BYTES_IN_WORD (canon ?acc)"
    by (simp add: lwip_standard_chksum_1_def Let_def htons_swap)
  also have "\<dots> = canon (256 * (256 * le_value (bytes_at m a n)))"
    unfolding swap_of_canon by (rule canon_mult_cong [OF l(1)])
  finally show ?thesis by (simp only: canon_256_256)
qed

lemma carry_add_spec:
  assumes "acc < 2 ^ 32" and "x < 2 ^ 32"
  shows "canon (carry_add acc x) = canon (acc + x)" "carry_add acc x < 2 ^ 32"
proof -
  have "canon (carry_add acc x) = canon (acc + x) \<and> carry_add acc x < 2 ^ 32"
  proof (cases "acc + x < 2 ^ 32")
    case True
    then show ?thesis by (simp add: carry_add_def u32_add_small)
  next
    case False
    then have u: "u32_add acc x = acc + x - 2 ^ 32" using assms by (simp add: u32_add_def mod_if)
    then have c: "carry_add acc x = acc + x - 2 ^ 32 + 1" using assms False by (simp add: carry_add_def Let_def u32_add_small)
    then have "acc + x = carry_add acc x + 65535 * 65537" using False by simp
    moreover have "0 < carry_add acc x" "carry_add acc x < 2 ^ 32" using c assms by simp_all
    ultimately show ?thesis using canon_mod by metis
  qed
  then show "canon (carry_add acc x) = canon (acc + x)" "carry_add acc x < 2 ^ 32" by simp_all
qed

lemma canon_le_four: "3 < n \<Longrightarrow> canon (x + le_value (bytes_at m a n)) = canon (x + read32 m a + le_value (bytes_at m (a + 4) (n - 4)))"
proof -
  assume n: "3 < n"
  have e: "n - 2 - 2 = n - 4" "a + 2 + 2 = a + 4" by simp_all
  have "canon (x + le_value (bytes_at m a n)) = canon (x + read16 m a + read16 m (a + 2) + le_value (bytes_at m (a + 4) (n - 4)))"
    using canon_le_two [of n x m a] canon_le_two [of "n - 2" "x + read16 m a" m "a + 2"] n
    by (simp only: e)
  also have "\<dots> = canon (x + read16 m a + 65536 * read16 m (a + 2) + le_value (bytes_at m (a + 4) (n - 4)))"
    by (intro canon_add_cong refl canon_65536 [symmetric])
  finally show ?thesis by (simp add: read32_def add.assoc)
qed

lemma chksum3_loop_spec:
  "acc < 2 ^ 32 \<Longrightarrow> \<exists>pl' n' acc'. chksum3_loop m pl n acc = (pl', n', acc') \<and> acc' < 2 ^ 32 \<and> n' \<le> 7 \<and>
    canon (acc' + le_value (bytes_at m pl' n')) = canon (acc + le_value (bytes_at m pl n))"
proof (induction m pl n acc rule: chksum3_loop.induct)
  case (1 m pl n acc)
  show ?case
  proof (cases "7 < n")
    case True
    let ?a1 = "carry_add acc (read32 m pl)" and ?a2 = "carry_add (carry_add acc (read32 m pl)) (read32 m (pl + 4))"
    have r: "read32 m x < 2 ^ 32" for x using read16_le [of m x] read16_le [of m "x + 2"] by (simp add: read32_def)
    note c1 = carry_add_spec [OF "1.prems" r, of pl]
    note c2 = carry_add_spec [OF c1(2) r, of "pl + 4"]
    have e: "n - 4 - 4 = n - 8" "pl + 4 + 4 = pl + 8" by simp_all
    have run: "chksum3_loop m pl n acc = chksum3_loop m (pl + 8) (n - 8) ?a2" using True by (subst chksum3_loop.simps) simp
    have "canon (?a2 + le_value (bytes_at m (pl + 8) (n - 8))) = canon (?a1 + read32 m (pl + 4) + le_value (bytes_at m (pl + 8) (n - 8)))"
      by (intro canon_add_cong c2(1) refl)
    also have "\<dots> = canon (acc + read32 m pl + read32 m (pl + 4) + le_value (bytes_at m (pl + 8) (n - 8)))"
      by (intro canon_add_cong c1(1) refl)
    also have "\<dots> = canon (acc + le_value (bytes_at m pl n))"
      using canon_le_four [of n acc m pl] canon_le_four [of "n - 4" "acc + read32 m pl" m "pl + 4"] True
      by (simp only: e)
    finally show ?thesis using "1.IH" [OF True c2(2)] run by (elim exE) auto
  next
    case False
    then show ?thesis using "1.prems" by (subst chksum3_loop.simps) simp
  qed
qed

lemma lwip_standard_chksum_3_spec:
  assumes "n < 2 ^ 16"
  shows "lwip_standard_chksum_3 m a n = canon (le_value (bytes_at m a n))"
proof -
  have run: "(let (ps, n2, acc) = (if pb mod 4 \<noteq> 0 \<and> 1 < n1 then (pb + 2, n1 - 2, read16 m pb) else (pb, n1, 0));
          (pl, n3, acc1) = chksum3_loop m ps n2 acc
      in chksum_end m od (256 * unat b) (chksum2_loop m pl n3 (FOLD_U32T acc1)))
    = canon ((if od then 256 else 1) * (256 * unat b + le_value (bytes_at m pb n1)))"
    if n1: "n1 < 2 ^ 16" for od and b :: u8 and pb n1
  proof -
    obtain ps n2 acc where s: "(if pb mod 4 \<noteq> 0 \<and> 1 < n1 then (pb + 2, n1 - 2, read16 m pb) else (pb, n1, 0)) = (ps, n2, acc)" by (metis prod_cases3)
    have s1: "acc < 2 ^ 32" "n2 \<le> n1" "canon (acc + le_value (bytes_at m ps n2)) = canon (le_value (bytes_at m pb n1))"
      using s read16_le [of m pb] canon_le_two [of n1 0 m pb] by (auto split: if_splits)
    from chksum3_loop_spec [OF s1(1), of m ps n2] obtain pl n3 acc1 where l: "chksum3_loop m ps n2 acc = (pl, n3, acc1)" "acc1 < 2 ^ 32" "n3 \<le> 7"
        "canon (acc1 + le_value (bytes_at m pl n3)) = canon (acc + le_value (bytes_at m ps n2))" by blast
    have f: "FOLD_U32T acc1 \<le> 131070" using l(2) by (simp add: FOLD_U32T_def)
    then have "FOLD_U32T acc1 + 65535 * n3 < 2 ^ 32" using l(3) by simp
    from chksum2_loop_spec [OF this, of m pl] obtain ps' n' acc' where e: "chksum2_loop m pl n3 (FOLD_U32T acc1) = (ps', n', acc')"
        "acc' + 65535 * n' \<le> FOLD_U32T acc1 + 65535 * n3" "canon (acc' + (if 0 < n' then unat (m ps') else 0)) = canon (FOLD_U32T acc1 + le_value (bytes_at m pl n3))"
      by auto
    have b: "acc' + 65535 < 2 ^ 32" using e(2) f l(3) by simp
    have "canon (FOLD_U32T acc1 + le_value (bytes_at m pl n3)) = canon (acc1 + le_value (bytes_at m pl n3))"
      by (intro canon_add_cong canon_fold refl)
    then have "canon (acc' + (if 0 < n' then unat (m ps') else 0)) = canon (le_value (bytes_at m pb n1))" using e(3) l(4) s1(3) by (simp only:)
    then show ?thesis unfolding s prod.case Let_def l(1) e(1) chksum_end_spec [OF b] by (intro canon_mult_cong canon_add_cong refl)
  qed
  consider "a mod 2 = 1" "0 < n" | "a mod 2 = 1" "n = 0" | "a mod 2 \<noteq> 1" by linarith
  then show ?thesis
  proof cases
    case 1
    then have "lwip_standard_chksum_3 m a n = canon (256 * (256 * unat (m a) + le_value (bytes_at m (a + 1) (n - 1))))"
      using run [of "n - 1" "a + 1" True "m a"] assms by (simp add: lwip_standard_chksum_3_def Let_def cong: if_cong)
    then show ?thesis using odd_start 1 by simp
  next
    case 2
    then show ?thesis using run [of 0 a True 0] by (simp add: lwip_standard_chksum_3_def Let_def)
  next
    case 3
    then show ?thesis using run [OF assms, of a False 0] by (simp add: lwip_standard_chksum_3_def Let_def)
  qed
qed

section \<open>Packets\<close>

lemma le_value_append: "le_value (xs @ ys) = le_value xs + 256 ^ length xs * le_value ys"
  by (induction xs) (simp_all add: algebra_simps)

lemma canon_pow: "canon (256 ^ n * x) = canon (if odd n then 256 * x else x)"
proof (induction n)
  case (Suc n)
  have "canon (256 ^ Suc n * x) = canon (256 * (256 ^ n * x))" by (simp add: mult.assoc)
  also have "\<dots> = canon (256 * (if odd n then 256 * x else x))" by (rule canon_mult_cong [OF Suc.IH])
  finally show ?case by simp
qed simp

text \<open>\<open>scaled sw x\<close>: the value of a sum that is kept swapped.\<close>

abbreviation scaled :: "bool \<Rightarrow> nat \<Rightarrow> nat" where
  "scaled sw x \<equiv> (if sw then 256 * x else x)"

lemma canon_scaled:
  assumes "canon a = canon b"
  shows "canon (scaled sw a) = canon (scaled sw b)"
  using assms canon_mult_cong [OF assms, of 256] by (cases sw) (simp_all only: if_True if_False)

lemma chksum_step:
  assumes "canon a = canon (acc + v)"
  shows "canon (scaled (sw \<noteq> od) (if od then 256 * a else a)) = canon (scaled sw acc + scaled sw v)"
proof -
  have "canon (scaled (sw \<noteq> od) (if od then 256 * a else a)) = canon (scaled sw a)"
    by (cases sw; cases od) simp_all
  also have "\<dots> = canon (scaled sw (acc + v))" by (rule canon_scaled [OF assms])
  finally show ?thesis by (simp split: if_splits)
qed

lemma piece_bytes: "bytes_at (mem_at s) (payload s q) (len s q) = piece s q"
  by (simp add: bytes_at_def piece_def)

lemma chksum_pbuf_loop_spec:
  assumes "pchain (p_next s) p ps" and "\<forall>q \<in> set ps. len s q < 2 ^ 16" and "acc \<le> 65535"
  shows "\<exists>acc' sw'. chksum_pbuf_loop p acc sw s = Some (acc', sw') \<and> acc' \<le> 65535 \<and>
    canon (scaled sw' acc') = canon (scaled sw acc + scaled sw (le_value (pdata s ps)))"
  using assms
proof (induction ps arbitrary: p acc sw)
  case Nil
  then show ?case by (subst chksum_pbuf_loop.simps) simp
next
  case (Cons q qs)
  have q: "p = q" "q \<noteq> 0" "pchain (p_next s) (p_next s q) qs" "len s q < 2 ^ 16" using Cons.prems by auto
  let ?v = "le_value (piece s q)" and ?od = "len s q mod 2 \<noteq> 0"
  have c: "lwip_standard_chksum (mem_at s) (payload s q) (len s q) = canon ?v"
    using lwip_standard_chksum_spec [OF q(4)] by (simp add: piece_bytes)
  have "u32_add acc (canon ?v) = acc + canon ?v" using Cons.prems(3) canon_le [of ?v] by (simp add: u32_add_small)
  then have a: "FOLD_U32T (u32_add acc (canon ?v)) = canon (acc + ?v)"
    using fold_once [of "acc + canon ?v"] Cons.prems(3) canon_le [of ?v] by simp
  let ?acc = "if ?od then canon (256 * (acc + ?v)) else canon (acc + ?v)"
  have run: "chksum_pbuf_loop p acc sw s = chksum_pbuf_loop (p_next s q) ?acc (sw \<noteq> ?od) s"
    using q(1,2) c a by (subst chksum_pbuf_loop.simps) (auto simp: Let_def)
  have "?acc \<le> 65535" using canon_le by simp
  from Cons.IH [OF q(3) _ this, of "sw \<noteq> ?od"] Cons.prems(2) obtain acc' sw' where ih: "chksum_pbuf_loop (p_next s q) ?acc (sw \<noteq> ?od) s = Some (acc', sw')"
      "acc' \<le> 65535" "canon (scaled sw' acc') = canon (scaled (sw \<noteq> ?od) ?acc + scaled (sw \<noteq> ?od) (le_value (pdata s qs)))" by auto
  have "canon ?acc = canon (if ?od then 256 * (acc + ?v) else acc + ?v)" by simp
  from canon_scaled [OF this, of "sw \<noteq> ?od"]
  have 1: "canon (scaled (sw \<noteq> ?od) ?acc) = canon (scaled sw acc + scaled sw ?v)"
    by (rule trans) (rule chksum_step [OF refl])
  have pw: "canon (256 ^ len s q * le_value (pdata s qs)) = canon (if ?od then 256 * le_value (pdata s qs) else le_value (pdata s qs))"
    using canon_pow [of "len s q"] by (simp add: odd_iff_mod_2_eq_one)
  have 2: "canon (scaled (sw \<noteq> ?od) (le_value (pdata s qs))) = canon (scaled sw (256 ^ len s q * le_value (pdata s qs)))"
    by (cases sw; cases ?od) (use canon_scaled [OF pw, of sw] in simp_all)
  have "canon (scaled sw' acc') = canon (scaled sw acc + scaled sw ?v + scaled sw (256 ^ len s q * le_value (pdata s qs)))"
    unfolding ih(3) by (rule canon_add_cong [OF 1 2])
  also have "scaled sw acc + scaled sw ?v + scaled sw (256 ^ len s q * le_value (pdata s qs)) = scaled sw acc + scaled sw (le_value (pdata s (q # qs)))"
    by (simp add: le_value_append)
  finally show ?case using run ih(1,2) by simp
qed

lemma chksum_pbuf_loop_sum:
  assumes "pchain (p_next s) p ps" and "lens s ps < 2 ^ 16" and "acc \<le> 65535"
  shows "\<exists>acc' sw'. chksum_pbuf_loop p acc False s = Some (acc', sw') \<and>
    (if sw' then SWAP_BYTES_IN_WORD acc' else acc') = canon (acc + le_value (pdata s ps))"
proof -
  have "\<forall>q \<in> set ps. len s q < 2 ^ 16" using member_le_sum_list [of _ "map (len s) ps"] assms(2) by fastforce
  from chksum_pbuf_loop_spec [OF assms(1) this assms(3), of False] obtain acc' sw' where
    l: "chksum_pbuf_loop p acc False s = Some (acc', sw')" "acc' \<le> 65535" "canon (scaled sw' acc') = canon (acc + le_value (pdata s ps))" by auto
  have "(if sw' then SWAP_BYTES_IN_WORD acc' else acc') = canon (scaled sw' acc')" using swap_canon [OF l(2)] canon_id [OF l(2)] by simp
  then show ?thesis using l(1,3) by simp
qed

text \<open>The pseudo header of RFC 768 and 793: both addresses, a zero, the protocol, the length.\<close>

definition bytes_of :: "u32 \<Rightarrow> u8 list" where
  "bytes_of w = [of_nat (unat w), of_nat (unat w div 256), of_nat (unat w div 65536), of_nat (unat w div 16777216)]"

definition pseudo_header :: "u32 \<Rightarrow> u32 \<Rightarrow> nat \<Rightarrow> nat \<Rightarrow> u8 list" where
  "pseudo_header src dest proto n = bytes_of src @ bytes_of dest @ [0, of_nat proto, of_nat (n div 256), of_nat n]"

lemma u8_of_nat: "unat (of_nat x :: u8) = x mod 256"
  by (simp add: unat_of_nat)

lemma horner: "x = a + 256 * y \<Longrightarrow> y = b + 256 * z \<Longrightarrow> z = c + 256 * d \<Longrightarrow> d = e \<Longrightarrow> x = a + 256 * (b + 256 * (c + 256 * (e :: nat)))"
  by simp

lemma le_value_bytes_of: "le_value (bytes_of w) = unat w"
proof -
  have w: "unat w < 2 ^ 32" using unsigned_less [of w, where ?'a = nat] by simp
  have "unat w = unat w mod 256 + 256 * (unat w div 256 mod 256 + 256 * (unat w div 65536 mod 256 + 256 * (unat w div 16777216 mod 256)))"
  proof -
    have "y = y mod 256 + 256 * (y div 256)" for y :: nat by simp
    from this [of "unat w"] this [of "unat w div 256"] this [of "unat w div 65536"]
    have "unat w = unat w mod 256 + 256 * (unat w div 256)" "unat w div 256 = unat w div 256 mod 256 + 256 * (unat w div 65536)"
      "unat w div 65536 = unat w div 65536 mod 256 + 256 * (unat w div 16777216)" by (simp_all add: div_mult2_eq [symmetric])
    moreover have "unat w div 16777216 = unat w div 16777216 mod 256" using w by simp
    ultimately show ?thesis by (rule horner)
  qed
  then show ?thesis unfolding bytes_of_def le_value.simps u8_of_nat mult_0_right add_0_right by (rule sym)
qed

lemma address_sum_canon: "address_sum src dest = canon (unat src + unat dest)"
proof -
  have half: "canon (unat w mod 65536 + unat w div 65536 mod 65536) = canon (unat w)" for w :: u32
  proof -
    have "unat w div 65536 < 65536" using unsigned_less [of w, where ?'a = nat] by simp
    then have "unat w mod 65536 + unat w div 65536 mod 65536 = FOLD_U32T (unat w)" by (simp add: FOLD_U32T_def)
    then show ?thesis using canon_fold by simp
  qed
  let ?x = "unat src mod 65536 + unat src div 65536 mod 65536" and ?y = "unat dest mod 65536 + unat dest div 65536 mod 65536"
  have b: "z mod 65536 \<le> 65535" for z :: nat using mod_less_divisor [of 65536 z] by linarith
  have "address_sum src dest = FOLD_U32T (FOLD_U32T (?x + ?y))"
    using b [of "unat src"] b [of "unat src div 65536"] b [of "unat dest"] b [of "unat dest div 65536"]
    by (simp add: address_sum_def Let_def u32_add_small add.assoc)
  also have "\<dots> = canon (?x + ?y)"
    using b [of "unat src"] b [of "unat src div 65536"] b [of "unat dest"] b [of "unat dest div 65536"] by (intro fold_twice) simp
  also have "\<dots> = canon (unat src + unat dest)" by (intro canon_add_cong half)
  finally show ?thesis .
qed

lemma pseudo_header_canon:
  assumes "proto < 256" and "n < 2 ^ 16"
  shows "canon (le_value (pseudo_header src dest proto n @ bs)) = canon (unat src + unat dest + le_value bs + 256 * proto + (n div 256 + 256 * (n mod 256)))"
proof -
  have n: "n div 256 < 256" using assms(2) by simp
  have e: "le_value [0, of_nat proto, of_nat (n div 256), of_nat n] = 256 * proto + 256 ^ 2 * (n div 256 + 256 * (n mod 256))"
    using assms(1) n by (simp add: unat_of_nat)
  have "le_value (pseudo_header src dest proto n @ bs) = unat src + 256 ^ 4 * unat dest + (256 ^ 8 * (256 * proto) + 256 ^ 10 * (n div 256 + 256 * (n mod 256))) + 256 ^ 12 * le_value bs"
    unfolding pseudo_header_def append_assoc le_value_append le_value_bytes_of e by (simp add: bytes_of_def algebra_simps)
  also have "canon \<dots> = canon (unat src + unat dest + (256 * proto + (n div 256 + 256 * (n mod 256))) + le_value bs)"
    by (intro canon_add_cong refl) (simp_all only: canon_pow even_numeral if_True if_False simp_thms)
  finally show ?thesis by (simp add: ac_simps)
qed

section \<open>Properties\<close>

text \<open>
  C99: The three algorithms compute the one's complement sum of RFC 1071, for any bytes at any address,
  aligned or not, of even or odd length; so the faster ones agree with the plain first one.
\<close>

theorem chksum_algorithms_agree:
  assumes "n < 2 ^ 16"
  shows "lwip_standard_chksum m a n = ones_sum (bytes_at m a n) \<and> lwip_standard_chksum_1 m a n = ones_sum (bytes_at m a n) \<and>
    lwip_standard_chksum_3 m a n = ones_sum (bytes_at m a n)"
  using assms by (simp add: ones_sum_canon lwip_standard_chksum_spec lwip_standard_chksum_1_spec lwip_standard_chksum_3_spec)

lemma bytes_at_five: "bytes_at m a 5 = [m a, m (a + 1), m (a + 2), m (a + 3), m (a + 4)]"
  by (simp add: bytes_at_def upt_rec numeral_eq_Suc)

theorem chksum_algorithms_agree_witness:
  "lwip_standard_chksum (\<lambda>a. of_nat a) 1001 5 = 0xD8C2 \<and> lwip_standard_chksum_3 (\<lambda>a. of_nat a) 1001 5 = 0xD8C2"
  using chksum_algorithms_agree [of 5 "\<lambda>a. of_nat a" 1001] by (simp add: bytes_at_five ones_add_def)

text \<open>
  C99: The checksum of a packet is that of its bytes, however the packet is split into pbufs: without and
  with the pseudo header that UDP and TCP put in front, the result is the complement of the one's
  complement sum of the whole sequence of bytes.
\<close>

theorem inet_chksum_pbuf_contiguous:
  assumes "packet s p ps" and "proto < 256" and "n < 2 ^ 16"
  shows "inet_chksum_pbuf p s = Some (complement16 (ones_sum (pdata s ps))) \<and>
    inet_chksum_pseudo p proto n src dest s = Some (complement16 (ones_sum (pseudo_header src dest proto n @ pdata s ps)))"
proof
  have c: "pchain (p_next s) p ps" "lens s ps < 2 ^ 16" using assms(1) by (simp_all add: packet_def)
  show "inet_chksum_pbuf p s = Some (complement16 (ones_sum (pdata s ps)))"
    using chksum_pbuf_loop_sum [OF c, of 0] by (auto simp: inet_chksum_pbuf_def ones_sum_canon)
  obtain acc' sw' where l: "chksum_pbuf_loop p (address_sum src dest) False s = Some (acc', sw')"
      "(if sw' then SWAP_BYTES_IN_WORD acc' else acc') = canon (address_sum src dest + le_value (pdata s ps))"
    using chksum_pbuf_loop_sum [OF c, of "address_sum src dest"] canon_le address_sum_canon by metis
  let ?x = "canon (unat src + unat dest + le_value (pdata s ps))" and ?h = "n div 256 + 256 * (n mod 256)"
  have x: "(if sw' then SWAP_BYTES_IN_WORD acc' else acc') = ?x" using l(2) by (simp add: address_sum_canon)
  have "n div 256 \<le> 255" "n mod 256 \<le> 255" using assms(3) mod_less_divisor [of 256 n] by (simp, linarith)
  then have h: "lwip_htons (u16_t proto) = 256 * proto" "lwip_htons n = ?h" "?h \<le> 65535"
    using assms(2) by (simp_all add: lwip_htons_def u16_t_def)
  then have "u32_add (u32_add ?x (256 * proto)) ?h = ?x + 256 * proto + ?h" "?x + 256 * proto + ?h < 2 ^ 32"
    using canon_le [of "unat src + unat dest + le_value (pdata s ps)"] assms(2) by (simp_all add: u32_add_small)
  then have "inet_chksum_pseudo p proto n src dest s = Some (complement16 (canon (?x + 256 * proto + ?h)))"
    using l(1) x h(1,2) by (simp add: inet_chksum_pseudo_def inet_cksum_pseudo_base_def fold_twice)
  also have "canon (?x + 256 * proto + ?h) = canon (unat src + unat dest + le_value (pdata s ps) + 256 * proto + ?h)"
    by (intro canon_add_cong refl) simp
  also have "\<dots> = ones_sum (pseudo_header src dest proto n @ pdata s ps)"
    by (simp only: ones_sum_canon pseudo_header_canon [OF assms(2,3)])
  finally show "inet_chksum_pseudo p proto n src dest s = Some (complement16 (ones_sum (pseudo_header src dest proto n @ pdata s ps)))" .
qed

lemma two_packets_data: "pdata two_packets [536891920, 536891392] = [32, 33, 16, 17]"
  by (simp add: two_packets_def pdata_def piece_def mem_at_board upt_rec)

theorem inet_chksum_pbuf_contiguous_witness:
  "inet_chksum_pbuf 536891920 two_packets = Some 0xCDCF \<and> inet_chksum_pseudo 536891920 17 4 0x0100007F 0x0100007F two_packets = Some 0xB5D1"
  using inet_chksum_pbuf_contiguous [OF two_packets_ok(2), where proto = 17 and n = 4 and src = "0x0100007F" and dest = "0x0100007F"] unfolding two_packets_data
  by (simp add: ones_add_def complement16_def pseudo_header_def bytes_of_def)

lemma bytes_at_add: "bytes_at m a (i + j) = bytes_at m a i @ bytes_at m (a + i) j"
  using upt_add_eq_append [of a "a + i" j] by (simp add: bytes_at_def add.assoc)

lemma bytes_at_cong: "\<forall>x. a \<le> x \<and> x < a + n \<longrightarrow> m' x = m x \<Longrightarrow> bytes_at m' a n = bytes_at m a n"
  by (simp add: bytes_at_def)

text \<open>
  C99: A checksum verifies. Let the two bytes of the checksum field, at an even place of a header, be
  zero and the checksum of the header be stored there in host order, as the code does. Then the
  checksum of the whole is zero, which is what the receiver tests; for every content of the header.
\<close>

theorem inet_chksum_verifies:
  assumes "n < 2 ^ 16" and "k + 1 < n" and "even k" and "m (a + k) = 0" and "m (a + k + 1) = 0"
  shows "let c = inet_chksum m a n; m' = m(a + k := of_nat (c mod 256), a + k + 1 := of_nat (c div 256)) in inet_chksum m' a n = 0"
proof -
  define v where "v = le_value (bytes_at m a n)"
  define c where "c = inet_chksum m a n"
  define m' where "m' = m(a + k := of_nat (c mod 256), a + k + 1 := of_nat (c div 256))"
  have c: "c = 65535 - canon v" "c \<le> 65535"
    using canon_le [of v] by (simp_all add: c_def v_def inet_chksum_def complement16_def lwip_standard_chksum_spec [OF assms(1)])
  have n: "n = k + (2 + (n - k - 2))" using assms(2) by simp
  let ?post = "bytes_at m (a + k + 2) (n - k - 2)"
  have split: "bytes_at f a n = bytes_at f a k @ [f (a + k), f (a + k + 1)] @ bytes_at f (a + k + 2) (n - k - 2)" for f
    by (subst n, unfold bytes_at_add) (simp add: numeral_2_eq_2)
  have "bytes_at m' a k = bytes_at m a k" "bytes_at m' (a + k + 2) (n - k - 2) = ?post"
    by (rule bytes_at_cong, simp add: m'_def)+
  then have b: "bytes_at m' a n = bytes_at m a k @ [of_nat (c mod 256), of_nat (c div 256)] @ ?post" using split [of m'] by (simp add: m'_def)
  have two: "unat (of_nat (c mod 256) :: u8) + 256 * unat (of_nat (c div 256) :: u8) = c"
  proof -
    have "c div 256 < 256" using c(2) by simp
    then show ?thesis unfolding u8_of_nat by simp
  qed
  have "le_value (bytes_at m' a n) = v + 256 ^ k * c"
    unfolding b v_def split [of m] le_value_append assms(4,5)
    using two by (simp add: bytes_at_def algebra_simps del: of_nat_mod)
  also have "canon \<dots> = canon (canon v + c)" using canon_pow [of k c] assms(3) by (intro canon_add_cong) simp_all
  also have "\<dots> = 65535" using c(1) canon_le [of v] by (simp add: canon_id)
  finally have "inet_chksum m' a n = 0" by (simp add: inet_chksum_def complement16_def lwip_standard_chksum_spec [OF assms(1)])
  then show ?thesis unfolding Let_def m'_def c_def .
qed

theorem inet_chksum_verifies_witness:
  "inet_chksum ((\<lambda>a. if a < 102 then of_nat a else 0)(102 := 0x9B, 103 := 0x9A)) 100 5 = 0"
proof -
  let ?m = "\<lambda>a. if a < 102 then of_nat a else 0 :: u8"
  have "inet_chksum ?m 100 5 = 0x9A9B" 
    using lwip_standard_chksum_spec [of 5 ?m 100] by (simp add: inet_chksum_def complement16_def bytes_at_five canon_def)
  then show ?thesis using inet_chksum_verifies [of 5 2 ?m 100] by simp
qed

end
