(* ===== verification/Ip4_Addr.thy ===== *)
theory Ip4_Addr
  imports Inet_Chksum
begin

text \<open>
  \<open>LWIP/src/core/ipv4/ip4_addr.c\<close>: IPv4 addresses, their textual form and tests on them. A string is a
  list of characters; its end, or a character 0 in it, is the terminating zero of C. An address is the
  32-bit word that holds its four bytes in network order, so the first byte is the least significant one.
\<close>

section \<open>Definitions\<close>

definition lwip_htonl :: "u32 \<Rightarrow> u32" where
  "lwip_htonl n = (push_bit 24 (n AND 0xff) OR push_bit 8 (n AND 0xff00)) OR (drop_bit 8 (n AND 0xff0000) OR drop_bit 24 (n AND 0xff000000))"

definition lwip_isdigit :: "nat \<Rightarrow> bool" where "lwip_isdigit c \<longleftrightarrow> 48 \<le> c \<and> c \<le> 57"
definition lwip_islower :: "nat \<Rightarrow> bool" where "lwip_islower c \<longleftrightarrow> 97 \<le> c \<and> c \<le> 122"
definition lwip_isxdigit :: "nat \<Rightarrow> bool" where
  "lwip_isxdigit c \<longleftrightarrow> lwip_isdigit c \<or> (97 \<le> c \<and> c \<le> 102) \<or> (65 \<le> c \<and> c \<le> 70)"
definition lwip_isspace :: "nat \<Rightarrow> bool" where
  "lwip_isspace c \<longleftrightarrow> c = 32 \<or> c = 12 \<or> c = 10 \<or> c = 13 \<or> c = 9 \<or> c = 11"

text \<open>The character a pointer into a string points to.\<close>

fun char_at :: "string \<Rightarrow> nat" where
  "char_at [] = 0"
| "char_at (ch # s) = of_char ch"

text \<open>The inner loop of \<open>ip4addr_aton\<close> reads the digits of one part.\<close>

fun aton_digits :: "nat \<Rightarrow> u32 \<Rightarrow> string \<Rightarrow> u32 \<times> string" where
  "aton_digits base val [] = (val, [])"
| "aton_digits base val (ch # s) =
     (let c = of_char ch
      in if lwip_isdigit c
         then (if base = 8 \<and> 8 \<le> c - 48 then (val, ch # s)
               else aton_digits base (val * of_nat base + of_nat (c - 48)) s)
         else if base = 16 \<and> lwip_isxdigit c
         then aton_digits base (push_bit 4 val OR of_nat (c + 10 - (if lwip_islower c then 97 else 65))) s
         else (val, ch # s))"

text \<open>One part with its base: a leading \<open>0x\<close> means hexadecimal, a leading \<open>0\<close> octal.\<close>

definition aton_part :: "string \<Rightarrow> u32 \<times> string" where
  "aton_part s =
     (if char_at s = 48
      then (let s1 = tl s
            in if char_at s1 = 120 \<or> char_at s1 = 88 then aton_digits 16 0 (tl s1) else aton_digits 8 0 s1)
      else aton_digits 10 0 s)"

text \<open>The outer loop; \<open>k\<close> parts may still be ended by a dot.\<close>

fun aton_loop :: "nat \<Rightarrow> u32 list \<Rightarrow> string \<Rightarrow> (u32 list \<times> u32 \<times> string) option" where
  "aton_loop k parts s =
     (if \<not> lwip_isdigit (char_at s) then None
      else (case aton_part s of (val, s1) \<Rightarrow>
              if char_at s1 = 46
              then (case k of 0 \<Rightarrow> None | Suc k1 \<Rightarrow> aton_loop k1 (parts @ [val]) (tl s1))
              else Some (parts, val, s1)))"

definition ip4addr_aton :: "string \<Rightarrow> u32 option" where
  "ip4addr_aton cp = do {
     (parts, val, s) \<leftarrow> aton_loop 3 [] cp;
     if char_at s \<noteq> 0 \<and> \<not> lwip_isspace (char_at s) then None
     else do {
       v \<leftarrow> (case parts of
               [] \<Rightarrow> Some val
             | [a] \<Rightarrow> (if 0xffffff < val then None else if 0xff < a then None else Some (val OR push_bit 24 a))
             | [a, b] \<Rightarrow> (if 0xffff < val then None else if 0xff < a \<or> 0xff < b then None
                         else Some (val OR (push_bit 24 a OR push_bit 16 b)))
             | [a, b, c] \<Rightarrow> (if 0xff < val then None else if 0xff < a \<or> 0xff < b \<or> 0xff < c then None
                            else Some (val OR (push_bit 24 a OR push_bit 16 b OR push_bit 8 c)))
             | _ \<Rightarrow> None);
       Some (lwip_htonl v)
     }
   }"

definition ipaddr_addr :: "string \<Rightarrow> u32" where
  "ipaddr_addr cp = (case ip4addr_aton cp of Some a \<Rightarrow> a | None \<Rightarrow> 0xffffffff)"

text \<open>Printing: the digits of a byte come in reverse order; every character is put with a check of the buffer.\<close>

fun octet_digits :: "nat \<Rightarrow> nat list" where
  "octet_digits n = (if n div 10 = 0 then [n mod 10] else n mod 10 # octet_digits (n div 10))"

definition ntoa_put :: "nat \<Rightarrow> string option \<Rightarrow> char \<Rightarrow> string option" where
  "ntoa_put buflen r ch = (case r of None \<Rightarrow> None | Some buf \<Rightarrow> if buflen \<le> length buf then None else Some (buf @ [ch]))"

definition ntoa_octet :: "nat \<Rightarrow> string option \<Rightarrow> nat \<Rightarrow> string option" where
  "ntoa_octet buflen r n = ntoa_put buflen (foldl (ntoa_put buflen) r (map (\<lambda>d. char_of (48 + d)) (rev (octet_digits n)))) (char_of (46 :: nat))"

definition ip4addr_ntoa_r :: "u32 \<Rightarrow> nat \<Rightarrow> string option" where
  "ip4addr_ntoa_r addr buflen = map_option butlast (foldl (ntoa_octet buflen) (Some []) (map unat (bytes_of addr)))"

definition ip4addr_ntoa :: "u32 \<Rightarrow> string option" where
  "ip4addr_ntoa addr = ip4addr_ntoa_r addr 16"

definition ip4_addr_isbroadcast_u32 :: "bool \<Rightarrow> u32 \<Rightarrow> u32 \<Rightarrow> u32 \<Rightarrow> bool" where
  "ip4_addr_isbroadcast_u32 flag_broadcast netif_addr netif_mask addr =
     (if NOT addr = 0 \<or> addr = 0 then True
      else if \<not> flag_broadcast then False
      else if addr = netif_addr then False
      else if addr AND netif_mask = netif_addr AND netif_mask \<and> addr AND NOT netif_mask = 0xffffffff AND NOT netif_mask then True
      else False)"

text \<open>The two loops over the bits of a network mask, from bit \<open>k - 1\<close> down.\<close>

fun mask_rest :: "nat \<Rightarrow> u32 \<Rightarrow> bool" where
  "mask_rest 0 nm = True"
| "mask_rest (Suc k) nm = (if bit nm k then False else mask_rest k nm)"

fun mask_ones :: "nat \<Rightarrow> u32 \<Rightarrow> bool" where
  "mask_ones 0 nm = True"
| "mask_ones (Suc k) nm = (if bit nm k then mask_ones k nm else mask_rest (Suc k) nm)"

definition ip4_addr_netmask_valid :: "u32 \<Rightarrow> bool" where
  "ip4_addr_netmask_valid netmask = mask_ones 32 (lwip_htonl netmask)"

section \<open>Byte order\<close>

lemma byte_masks:
  "(0xff :: u32) = mask 8" "(0xff00 :: u32) = push_bit 8 (mask 8)" "(0xff0000 :: u32) = push_bit 16 (mask 8)" "(0xff000000 :: u32) = push_bit 24 (mask 8)"
  by (simp_all add: mask_eq_exp_minus_1 push_bit_eq_mult)

lemma octant: "n < 32 \<Longrightarrow> (n < 8 \<Longrightarrow> P) \<Longrightarrow> (8 \<le> n \<Longrightarrow> n < 16 \<Longrightarrow> P) \<Longrightarrow> (16 \<le> n \<Longrightarrow> n < 24 \<Longrightarrow> P) \<Longrightarrow> (24 \<le> n \<Longrightarrow> n \<le> 31 \<Longrightarrow> P) \<Longrightarrow> P" for n :: nat
  by linarith

lemma lwip_htonl_bit: "n < 32 \<Longrightarrow> bit (lwip_htonl w) n \<longleftrightarrow> bit w (8 * (3 - n div 8) + n mod 8)"
proof (elim octant)
  assume "8 \<le> n" "n < 16"
  moreover from this have "n div 8 = 1" by auto
  ultimately show ?thesis unfolding lwip_htonl_def byte_masks by (auto simp: bit_simps modulo_nat_def)
next
  assume "16 \<le> n" "n < 24"
  moreover from this have "n div 8 = 2" by auto
  ultimately show ?thesis unfolding lwip_htonl_def byte_masks by (auto simp: bit_simps modulo_nat_def)
next
  assume "24 \<le> n" "n \<le> 31"
  moreover from this have "n div 8 = 3" by auto
  ultimately show ?thesis unfolding lwip_htonl_def byte_masks by (auto simp: bit_simps modulo_nat_def)
qed (auto simp: lwip_htonl_def byte_masks bit_simps)

lemma lwip_htonl_twice: "lwip_htonl (lwip_htonl w) = w"
proof (rule bit_word_eqI)
  fix n assume "n < LENGTH(32)"
  then have n: "n < 32" by simp
  let ?m = "8 * (3 - n div 8) + n mod 8"
  have "n mod 8 < 8" "n div 8 < 4" using n by simp_all
  then have "?m < 32" "?m div 8 = 3 - n div 8" "?m mod 8 = n mod 8" by simp_all
  moreover have "8 * (3 - (3 - n div 8)) + n mod 8 = n" using \<open>n div 8 < 4\<close> by simp
  ultimately show "bit (lwip_htonl (lwip_htonl w)) n = bit w n" using n by (simp add: lwip_htonl_bit)
qed

text \<open>The address put together from its four bytes.\<close>

lemma address_assembled:
  "lwip_htonl (drop_bit 24 w OR (push_bit 24 (w AND 0xff) OR push_bit 16 (drop_bit 8 w AND 0xff) OR push_bit 8 (drop_bit 16 w AND 0xff))) = w"
proof (rule bit_word_eqI)
  fix n assume "n < LENGTH(32)"
  then have "n < 32" by simp
  then show "bit (lwip_htonl (drop_bit 24 w OR (push_bit 24 (w AND 0xff) OR push_bit 16 (drop_bit 8 w AND 0xff) OR push_bit 8 (drop_bit 16 w AND 0xff)))) n = bit w n"
    unfolding lwip_htonl_def byte_masks by (elim octant) (auto simp: bit_simps dest: bit_imp_le_length)
qed

lemma byte_of_word: "of_nat (unat (of_nat (unat w div 2 ^ k) :: u8)) = drop_bit k w AND 0xff" for w :: u32
proof -
  have "unat (take_bit 8 (drop_bit k w)) = take_bit 8 (drop_bit k (unat w))" by (simp only: unsigned_take_bit_eq unsigned_drop_bit_eq take_bit_nat_eq_self [OF unsigned_less])
  then have "unat (drop_bit k w AND 0xff) = unat w div 2 ^ k mod 256"
    unfolding byte_masks take_bit_eq_mask [symmetric] by (simp add: drop_bit_nat_def take_bit_nat_def)
  then show ?thesis by (simp add: word_unat_eq_iff unat_of_nat)
qed

section \<open>Printing\<close>

declare octet_digits.simps [simp del]

abbreviation octet :: "nat \<Rightarrow> string" where
  "octet n \<equiv> map (\<lambda>d. char_of (48 + d)) (rev (octet_digits n))"

lemma octet_digits_length: "n < 256 \<Longrightarrow> length (octet_digits n) \<le> 3"
  by (simp add: octet_digits.simps [of n] octet_digits.simps [of "n div 10"] octet_digits.simps [of "n div 10 div 10"])

lemma ntoa_put_all: "length buf + length cs \<le> buflen \<Longrightarrow> foldl (ntoa_put buflen) (Some buf) cs = Some (buf @ cs)"
  by (induction cs arbitrary: buf) (simp_all add: ntoa_put_def)

lemma ntoa_octet_puts:
  assumes "length buf + 4 \<le> buflen" and "n < 256"
  shows "ntoa_octet buflen (Some buf) n = Some (buf @ octet n @ ''.'') \<and> length (octet n) \<le> 3"
proof -
  have "length (octet n) \<le> 3" using octet_digits_length [OF assms(2)] by simp
  moreover from this have "foldl (ntoa_put buflen) (Some buf) (octet n) = Some (buf @ octet n)" using assms(1) by (intro ntoa_put_all) simp
  moreover have "char_of (46 :: nat) = CHR ''.''" by code_simp
  ultimately show ?thesis using assms(1) by (simp add: ntoa_octet_def ntoa_put_def)
qed

lemma ip4addr_ntoa_r_spec:
  assumes "16 \<le> buflen" and "bytes_of w = [a, b, c, d]"
  shows "ip4addr_ntoa_r w buflen = Some (octet (unat a) @ ''.'' @ octet (unat b) @ ''.'' @ octet (unat c) @ ''.'' @ octet (unat d))"
proof -
  have lt: "unat x < 256" for x :: u8 using unat_u8 [of x] by simp
  let ?s1 = "octet (unat a) @ ''.''" and ?s2 = "octet (unat b) @ ''.''" and ?s3 = "octet (unat c) @ ''.''" and ?s4 = "octet (unat d) @ ''.''"
  have 1: "ntoa_octet buflen (Some []) (unat a) = Some ?s1" "length ?s1 \<le> 4" using ntoa_octet_puts [of "[]" buflen, OF _ lt] assms(1) by simp_all
  have 2: "ntoa_octet buflen (Some ?s1) (unat b) = Some (?s1 @ ?s2)" "length (?s1 @ ?s2) \<le> 8"
    using ntoa_octet_puts [of ?s1 buflen, OF _ lt [of b]] 1(2) assms(1) by simp_all
  have 3: "ntoa_octet buflen (Some (?s1 @ ?s2)) (unat c) = Some ((?s1 @ ?s2) @ ?s3)" "length ((?s1 @ ?s2) @ ?s3) \<le> 12"
    using ntoa_octet_puts [of "?s1 @ ?s2" buflen, OF _ lt [of c]] 2(2) assms(1) by simp_all
  have 4: "ntoa_octet buflen (Some ((?s1 @ ?s2) @ ?s3)) (unat d) = Some (((?s1 @ ?s2) @ ?s3) @ ?s4)"
    using ntoa_octet_puts [of "(?s1 @ ?s2) @ ?s3" buflen, OF _ lt [of d]] 3(2) assms(1) by simp
  show ?thesis unfolding ip4addr_ntoa_r_def assms(2) list.map foldl_Cons foldl_Nil 1(1) 2(1) 3(1) 4 by (simp add: butlast_append)
qed

section \<open>Parsing\<close>

lemma of_char_digit: "d < 10 \<Longrightarrow> of_char (char_of (48 + d)) = 48 + d" for d :: nat
  by simp

lemma octet_Cons: "octet n = (if n div 10 = 0 then [char_of (48 + n mod 10)] else octet (n div 10) @ [char_of (48 + n mod 10)])"
  by (subst octet_digits.simps) simp

text \<open>The printed digits of a byte read back as the byte.\<close>

lemma aton_digits_octet: "aton_digits 10 0 (octet n @ rest) = aton_digits 10 (of_nat n) rest"
proof (induction n arbitrary: rest rule: octet_digits.induct)
  case (1 n)
  have d: "aton_digits 10 v (char_of (48 + n mod 10) # rest) = aton_digits 10 (v * 10 + of_nat (n mod 10)) rest" for v
  proof -
    have "n mod 10 < 10" by simp
    then have "n mod 10 \<le> 9" by linarith
    then show ?thesis using of_char_digit [of "n mod 10"] by (simp add: lwip_isdigit_def Let_def)
  qed
  show ?case
  proof (cases "n div 10 = 0")
    case True
    then have "n mod 10 = n" by simp
    then show ?thesis using d [of 0] True by (subst octet_Cons) simp
  next
    case False
    have "of_nat (n div 10) * 10 + of_nat (n mod 10) = (of_nat (n div 10 * 10 + n mod 10) :: u32)" by (simp only: of_nat_add of_nat_mult of_nat_numeral)
    then have "of_nat (n div 10) * 10 + of_nat (n mod 10) = (of_nat n :: u32)" by simp
    then show ?thesis using "1.IH" [OF False, of "char_of (48 + n mod 10) # rest"] d False by (subst octet_Cons) simp
  qed
qed

lemma aton_digits_end: "char_at rest = 0 \<or> char_at rest = 46 \<Longrightarrow> aton_digits base v rest = (v, rest)"
  by (cases rest) (auto simp: lwip_isdigit_def lwip_isxdigit_def)

lemma octet_first: "n \<noteq> 0 \<Longrightarrow> 48 < char_at (octet n @ rest) \<and> char_at (octet n @ rest) \<le> 57"
proof (induction n arbitrary: rest rule: octet_digits.induct)
  case (1 n)
  show ?case
  proof (cases "n div 10 = 0")
    case True
    then have "octet n = [char_of (48 + n)]" by (subst octet_Cons) simp
    then show ?thesis using True 1(2) of_char_digit [of n] by simp
  next
    case False
    then have "octet n = octet (n div 10) @ [char_of (48 + n mod 10)]" by (subst octet_Cons) simp
    then show ?thesis using "1.IH" [OF False False] by simp
  qed
qed

lemma aton_part_octet:
  assumes "char_at rest = 0 \<or> char_at rest = 46"
  shows "aton_part (octet n @ rest) = (of_nat n, rest)" "lwip_isdigit (char_at (octet n @ rest))"
proof -
  have "aton_part (octet n @ rest) = (of_nat n, rest) \<and> lwip_isdigit (char_at (octet n @ rest))"
  proof (cases "n = 0")
    case True
    then have "octet n = [char_of (48 :: nat)]" by (simp add: octet_digits.simps [of 0])
    then show ?thesis using True assms aton_digits_end [OF assms] by (auto simp: aton_part_def lwip_isdigit_def)
  next
    case False
    then show ?thesis using octet_first [OF False, of rest] aton_digits_octet [of n rest] aton_digits_end [OF assms]
      by (simp add: aton_part_def lwip_isdigit_def)
  qed
  then show "aton_part (octet n @ rest) = (of_nat n, rest)" "lwip_isdigit (char_at (octet n @ rest))" by simp_all
qed

declare aton_loop.simps [simp del]

lemma aton_loop_dot: "aton_loop (Suc k) parts (octet n @ CHR ''.'' # rest) = aton_loop k (parts @ [of_nat n]) rest"
  using aton_part_octet [of "CHR ''.'' # rest" n] by (subst aton_loop.simps) simp

lemma aton_loop_last: "aton_loop k parts (octet n) = Some (parts, of_nat n, [])"
  using aton_part_octet [of "[]" n] by (subst aton_loop.simps) simp

section \<open>Properties\<close>

text \<open>
  C99: An address survives printing and parsing. A buffer of sixteen characters is always enough for
  \<open>ip4addr_ntoa_r\<close>, and \<open>ip4addr_aton\<close> reads the printed text back as the same address.
\<close>

theorem ip4addr_roundtrip:
  assumes "16 \<le> buflen"
  shows "\<exists>str. ip4addr_ntoa_r addr buflen = Some str \<and> length str < 16 \<and> ip4addr_aton str = Some addr"
proof -
  obtain a b c d where e: "bytes_of addr = [a, b, c, d]" by (simp add: bytes_of_def)
  let ?n = "\<lambda>x :: u8. of_nat (unat x) :: u32"
  have v: "?n a = addr AND 0xff" "?n b = drop_bit 8 addr AND 0xff" "?n c = drop_bit 16 addr AND 0xff" "?n d = drop_bit 24 addr"
  proof -
    have "a = of_nat (unat addr div 2 ^ 0)" "b = of_nat (unat addr div 2 ^ 8)" "c = of_nat (unat addr div 2 ^ 16)" "d = of_nat (unat addr div 2 ^ 24)"
      using e by (simp_all add: bytes_of_def)
    moreover have "drop_bit 24 addr AND 0xff = drop_bit 24 addr"
      unfolding byte_masks by (rule bit_word_eqI) (auto simp: bit_simps dest: bit_imp_le_length)
    ultimately show "?n a = addr AND 0xff" "?n b = drop_bit 8 addr AND 0xff" "?n c = drop_bit 16 addr AND 0xff" "?n d = drop_bit 24 addr"
      using byte_of_word [of addr 0] byte_of_word [of addr 8] byte_of_word [of addr 16] byte_of_word [of addr 24] by (simp_all only: drop_bit_0 id_apply)
  qed
  have small: "\<not> 0xff < ?n x" for x
  proof -
    have "unat (?n x) = unat x" unfolding unat_of_nat using unat_u8 [of x] by simp
    then show ?thesis unfolding word_less_nat_alt using unat_u8 [of x] by simp
  qed
  let ?s = "octet (unat a) @ ''.'' @ octet (unat b) @ ''.'' @ octet (unat c) @ ''.'' @ octet (unat d)"
  have "aton_loop 3 [] ?s = Some ([?n a, ?n b, ?n c], ?n d, [])"
    by (simp add: numeral_3_eq_3 aton_loop_dot aton_loop_last)
  then have "ip4addr_aton ?s = Some (lwip_htonl (?n d OR (push_bit 24 (?n a) OR push_bit 16 (?n b) OR push_bit 8 (?n c))))"
    using small by (simp add: ip4addr_aton_def)
  then have "ip4addr_aton ?s = Some addr" unfolding v address_assembled .
  moreover have l: "length (octet (unat x)) \<le> 3" for x :: u8 using octet_digits_length [of "unat x"] unat_u8 [of x] by simp
  moreover have "length ?s < 16" using l [of a] l [of b] l [of c] l [of d] by simp
  ultimately show ?thesis using ip4addr_ntoa_r_spec [OF assms e] by blast
qed

theorem ip4addr_roundtrip_witness:
  "\<exists>str. ip4addr_ntoa_r 0x0A01A8C0 16 = Some str \<and> length str < 16 \<and> ip4addr_aton str = Some 0x0A01A8C0"
  by (rule ip4addr_roundtrip) simp

section \<open>Network masks\<close>

lemma mask_rest_iff: "mask_rest k w \<longleftrightarrow> (\<forall>i < k. \<not> bit w i)"
  by (induction k) (auto simp: less_Suc_eq)

lemma mask_ones_iff: "mask_ones k w \<longleftrightarrow> (\<exists>j \<le> k. \<forall>i < k. bit w i \<longleftrightarrow> j \<le> i)"
proof (induction k)
  case (Suc k)
  show ?case
  proof (cases "bit w k")
    case True
    have "(\<exists>j \<le> Suc k. \<forall>i < Suc k. bit w i \<longleftrightarrow> j \<le> i) \<longleftrightarrow> (\<exists>j \<le> k. \<forall>i < k. bit w i \<longleftrightarrow> j \<le> i)"
      using True by (auto simp: less_Suc_eq le_Suc_eq)
    then show ?thesis using True Suc.IH by simp
  next
    case False
    have "(\<exists>j \<le> Suc k. \<forall>i < Suc k. bit w i \<longleftrightarrow> j \<le> i) \<longleftrightarrow> (\<forall>i < Suc k. \<not> bit w i)"
    proof
      assume "\<exists>j \<le> Suc k. \<forall>i < Suc k. bit w i \<longleftrightarrow> j \<le> i"
      then obtain j where j: "j \<le> Suc k" "\<forall>i < Suc k. bit w i \<longleftrightarrow> j \<le> i" by blast
      then have "j = Suc k" using False by (metis le_SucE lessI)
      then show "\<forall>i < Suc k. \<not> bit w i" using j(2) by auto
    next
      assume "\<forall>i < Suc k. \<not> bit w i"
      then show "\<exists>j \<le> Suc k. \<forall>i < Suc k. bit w i \<longleftrightarrow> j \<le> i" by (intro exI [of _ "Suc k"]) auto
    qed
    then show ?thesis using False mask_rest_iff [of "Suc k" w] by simp
  qed
qed simp

text \<open>
  C99: \<open>ip4_addr_netmask_valid\<close> accepts exactly the network masks: a word that in host order has ones from
  the top bit down to some place and zeros below it.
\<close>

theorem netmask_valid_iff:
  "ip4_addr_netmask_valid netmask \<longleftrightarrow> (\<exists>j \<le> 32. netmask = lwip_htonl (NOT (mask j)))"
proof -
  have "(\<forall>i < 32. bit w i \<longleftrightarrow> j \<le> i) \<longleftrightarrow> w = NOT (mask j)" for w :: u32 and j
    by (auto simp: bit_eq_iff bit_simps dest: bit_imp_le_length)
  then have "ip4_addr_netmask_valid netmask \<longleftrightarrow> (\<exists>j \<le> 32. lwip_htonl netmask = NOT (mask j))"
    unfolding ip4_addr_netmask_valid_def mask_ones_iff by simp
  then show ?thesis using lwip_htonl_twice by metis
qed

end
