(* ===== verification/Lwip_Timeouts.thy ===== *)
theory Lwip_Timeouts
  imports Ip4_Addr
begin

text \<open>
  \<open>LWIP/src/core/timeouts.c\<close>: the timeouts of the network stack, a list ordered by due time on a 32-bit
  clock of milliseconds that wraps around. The linked list is the list of its elements. A handler is
  \<open>lwip_cyclic_timer\<close>, whose argument is an index into the table \<open>lwip_cyclic_timers\<close>, or
  \<open>tcpip_tcp_timer\<close>, or a function of another file; the calls of handlers are recorded in order, and the
  functions of other files do nothing else here. The elements come from the pool \<open>MEMP_SYS_TIMEOUT\<close>, of
  which \<open>free_timeouts\<close> are free; taking one from the empty pool stops the system. What \<open>sys_now\<close> returns is
  an argument of each operation, and \<open>tcp_pcbs\<close> tells whether a TCP connection exists.
\<close>

section \<open>State and operations\<close>

datatype handler = Lwip_Cyclic_Timer | Tcpip_Tcp_Timer | Other_Handler nat

record timeo =
  time :: u32
  h :: handler
  arg :: nat

record timeouts =
  next_timeout :: "timeo list"
  current_timeout_due_time :: u32
  free_timeouts :: nat
  tcpip_tcp_timer_active :: bool
  tcp_pcbs :: bool
  called :: "(handler \<times> nat) list"

definition LWIP_MAX_TIMEOUT :: u32 where "LWIP_MAX_TIMEOUT = 0x7fffffff"

definition TIME_LESS_THAN :: "u32 \<Rightarrow> u32 \<Rightarrow> bool" where
  "TIME_LESS_THAN t compare_to \<longleftrightarrow> LWIP_MAX_TIMEOUT < t - compare_to"

text \<open>The intervals of \<open>tcp_tmr\<close>, \<open>etharp_tmr\<close>, \<open>dhcp_coarse_tmr\<close> and \<open>dhcp_fine_tmr\<close>.\<close>

definition TCP_TMR_INTERVAL :: u32 where "TCP_TMR_INTERVAL = 250"

definition lwip_cyclic_timers :: "u32 list" where
  "lwip_cyclic_timers = [TCP_TMR_INTERVAL, 1000, 60000, 500]"

text \<open>The loop inserts behind the first element whose successor is later, or at the end.\<close>

fun timeout_insert :: "timeo \<Rightarrow> timeo list \<Rightarrow> timeo list" where
  "timeout_insert t [] = [t]"
| "timeout_insert t (x # xs) = (if TIME_LESS_THAN (time t) (time x) then t # x # xs else x # timeout_insert t xs)"

definition sys_timeout_abs :: "u32 \<Rightarrow> handler \<Rightarrow> nat \<Rightarrow> timeouts \<Rightarrow> timeouts option" where
  "sys_timeout_abs abs_time hn a s =
     (case free_timeouts s of
        0 \<Rightarrow> None
      | Suc n \<Rightarrow> Some (s\<lparr>free_timeouts := n, next_timeout := timeout_insert \<lparr>time = abs_time, h = hn, arg = a\<rparr> (next_timeout s)\<rparr>))"

definition sys_timeout :: "u32 \<Rightarrow> u32 \<Rightarrow> handler \<Rightarrow> nat \<Rightarrow> timeouts \<Rightarrow> timeouts option" where
  "sys_timeout now msecs hn a s = do {
     LWIP_ASSERT (msecs \<le> 0xffffffff div 4);
     sys_timeout_abs (now + msecs) hn a s
   }"

text \<open>A cyclic timer re-arms itself one interval after it was due, or from now on when it is late.\<close>

definition lwip_cyclic_timer :: "u32 \<Rightarrow> nat \<Rightarrow> timeouts \<Rightarrow> timeouts option" where
  "lwip_cyclic_timer now a s =
     (let interval_ms = lwip_cyclic_timers ! a;
          next_timeout_time = current_timeout_due_time s + interval_ms
      in if TIME_LESS_THAN next_timeout_time now
         then sys_timeout_abs (now + interval_ms) Lwip_Cyclic_Timer a s
         else sys_timeout_abs next_timeout_time Lwip_Cyclic_Timer a s)"

definition tcpip_tcp_timer :: "u32 \<Rightarrow> timeouts \<Rightarrow> timeouts option" where
  "tcpip_tcp_timer now s =
     (if tcp_pcbs s then sys_timeout now TCP_TMR_INTERVAL Tcpip_Tcp_Timer 0 s
      else Some (s\<lparr>tcpip_tcp_timer_active := False\<rparr>))"

definition tcp_timer_needed :: "u32 \<Rightarrow> timeouts \<Rightarrow> timeouts option" where
  "tcp_timer_needed now s =
     (if \<not> tcpip_tcp_timer_active s \<and> tcp_pcbs s
      then sys_timeout now TCP_TMR_INTERVAL Tcpip_Tcp_Timer 0 (s\<lparr>tcpip_tcp_timer_active := True\<rparr>)
      else Some s)"

text \<open>The table is started from its second entry on: the TCP timer is started when it is needed.\<close>

fun timeouts_init_loop :: "u32 \<Rightarrow> nat list \<Rightarrow> timeouts \<Rightarrow> timeouts option" where
  "timeouts_init_loop now [] s = Some s"
| "timeouts_init_loop now (i # is') s =
     Option.bind (sys_timeout now (lwip_cyclic_timers ! i) Lwip_Cyclic_Timer i s) (timeouts_init_loop now is')"

definition sys_timeouts_init :: "u32 \<Rightarrow> timeouts \<Rightarrow> timeouts option" where
  "sys_timeouts_init now s = timeouts_init_loop now [1..<length lwip_cyclic_timers] s"

definition call_handler :: "u32 \<Rightarrow> handler \<Rightarrow> nat \<Rightarrow> timeouts \<Rightarrow> timeouts option" where
  "call_handler now hn a s =
     (let s1 = s\<lparr>called := called s @ [(hn, a)]\<rparr>
      in case hn of
           Lwip_Cyclic_Timer \<Rightarrow> lwip_cyclic_timer now a s1
         | Tcpip_Tcp_Timer \<Rightarrow> tcpip_tcp_timer now s1
         | Other_Handler _ \<Rightarrow> Some s1)"

partial_function (option) sys_check_timeouts :: "u32 \<Rightarrow> timeouts \<Rightarrow> timeouts option" where
  "sys_check_timeouts now s =
     (case next_timeout s of
        [] \<Rightarrow> Some s
      | t # ts \<Rightarrow>
          (if TIME_LESS_THAN now (time t) then Some s
           else Option.bind
                  (call_handler now (h t) (arg t)
                     (s\<lparr>next_timeout := ts, current_timeout_due_time := time t, free_timeouts := free_timeouts s + 1\<rparr>))
                  (sys_check_timeouts now)))"

fun untimeout_list :: "handler \<Rightarrow> nat \<Rightarrow> timeo list \<Rightarrow> timeo list option" where
  "untimeout_list hn a [] = None"
| "untimeout_list hn a (t # ts) =
     (if h t = hn \<and> arg t = a then Some ts else map_option ((#) t) (untimeout_list hn a ts))"

definition sys_untimeout :: "handler \<Rightarrow> nat \<Rightarrow> timeouts \<Rightarrow> timeouts" where
  "sys_untimeout hn a s =
     (case untimeout_list hn a (next_timeout s) of
        Some ts \<Rightarrow> s\<lparr>next_timeout := ts, free_timeouts := free_timeouts s + 1\<rparr>
      | None \<Rightarrow> s)"

definition sys_restart_timeouts :: "u32 \<Rightarrow> timeouts \<Rightarrow> timeouts" where
  "sys_restart_timeouts now s =
     (case next_timeout s of
        [] \<Rightarrow> s
      | t # _ \<Rightarrow> s\<lparr>next_timeout := map (\<lambda>x. x\<lparr>time := (time x - time t) + now\<rparr>) (next_timeout s)\<rparr>)"

definition sys_timeouts_sleeptime :: "u32 \<Rightarrow> timeouts \<Rightarrow> u32 option" where
  "sys_timeouts_sleeptime now s =
     (case next_timeout s of
        [] \<Rightarrow> Some 0xffffffff
      | t # _ \<Rightarrow> if TIME_LESS_THAN (time t) now then Some 0
                 else do { let ret = time t - now; LWIP_ASSERT (ret \<le> LWIP_MAX_TIMEOUT); Some ret })"

section \<open>Comparison of times\<close>

lemma TIME_LESS_THAN_exact:
  assumes "t \<le> c + 2 ^ 31" "c < t + 2 ^ 31"
  shows "TIME_LESS_THAN (of_nat c) (of_nat t) \<longleftrightarrow> c < (t :: nat)"
proof (cases "c < t")
  case True
  define d where "d = t - c"
  have d: "0 < d" "d \<le> 2 ^ 31" "t = c + d"
    using True assms by (auto simp: d_def)
  have "of_nat (2 ^ 32 - d) + of_nat d = (of_nat (2 ^ 32) :: u32)"
    using d by (subst of_nat_add [symmetric]) simp
  then have "of_nat (2 ^ 32 - d) = (- of_nat d :: u32)"
    by (simp add: eq_neg_iff_add_eq_0)
  then have "(of_nat c - of_nat t :: u32) = of_nat (2 ^ 32 - d)"
    by (simp add: d(3))
  moreover have "unat (of_nat (2 ^ 32 - d) :: u32) = 2 ^ 32 - d"
    unfolding unat_of_nat take_bit_eq_mod by (rule mod_less) (use d in simp)
  ultimately have "unat (of_nat c - of_nat t :: u32) = 2 ^ 32 - d"
    by (simp only:)
  then show ?thesis
    using True d(1,2) by (simp add: TIME_LESS_THAN_def LWIP_MAX_TIMEOUT_def word_less_nat_alt)
next
  case False
  define d where "d = c - t"
  have d: "d < 2 ^ 31" "c = t + d"
    using False assms by (auto simp: d_def)
  have "unat (of_nat c - of_nat t :: u32) = d"
    using d by (simp add: unat_of_nat take_bit_eq_mod)
  then show ?thesis
    using False d by (simp add: TIME_LESS_THAN_def LWIP_MAX_TIMEOUT_def word_less_nat_alt)
qed

section \<open>True times\<close>

text \<open>
  The times of the abstract view are natural numbers that never wrap. A pending timeout is its due time
  with the handler and its argument; \<open>near\<close> says that the list is ordered and that no due time is \<open>2 ^ 30\<close>
  milliseconds (twelve days) or more away from now.
\<close>

type_synonym pending = "(nat \<times> handler \<times> nat) list"

fun enc :: "nat \<times> handler \<times> nat \<Rightarrow> timeo" where
  "enc (d, hn, a) = \<lparr>time = of_nat d, h = hn, arg = a\<rparr>"

definition near_time :: "nat \<Rightarrow> nat \<Rightarrow> bool" where
  "near_time T d \<longleftrightarrow> T < d + 2 ^ 30 \<and> d < T + 2 ^ 30"

definition near :: "nat \<Rightarrow> pending \<Rightarrow> bool" where
  "near T P \<longleftrightarrow> sorted (map fst P) \<and> (\<forall>x \<in> set P. near_time T (fst x))"

definition due_insert :: "nat \<times> handler \<times> nat \<Rightarrow> pending \<Rightarrow> pending" where
  "due_insert x P = takeWhile (\<lambda>y. fst y \<le> fst x) P @ x # dropWhile (\<lambda>y. fst y \<le> fst x) P"

lemma time_enc [simp]: "time (enc x) = of_nat (fst x)" and h_enc [simp]: "h (enc x) = fst (snd x)"
  and arg_enc [simp]: "arg (enc x) = snd (snd x)"
  by (cases x; simp)+

lemma due_insert_simps [simp]:
  "due_insert x [] = [x]"
  "due_insert x (y # P) = (if fst x < fst y then x # y # P else y # due_insert x P)"
  by (auto simp: due_insert_def)

lemma mset_due_insert [simp]: "mset (due_insert x P) = add_mset x (mset P)"
  by (induction P) auto

lemma set_due_insert [simp]: "set (due_insert x P) = insert x (set P)"
  by (induction P) auto

lemma length_due_insert [simp]: "length (due_insert x P) = Suc (length P)"
  by (induction P) auto

lemma filter_due_insert [simp]: "\<not> p x \<Longrightarrow> filter p (due_insert x P) = filter p P"
  by (induction P) auto

lemma sorted_due_insert: "sorted (map fst P) \<Longrightarrow> sorted (map fst (due_insert x P))"
  by (induction P) auto

lemma near_due_insert [intro]: "near T P \<Longrightarrow> near_time T (fst x) \<Longrightarrow> near T (due_insert x P)"
  by (auto simp: near_def sorted_due_insert)

lemma near_tl: "near T (x # P) \<Longrightarrow> near T P"
  by (simp add: near_def)

lemma near_less_than:
  "near_time T c \<Longrightarrow> near_time T t \<Longrightarrow> TIME_LESS_THAN (of_nat c) (of_nat t) \<longleftrightarrow> c < t"
  by (rule TIME_LESS_THAN_exact) (auto simp: near_time_def)

lemma near_time_self [simp]: "near_time T T"
  by (simp add: near_time_def)

lemma timeout_insert_enc:
  assumes "near T P" "near_time T (fst x)"
  shows "timeout_insert (enc x) (map enc P) = map enc (due_insert x P)"
  using assms(1)
proof (induction P)
  case (Cons y P)
  then have "near_time T (fst y)"
    by (simp add: near_def)
  from near_less_than [OF assms(2) this] Cons near_tl [OF Cons.prems] show ?case
    by simp
qed simp

section \<open>What a check preserves\<close>

fun other :: "handler \<times> nat \<Rightarrow> bool" where
  "other (Other_Handler n, a) = True"
| "other (hn, a) = False"

fun cyclic :: "handler \<times> nat \<Rightarrow> bool" where
  "cyclic (Lwip_Cyclic_Timer, a) = True"
| "cyclic (hn, a) = False"

fun tcp_timer :: "handler \<times> nat \<Rightarrow> bool" where
  "tcp_timer (Tcpip_Tcp_Timer, a) = True"
| "tcp_timer (hn, a) = False"

text \<open>
  \<open>timers T s P\<close>: at the true time \<open>T\<close> the state holds the pending timeouts \<open>P\<close>; cyclic timers refer to
  the table, and the TCP timer is pending exactly when it is recorded as active.
\<close>

definition timers :: "nat \<Rightarrow> timeouts \<Rightarrow> pending \<Rightarrow> bool" where
  "timers T s P \<longleftrightarrow>
     next_timeout s = map enc P \<and> near T P
     \<and> (\<forall>x \<in> set P. cyclic (snd x) \<longrightarrow> snd (snd x) < length lwip_cyclic_timers)
     \<and> length (filter (\<lambda>x. tcp_timer (snd x)) P) = of_bool (tcpip_tcp_timer_active s)"

text \<open>What the check neither loses, duplicates nor reorders, whichever timeouts it has served so far.\<close>

definition served_others :: "nat \<Rightarrow> timeouts \<Rightarrow> pending \<Rightarrow> (handler \<times> nat) list" where
  "served_others T s P = filter other (called s) @ map snd (filter (\<lambda>x. fst x \<le> T \<and> other (snd x)) P)"

definition same_view :: "nat \<Rightarrow> timeouts \<Rightarrow> pending \<Rightarrow> timeouts \<Rightarrow> pending \<Rightarrow> bool" where
  "same_view T s P s1 P1 \<longleftrightarrow>
     served_others T s1 P1 = served_others T s P
     \<and> filter (\<lambda>x. T < fst x \<and> other (snd x)) P1 = filter (\<lambda>x. T < fst x \<and> other (snd x)) P
     \<and> mset (map snd (filter (\<lambda>x. cyclic (snd x)) P1)) = mset (map snd (filter (\<lambda>x. cyclic (snd x)) P))
     \<and> free_timeouts s1 + length P1 = free_timeouts s + length P \<and> tcp_pcbs s1 = tcp_pcbs s"

definition cycle :: "nat \<Rightarrow> nat" where "cycle a = unat (lwip_cyclic_timers ! a)"

fun weight :: "nat \<Rightarrow> nat \<times> handler \<times> nat \<Rightarrow> nat" where
  "weight T (d, hn, a) =
     (if T < d then 0 else if hn = Lwip_Cyclic_Timer \<and> d + cycle a = T then 2 else 1)"

lemma cycle_table: "a < length lwip_cyclic_timers \<Longrightarrow> cycle a \<in> {250, 1000, 60000, 500}"
proof -
  assume "a < length lwip_cyclic_timers"
  then have "lwip_cyclic_timers ! a \<in> set lwip_cyclic_timers"
    by (rule nth_mem)
  then show ?thesis
    by (auto simp: cycle_def lwip_cyclic_timers_def TCP_TMR_INTERVAL_def)
qed

lemma cycle_bounds: "a < length lwip_cyclic_timers \<Longrightarrow> 0 < cycle a \<and> cycle a < 2 ^ 30"
  using cycle_table [of a] by auto

lemma of_nat_cycle: "of_nat (cycle a) = lwip_cyclic_timers ! a"
  by (simp add: cycle_def)

lemma tcp_due_insert:
  "length (filter (\<lambda>x. tcp_timer (snd x)) (due_insert y P)) =
    length (filter (\<lambda>x. tcp_timer (snd x)) P) + of_bool (tcp_timer (snd y))"
  by (induction P) auto

lemma mset_filter_due_insert:
  "mset (filter p (due_insert x P)) = (if p x then add_mset x (mset (filter p P)) else mset (filter p P))"
  by (simp add: mset_filter)

lemma sum_weight_due_insert: "sum_list (map (weight T) (due_insert x P)) = weight T x + sum_list (map (weight T) P)"
  by (induction P) auto

lemma sys_timeout_abs_enc:
  assumes "next_timeout s = map enc P" "near T P" "near_time T d" "free_timeouts s = Suc n"
  shows "sys_timeout_abs (of_nat d) hn a s = Some (s\<lparr>free_timeouts := n, next_timeout := map enc (due_insert (d, hn, a) P)\<rparr>)"
  using timeout_insert_enc [OF assms(2), of "(d, hn, a)"] assms by (simp add: sys_timeout_abs_def)

lemma lwip_cyclic_timer_enc:
  assumes "next_timeout s = map enc P" "near T P" "current_timeout_due_time s = of_nat d" "near_time T d" "d \<le> T"
    and "free_timeouts s = Suc n" "a < length lwip_cyclic_timers"
  shows "lwip_cyclic_timer (of_nat T) a s =
    Some (s\<lparr>free_timeouts := n,
      next_timeout := map enc (due_insert (if d + cycle a < T then T + cycle a else d + cycle a, Lwip_Cyclic_Timer, a) P)\<rparr>)"
proof -
  have c: "cycle a < 2 ^ 30" "near_time T (d + cycle a)" "near_time T (T + cycle a)"
    using assms(4,5) cycle_bounds [OF assms(7)] by (auto simp: near_time_def)
  have "TIME_LESS_THAN (of_nat (d + cycle a)) (of_nat T) \<longleftrightarrow> d + cycle a < T"
    by (rule near_less_than) (use c in auto)
  then show ?thesis
    using sys_timeout_abs_enc [OF assms(1,2) c(2) assms(6), of Lwip_Cyclic_Timer a]
      sys_timeout_abs_enc [OF assms(1,2) c(3) assms(6), of Lwip_Cyclic_Timer a] assms(3)
    by (simp add: lwip_cyclic_timer_def Let_def of_nat_cycle)
qed

lemma tcpip_tcp_timer_enc:
  assumes "next_timeout s = map enc P" "near T P" "free_timeouts s = Suc n"
  shows "tcpip_tcp_timer (of_nat T) s =
    (if tcp_pcbs s then Some (s\<lparr>free_timeouts := n, next_timeout := map enc (due_insert (T + 250, Tcpip_Tcp_Timer, 0) P)\<rparr>)
     else Some (s\<lparr>tcpip_tcp_timer_active := False\<rparr>))"
proof -
  have "near_time T (T + 250)"
    by (simp add: near_time_def)
  from sys_timeout_abs_enc [OF assms(1,2) this assms(3), of Tcpip_Tcp_Timer 0] show ?thesis
    by (simp add: tcpip_tcp_timer_def sys_timeout_def TCP_TMR_INTERVAL_def LWIP_ASSERT_def)
qed

abbreviation (input) popped :: "timeouts \<Rightarrow> timeo \<Rightarrow> timeo list \<Rightarrow> timeouts" where
  "popped s t ts \<equiv> s\<lparr>next_timeout := ts, current_timeout_due_time := time t, free_timeouts := free_timeouts s + 1\<rparr>"

lemma check_step:
  assumes "timers T s (x # P)" "fst x \<le> T"
  obtains s1 P1 where
    "call_handler (of_nat T) (h (enc x)) (arg (enc x)) (popped s (enc x) (map enc P)) = Some s1"
    "timers T s1 P1" "same_view T s (x # P) s1 P1"
    "sum_list (map (weight T) P1) < sum_list (map (weight T) (x # P))"
proof -
  obtain d hn a where x: "x = (d, hn, a)"
    by (cases x) auto
  have n: "near T P" "near_time T d" and dT: "d \<le> T"
    using assms x by (auto simp: timers_def near_def)
  have nd: "next_timeout (popped s (enc x) (map enc P)\<lparr>called := c\<rparr>) = map enc P" for c
    by simp
  show ?thesis
  proof (cases hn)
    case (Other_Handler m)
    show ?thesis
      by (rule that [of "popped s (enc x) (map enc P)\<lparr>called := called s @ [(hn, a)]\<rparr>" P])
        (use assms x n dT Other_Handler in \<open>auto simp: call_handler_def timers_def same_view_def served_others_def\<close>)
  next
    case Lwip_Cyclic_Timer
    then have a: "a < length lwip_cyclic_timers"
      using assms(1) x by (simp add: timers_def)
    define e where "e = (if d + cycle a < T then T + cycle a else d + cycle a)"
    have e: "near_time T e" "T \<le> e" "e = T \<longleftrightarrow> d + cycle a = T" "0 < cycle a"
      using n(2) dT cycle_bounds [OF a] by (auto simp: e_def near_time_def)
    have w: "weight T (e, Lwip_Cyclic_Timer, a) < weight T (d, Lwip_Cyclic_Timer, a)"
      using e dT by (auto simp: le_less)
    let ?s = "popped s (enc x) (map enc P)\<lparr>called := called s @ [(hn, a)]\<rparr>"
    show ?thesis
      by (rule that [of "?s\<lparr>free_timeouts := free_timeouts s, next_timeout := map enc (due_insert (e, Lwip_Cyclic_Timer, a) P)\<rparr>"
            "due_insert (e, Lwip_Cyclic_Timer, a) P"])
        (use assms x n dT Lwip_Cyclic_Timer a e w lwip_cyclic_timer_enc [of ?s P T d "free_timeouts s" a] in
          \<open>auto simp: call_handler_def timers_def same_view_def served_others_def sum_weight_due_insert e_def [symmetric]
            simp del: weight.simps intro!: near_due_insert\<close>)
  next
    case Tcpip_Tcp_Timer
    let ?s = "popped s (enc x) (map enc P)\<lparr>called := called s @ [(hn, a)]\<rparr>"
    show ?thesis
    proof (cases "tcp_pcbs s")
      case True
      show ?thesis
        by (rule that [of "?s\<lparr>free_timeouts := free_timeouts s, next_timeout := map enc (due_insert (T + 250, Tcpip_Tcp_Timer, 0) P)\<rparr>"
              "due_insert (T + 250, Tcpip_Tcp_Timer, 0) P"])
          (use assms x n dT Tcpip_Tcp_Timer True tcpip_tcp_timer_enc [of ?s P T "free_timeouts s"] in
            \<open>auto simp: call_handler_def timers_def same_view_def served_others_def sum_weight_due_insert near_time_def
              tcp_due_insert intro!: near_due_insert\<close>)
    next
      case False
      show ?thesis
        by (rule that [of "?s\<lparr>tcpip_tcp_timer_active := False\<rparr>" P])
          (use assms x n dT Tcpip_Tcp_Timer False tcpip_tcp_timer_enc [of ?s P T "free_timeouts s"] in
            \<open>auto simp: call_handler_def timers_def same_view_def served_others_def of_bool_def split: if_splits\<close>)
    qed
  qed
qed

lemma same_view_trans: "same_view T s P s1 P1 \<Longrightarrow> same_view T s1 P1 s2 P2 \<Longrightarrow> same_view T s P s2 P2"
  by (simp add: same_view_def)

lemma timers_less_than:
  "timers T s (x # P) \<Longrightarrow> TIME_LESS_THAN (of_nat T) (of_nat (fst x)) \<longleftrightarrow> T < fst x"
  by (rule near_less_than [of T]) (auto simp: timers_def near_def)

lemma check_ends:
  assumes "timers T s P"
  shows "\<exists>s1 P1. sys_check_timeouts (of_nat T) s = Some s1 \<and> timers T s1 P1 \<and> same_view T s P s1 P1 \<and> (\<forall>x \<in> set P1. T < fst x)"
  using assms
proof (induction "sum_list (map (weight T) P)" arbitrary: s P rule: less_induct)
  case less
  show ?case
  proof (cases P)
    case Nil
    with less.prems show ?thesis
      by (auto simp: sys_check_timeouts.simps timers_def same_view_def)
  next
    case (Cons x Q)
    have nt: "next_timeout s = enc x # map enc Q"
      using less.prems Cons by (simp add: timers_def)
    have lt: "TIME_LESS_THAN (of_nat T) (of_nat (fst x)) \<longleftrightarrow> T < fst x"
      using less.prems Cons timers_less_than by simp
    show ?thesis
    proof (cases "T < fst x")
      case True
      then have "\<forall>y \<in> set P. T < fst y"
        using less.prems Cons by (auto simp: timers_def near_def)
      then show ?thesis
        using less.prems True lt nt by (subst sys_check_timeouts.simps) (auto simp: same_view_def)
    next
      case False
      obtain s1 P1 where
        c: "call_handler (of_nat T) (h (enc x)) (arg (enc x)) (popped s (enc x) (map enc Q)) = Some s1"
        and i: "timers T s1 P1" "same_view T s P s1 P1" "sum_list (map (weight T) P1) < sum_list (map (weight T) P)"
        using check_step [of T s x Q] less.prems Cons False by auto
      have "sys_check_timeouts (of_nat T) s = sys_check_timeouts (of_nat T) s1"
        by (subst sys_check_timeouts.simps) (use lt False nt c in simp)
      with less.hyps [OF i(3,1)] i(2) show ?thesis
        by (auto intro: same_view_trans)
    qed
  qed
qed

lemma check_others:
  assumes "timers T s P" "\<forall>x \<in> set P. other (snd x)"
  shows "\<exists>c. sys_check_timeouts (of_nat T) s =
    Some (s\<lparr>next_timeout := map enc (filter (\<lambda>x. T < fst x) P), current_timeout_due_time := c,
      free_timeouts := free_timeouts s + length (filter (\<lambda>x. fst x \<le> T) P),
      called := called s @ map snd (filter (\<lambda>x. fst x \<le> T) P)\<rparr>)"
  using assms
proof (induction P arbitrary: s)
  case Nil
  then show ?case
    by (intro exI [of _ "current_timeout_due_time s"], subst sys_check_timeouts.simps) (auto simp: timers_def)
next
  case (Cons x Q)
  have nt: "next_timeout s = enc x # map enc Q"
    using Cons.prems by (simp add: timers_def)
  note lt = timers_less_than [OF Cons.prems(1)]
  show ?case
  proof (cases "T < fst x")
    case True
    then have "filter (\<lambda>y. T < fst y) (x # Q) = x # Q" "filter (\<lambda>y. fst y \<le> T) (x # Q) = []"
      using Cons.prems(1) by (fastforce simp: timers_def near_def filter_id_conv filter_empty_conv)+
    then show ?thesis
      using True lt nt by (intro exI [of _ "current_timeout_due_time s"], subst sys_check_timeouts.simps) simp
  next
    case False
    obtain n a where x: "snd x = (Other_Handler n, a)"
      using Cons.prems(2) by (cases "snd x" rule: other.cases) auto
    let ?s = "popped s (enc x) (map enc Q)\<lparr>called := called s @ [snd x]\<rparr>"
    have "timers T ?s Q"
      using Cons.prems x by (auto simp: timers_def near_def)
    from Cons.IH [OF this] Cons.prems(2) x have
      "\<exists>c. sys_check_timeouts (of_nat T) ?s =
        Some (s\<lparr>next_timeout := map enc (filter (\<lambda>x. T < fst x) (x # Q)), current_timeout_due_time := c,
          free_timeouts := free_timeouts s + length (filter (\<lambda>x. fst x \<le> T) (x # Q)),
          called := called s @ map snd (filter (\<lambda>x. fst x \<le> T) (x # Q))\<rparr>)"
      using False by simp
    moreover have "sys_check_timeouts (of_nat T) s = sys_check_timeouts (of_nat T) ?s"
      by (subst sys_check_timeouts.simps) (use lt False nt x in \<open>simp add: call_handler_def\<close>)
    ultimately show ?thesis
      by simp
  qed
qed

section \<open>Sequences of requests\<close>

text \<open>The true time advances by \<open>Wait\<close>; every request sees the clock modulo \<open>2 ^ 32\<close>.\<close>

datatype request = Start nat nat nat | Cancel nat nat | Wait nat | Check | Restart

fun timeouts_request :: "request \<Rightarrow> nat \<times> timeouts \<Rightarrow> (nat \<times> timeouts) option" where
  "timeouts_request (Start ms n a) (T, s) = map_option (Pair T) (sys_timeout (of_nat T) (of_nat ms) (Other_Handler n) a s)"
| "timeouts_request (Cancel n a) (T, s) = Some (T, sys_untimeout (Other_Handler n) a s)"
| "timeouts_request (Wait dt) (T, s) = Some (T + dt, s)"
| "timeouts_request Check (T, s) = map_option (Pair T) (sys_check_timeouts (of_nat T) s)"
| "timeouts_request Restart (T, s) = Some (T, sys_restart_timeouts (of_nat T) s)"

fun timeouts_run :: "request list \<Rightarrow> nat \<times> timeouts \<Rightarrow> (nat \<times> timeouts) option" where
  "timeouts_run [] c = Some c"
| "timeouts_run (r # rs) c = Option.bind (timeouts_request r c) (timeouts_run rs)"

text \<open>The specification: an ordered list of due times that never wrap, and the calls made so far.\<close>

fun spec_request :: "request \<Rightarrow> nat \<times> pending \<times> (handler \<times> nat) list \<Rightarrow> nat \<times> pending \<times> (handler \<times> nat) list" where
  "spec_request (Start ms n a) (T, P, c) = (T, due_insert (T + ms, Other_Handler n, a) P, c)"
| "spec_request (Cancel n a) (T, P, c) =
     (T, takeWhile (\<lambda>x. snd x \<noteq> (Other_Handler n, a)) P @ tl (dropWhile (\<lambda>x. snd x \<noteq> (Other_Handler n, a)) P), c)"
| "spec_request (Wait dt) (T, P, c) = (T + dt, P, c)"
| "spec_request Check (T, P, c) = (T, filter (\<lambda>x. T < fst x) P, c @ map snd (filter (\<lambda>x. fst x \<le> T) P))"
| "spec_request Restart (T, P, c) = (T, map (\<lambda>x. (fst x - fst (hd P) + T, snd x)) P, c)"

text \<open>
  What a client must respect: delays up to the limit of the code, at most \<open>n\<close> pending timeouts, and no
  timeout left unserved for twelve days.
\<close>

fun spec_allows :: "nat \<Rightarrow> request \<Rightarrow> nat \<times> pending \<times> (handler \<times> nat) list \<Rightarrow> bool" where
  "spec_allows n (Start ms m a) (T, P, c) \<longleftrightarrow> ms < 2 ^ 30 \<and> length P < n"
| "spec_allows n (Wait dt) (T, P, c) \<longleftrightarrow> (\<forall>x \<in> set P. T + dt < fst x + 2 ^ 30)"
| "spec_allows n Restart (T, P, c) \<longleftrightarrow> (\<forall>x \<in> set P. fst x < fst (hd P) + 2 ^ 30)"
| "spec_allows n r c \<longleftrightarrow> True"

fun spec_run :: "nat \<Rightarrow> request list \<Rightarrow> nat \<times> pending \<times> (handler \<times> nat) list \<Rightarrow> (nat \<times> pending \<times> (handler \<times> nat) list) option" where
  "spec_run n [] c = Some c"
| "spec_run n (r # rs) c = (if spec_allows n r c then spec_run n rs (spec_request r c) else None)"

definition refines :: "nat \<Rightarrow> nat \<times> timeouts \<Rightarrow> nat \<times> pending \<times> (handler \<times> nat) list \<Rightarrow> bool" where
  "refines n c a \<longleftrightarrow>
     (case (c, a) of ((T, s), (U, P, l)) \<Rightarrow>
        T = U \<and> timers T s P \<and> (\<forall>x \<in> set P. other (snd x)) \<and> called s = l \<and> free_timeouts s + length P = n)"

lemma untimeout_list_enc:
  "untimeout_list hn a (map enc P) =
    (if (hn, a) \<in> snd ` set P
     then Some (map enc (takeWhile (\<lambda>x. snd x \<noteq> (hn, a)) P @ tl (dropWhile (\<lambda>x. snd x \<noteq> (hn, a)) P))) else None)"
  by (induction P) (auto simp: prod_eq_iff image_iff split: option.splits)

lemma refines_sub:
  "near T P \<Longrightarrow> sorted (map fst Q) \<Longrightarrow> set Q \<subseteq> set P \<Longrightarrow> near T Q"
  by (auto simp: near_def)

lemma others_no_tcp: "\<forall>x \<in> set P. other (snd x) \<Longrightarrow> filter (\<lambda>x. tcp_timer (snd x)) P = []"
  and others_no_cyclic: "\<forall>x \<in> set P. other (snd x) \<Longrightarrow> x \<in> set P \<Longrightarrow> \<not> cyclic (snd x)"
proof -
  have o: "\<not> tcp_timer k \<and> \<not> cyclic k" if "other k" for k
    using that by (cases k rule: other.cases) auto
  then show "\<forall>x \<in> set P. other (snd x) \<Longrightarrow> filter (\<lambda>x. tcp_timer (snd x)) P = []"
    by (simp add: filter_empty_conv)
  show "\<forall>x \<in> set P. other (snd x) \<Longrightarrow> x \<in> set P \<Longrightarrow> \<not> cyclic (snd x)"
    using o by blast
qed

text \<open>With timeouts of other files only, the state relation needs the list, the order and the clock.\<close>

lemma refines_iff:
  "refines n (T, s) (U, P, l) \<longleftrightarrow>
     T = U \<and> next_timeout s = map enc P \<and> near T P \<and> (\<forall>x \<in> set P. other (snd x)) \<and> \<not> tcpip_tcp_timer_active s
     \<and> called s = l \<and> free_timeouts s + length P = n"
  using others_no_tcp [of P] others_no_cyclic [of P] by (auto simp: refines_def timers_def)

lemma set_cancel: "set (takeWhile p P @ tl (dropWhile p P)) \<subseteq> set P"
proof -
  have "set (tl Q) \<subseteq> set Q" for Q :: "'a list"
    by (cases Q) auto
  from this [of "dropWhile p P"] show ?thesis
    using set_takeWhileD [of _ p P] set_dropWhileD [of _ p P] by auto
qed

lemma sorted_cancel: "sorted (map fst P) \<Longrightarrow> sorted (map fst (takeWhile p P @ tl (dropWhile p P)))"
proof (induction P)
  case (Cons x P)
  then show ?case
    using set_cancel [of p P] by auto
qed simp

lemma near_later: "near T P \<Longrightarrow> (\<forall>x \<in> set P. T + dt < fst x + 2 ^ 30) \<Longrightarrow> near (T + dt) P"
  by (auto simp: near_def near_time_def)

lemma near_restart:
  assumes "near T P" "\<forall>x \<in> set P. fst x < fst (hd P) + 2 ^ 30"
  shows "near T (map (\<lambda>x. (fst x - fst (hd P) + T, snd x)) P)"
proof -
  have "sorted (map (\<lambda>x. fst x - b + T) P)" for b
    using assms(1) by (auto simp: near_def sorted_map intro!: sorted_wrt_mono_rel [where P = "\<lambda>x y. fst x \<le> fst y"])
  then show ?thesis
    using assms by (auto simp: near_def near_time_def comp_def)
qed

lemma start_refines:
  assumes r: "refines n (T, s) (T, P, l)" and a: "spec_allows n (Start ms m a) (T, P, l)"
  shows "\<exists>s1. sys_timeout (of_nat T) (of_nat ms) (Other_Handler m) a s = Some s1
    \<and> refines n (T, s1) (spec_request (Start ms m a) (T, P, l))"
proof -
  have "near_time T (T + ms)"
    using a by (simp add: near_time_def)
  moreover obtain f where "free_timeouts s = Suc f"
    using r a by (cases "free_timeouts s") (auto simp: refines_iff)
  moreover have "(of_nat ms :: u32) \<le> 0x3fffffff"
    using a by (simp add: word_le_nat_alt unat_of_nat take_bit_eq_mod)
  ultimately show ?thesis
    using r sys_timeout_abs_enc [of s P T "T + ms" f "Other_Handler m" a]
    by (auto simp: sys_timeout_def LWIP_ASSERT_def refines_iff intro!: near_due_insert)
qed

lemma check_refines:
  assumes "refines n (T, s) (T, P, l)"
  shows "\<exists>s1. sys_check_timeouts (of_nat T) s = Some s1 \<and> refines n (T, s1) (spec_request Check (T, P, l))"
proof -
  have "near T (filter (\<lambda>x. T < fst x) P)"
    by (rule refines_sub [of T P]) (use assms in \<open>auto simp: refines_iff near_def sorted_filter\<close>)
  moreover have "length (filter (\<lambda>x. fst x \<le> T) P) + length (filter (\<lambda>x. T < fst x) P) = length P"
    using sum_length_filter_compl [of "\<lambda>x. fst x \<le> T" P] by (simp add: not_le)
  moreover obtain c where "sys_check_timeouts (of_nat T) s =
    Some (s\<lparr>next_timeout := map enc (filter (\<lambda>x. T < fst x) P), current_timeout_due_time := c,
      free_timeouts := free_timeouts s + length (filter (\<lambda>x. fst x \<le> T) P),
      called := called s @ map snd (filter (\<lambda>x. fst x \<le> T) P)\<rparr>)" (is "_ = Some ?s")
    using check_others [of T s P] assms by (auto simp: refines_def)
  moreover have "refines n (T, ?s) (spec_request Check (T, P, l))"
    using assms calculation by (auto simp: refines_iff)
  ultimately show ?thesis
    by blast
qed

lemma request_refines:
  assumes "refines n (T, s) (T, P, l)" "spec_allows n r (T, P, l)"
  shows "\<exists>c. timeouts_request r (T, s) = Some c \<and> refines n c (spec_request r (T, P, l))"
proof (cases r)
  case (Start ms m a)
  then show ?thesis
    using start_refines [of n T s P l ms m a] assms by auto
next
  case (Cancel m a)
  let ?Q = "takeWhile (\<lambda>x. snd x \<noteq> (Other_Handler m, a)) P @ tl (dropWhile (\<lambda>x. snd x \<noteq> (Other_Handler m, a)) P)"
  have n: "near T ?Q"
    by (rule refines_sub [OF _ sorted_cancel set_cancel]) (use assms in \<open>auto simp: refines_iff near_def\<close>)
  show ?thesis
  proof (cases "(Other_Handler m, a) \<in> snd ` set P")
    case True
    then have "length P = Suc (length ?Q)"
      by (induction P) auto
    with True n assms set_cancel [of "\<lambda>x. snd x \<noteq> (Other_Handler m, a)" P] show ?thesis
      by (auto simp: Cancel sys_untimeout_def untimeout_list_enc refines_iff)
  next
    case False
    then have "?Q = P"
      by (induction P) auto
    with False assms show ?thesis
      by (auto simp: Cancel sys_untimeout_def untimeout_list_enc refines_iff)
  qed
next
  case (Wait dt)
  then show ?thesis
    using near_later [of T P dt] assms by (auto simp: refines_iff)
next
  case Check
  then show ?thesis
    using check_refines [OF assms(1)] by auto
next
  case Restart
  show ?thesis
  proof (cases P)
    case (Cons x Q)
    have le: "fst x \<le> fst y" if "y \<in> set P" for y
      using assms(1) Cons that by (auto simp: refines_iff near_def)
    have "enc y\<lparr>time := (time (enc y) - of_nat (fst x)) + of_nat T\<rparr> = enc (fst y - fst x + T, snd y)" if "y \<in> set P" for y
      using le [OF that] by (cases y) (simp add: of_nat_diff)
    then have "map (\<lambda>t. t\<lparr>time := (time t - of_nat (fst x)) + of_nat T\<rparr>) (map enc P) =
      map enc (map (\<lambda>y. (fst y - fst x + T, snd y)) P)"
      by (simp del: time_enc)
    then have m: "map (\<lambda>t. t\<lparr>time := (time t - of_nat (fst x)) + of_nat T\<rparr>) (enc x # map enc Q) =
      map enc (map (\<lambda>y. (fst y - fst x + T, snd y)) P)"
      by (simp only: Cons list.map)
    have nt: "next_timeout s = enc x # map enc Q"
      using assms(1) Cons by (simp add: refines_iff)
    have "sys_restart_timeouts (of_nat T) s = s\<lparr>next_timeout := map enc (map (\<lambda>y. (fst y - fst x + T, snd y)) P)\<rparr>"
      by (simp only: sys_restart_timeouts_def nt list.case time_enc m)
    moreover have "near T (map (\<lambda>y. (fst y - fst x + T, snd y)) P)"
      using near_restart [of T P] assms Cons by (simp add: refines_iff Restart)
    ultimately show ?thesis
      using assms Cons by (auto simp: Restart refines_iff)
  qed (use assms in \<open>auto simp: Restart refines_iff sys_restart_timeouts_def\<close>)
qed

lemma timeouts_run_refines:
  assumes "refines n c a" "spec_run n rs a = Some b"
  shows "\<exists>d. timeouts_run rs c = Some d \<and> refines n d b"
  using assms
proof (induction rs arbitrary: c a)
  case (Cons r rs)
  obtain T s P l where ca: "c = (T, s)" "a = (T, P, l)"
    using Cons.prems(1) by (cases c; cases a) (auto simp: refines_def)
  have al: "spec_allows n r a" "spec_run n rs (spec_request r a) = Some b"
    using Cons.prems(2) by (auto split: if_splits)
  obtain d where "timeouts_request r c = Some d" "refines n d (spec_request r a)"
    using request_refines [of n T s P l r] Cons.prems(1) al(1) unfolding ca by auto
  with Cons.IH [OF this(2) al(2)] show ?case
    by simp
qed simp

lemma sleeptime_enc:
  assumes "refines n (T, s) (T, P, l)"
  shows "sys_timeouts_sleeptime (of_nat T) s = Some (case P of [] \<Rightarrow> 0xffffffff | x # _ \<Rightarrow> of_nat (fst x - T))"
proof (cases P)
  case Nil
  with assms show ?thesis
    by (simp add: refines_iff sys_timeouts_sleeptime_def)
next
  case (Cons x Q)
  then have nt: "next_timeout s = enc x # map enc Q" and n: "near_time T (fst x)"
    using assms by (auto simp: refines_iff near_def)
  have lt: "TIME_LESS_THAN (of_nat (fst x)) (of_nat T) \<longleftrightarrow> fst x < T"
    by (rule near_less_than [OF n near_time_self])
  show ?thesis
  proof (cases "fst x < T")
    case False
    then have e: "(of_nat (fst x) - of_nat T :: u32) = of_nat (fst x - T)"
      by (simp add: of_nat_diff)
    have b: "fst x - T < 2 ^ 30"
      using n False by (simp add: near_time_def less_diff_conv2)
    then have "unat (of_nat (fst x - T) :: u32) = fst x - T"
      unfolding unat_of_nat take_bit_eq_mod by (intro mod_less) simp
    with b have "(of_nat (fst x - T) :: u32) \<le> LWIP_MAX_TIMEOUT"
      by (simp add: word_le_nat_alt LWIP_MAX_TIMEOUT_def del: of_nat_diff)
    with False lt nt e show ?thesis
      by (simp add: Cons sys_timeouts_sleeptime_def LWIP_ASSERT_def Let_def)
  qed (use lt nt Cons in \<open>simp add: sys_timeouts_sleeptime_def\<close>)
qed

section \<open>Properties\<close>

text \<open>
  C99: A check of the timeouts always returns, also across the wrap-around of the clock and with timers
  that re-arm themselves during the check. It calls exactly the timeouts of other files that are due, in
  the order of their due times, and keeps those that are not; no cyclic timer is lost or duplicated, no
  pool element leaks, the TCP timer is still pending exactly when it is active, and nothing that remains
  is due.
\<close>

theorem sys_check_timeouts_exact:
  assumes "timers T s P"
  shows "\<exists>s1 P1. sys_check_timeouts (of_nat T) s = Some s1 \<and> timers T s1 P1
    \<and> (\<forall>x \<in> set P1. T < fst x)
    \<and> filter other (called s1) = filter other (called s) @ map snd (filter (\<lambda>x. fst x \<le> T \<and> other (snd x)) P)
    \<and> filter (\<lambda>x. other (snd x)) P1 = filter (\<lambda>x. T < fst x \<and> other (snd x)) P
    \<and> mset (map snd (filter (\<lambda>x. cyclic (snd x)) P1)) = mset (map snd (filter (\<lambda>x. cyclic (snd x)) P))
    \<and> free_timeouts s1 + length P1 = free_timeouts s + length P"
proof -
  obtain s1 P1 where c: "sys_check_timeouts (of_nat T) s = Some s1" "timers T s1 P1" "\<forall>x \<in> set P1. T < fst x"
    and v: "same_view T s P s1 P1"
    using check_ends [OF assms] by blast
  have "filter (\<lambda>x. fst x \<le> T \<and> other (snd x)) P1 = []"
    using c(3) by (auto simp: filter_empty_conv)
  moreover have "filter (\<lambda>x. T < fst x \<and> other (snd x)) P1 = filter (\<lambda>x. other (snd x)) P1"
    using c(3) by (auto intro: filter_cong)
  ultimately show ?thesis
    using c v by (intro exI [of _ s1] exI [of _ P1]) (simp add: same_view_def served_others_def)
qed

text \<open>
  The ARP timer two milliseconds late and a timeout of another file due, just after the clock wrapped.
\<close>

theorem sys_check_timeouts_exact_witness:
  "\<exists>s1. sys_check_timeouts 1
      \<lparr>next_timeout = [\<lparr>time = 0xffffffff, h = Lwip_Cyclic_Timer, arg = 1\<rparr>, \<lparr>time = 0, h = Other_Handler 7, arg = 3\<rparr>],
       current_timeout_due_time = 0, free_timeouts = 10, tcpip_tcp_timer_active = False, tcp_pcbs = False, called = []\<rparr> = Some s1
    \<and> filter other (called s1) = [(Other_Handler 7, 3)]"
proof -
  let ?s = "\<lparr>next_timeout = [\<lparr>time = 0xffffffff, h = Lwip_Cyclic_Timer, arg = 1\<rparr>, \<lparr>time = 0, h = Other_Handler 7, arg = 3\<rparr>],
    current_timeout_due_time = 0, free_timeouts = 10, tcpip_tcp_timer_active = False, tcp_pcbs = False, called = []\<rparr>"
  have t: "timers 4294967297 ?s [(4294967295, Lwip_Cyclic_Timer, 1), (4294967296, Other_Handler 7, 3)]"
    by (simp add: timers_def near_def near_time_def lwip_cyclic_timers_def)
  have one: "(of_nat 4294967297 :: u32) = 1"
    by (simp add: word_unat_eq_iff)
  from sys_check_timeouts_exact [OF t, unfolded one] show ?thesis
    by auto
qed

text \<open>
  C99: The timeouts of the stack implement an ordered list on a clock that never wraps. After every
  allowed sequence of starts, cancellations, restarts, checks and passing time, the handlers called so
  far are those the specification calls, in its order and at its checks, the pending timeouts are its
  pending timeouts, and the sleep time is exactly the time until the next one is due.
\<close>

theorem timeouts_refine_ideal_clock:
  assumes "spec_run (free_timeouts s) rs (T, [], called s) = Some (T1, P1, calls)"
    and "next_timeout s = []" "\<not> tcpip_tcp_timer_active s"
  shows "\<exists>s1. timeouts_run rs (T, s) = Some (T1, s1) \<and> called s1 = calls \<and> next_timeout s1 = map enc P1
    \<and> sys_timeouts_sleeptime (of_nat T1) s1 = Some (case P1 of [] \<Rightarrow> 0xffffffff | x # _ \<Rightarrow> of_nat (fst x - T1))"
proof -
  have "refines (free_timeouts s) (T, s) (T, [], called s)"
    using assms by (simp add: refines_iff near_def)
  from timeouts_run_refines [OF this assms(1)] obtain s1 where
    "timeouts_run rs (T, s) = Some (T1, s1)" "refines (free_timeouts s) (T1, s1) (T1, P1, calls)"
    by (auto simp: refines_def)
  then show ?thesis
    using sleeptime_enc [of "free_timeouts s" T1 s1 P1 calls] by (auto simp: refines_iff)
qed

theorem timeouts_refine_ideal_clock_witness:
  "\<exists>s1. timeouts_run [Start 500 1 0, Start 200 2 0, Wait 300, Check, Start 100 3 0, Cancel 1 0, Wait 100, Check]
      (4294967000, \<lparr>next_timeout = [], current_timeout_due_time = 0, free_timeouts = 12, tcpip_tcp_timer_active = False,
        tcp_pcbs = False, called = []\<rparr>) = Some (4294967400, s1)
    \<and> called s1 = [(Other_Handler 2, 0), (Other_Handler 3, 0)]"
  using timeouts_refine_ideal_clock [of "\<lparr>next_timeout = [], current_timeout_due_time = 0, free_timeouts = 12,
    tcpip_tcp_timer_active = False, tcp_pcbs = False, called = []\<rparr>"
    "[Start 500 1 0, Start 200 2 0, Wait 300, Check, Start 100 3 0, Cancel 1 0, Wait 100, Check]" 4294967000 4294967400 "[]"
    "[(Other_Handler 2, 0), (Other_Handler 3, 0)]"]
  by (auto simp del: timeouts_run.simps)

end
