(* ===== verification/Spec2Isabelle.thy ===== *)
theory Spec2Isabelle
  imports Kernel_List Heap4 List_Space Kernel_Tasks Kernel_Ticks Kernel_Time Kernel_Control
    Kernel_Events Kernel_Queue Queue_Ring Queue_Wait Queue_Mutex
    Memory_Interface Lwip_Mem Pbuf Pbuf_Chain Pbuf_Data
    Eth_Driver Ethernetif Eth_Rings Eth_Frames Inet_Chksum Ip4_Addr Lwip_Timeouts
begin

text \<open>
  A verification of the software of the CH32V307 Ethernet demo: the FreeRTOS kernel as the demo
  configures it, and the parts of the lwIP network stack and of the demo's own Ethernet code that
  carry packets between the wire and the stack.

  \<^bold>\<open>The program.\<close> \<open>User/main.c\<close> starts the kernel with a few tasks; the kernel (\<open>FreeRTOS/\<close>) schedules them
  over its doubly linked lists, allocates from a heap of 16 KB and offers queues, semaphores and
  mutexes. \<open>LWIP_PORT/arch/sys_arch.c\<close> builds the mailboxes and locks of lwIP from these queues;
  \<open>LWIP_PORT/ethernetif.c\<close> moves frames between the DMA descriptors of \<open>ETH_Driver/\<close> and the packet
  buffers of \<open>LWIP/src/core/pbuf.c\<close>, which come from the pools of \<open>memp.c\<close> and the heap of \<open>mem.c\<close>.

  \<^bold>\<open>How the code is modelled.\<close> A C structure or the static variables of a file are a record; a store
  keeps each field of a structure as a function of its address, with \<open>0\<close> for \<open>NULL\<close>. An operation is a
  function from its arguments and the state to its result and the new state, of type \<open>option\<close> where it
  need not return: \<open>None\<close> means that an assertion stopped the system (\<open>configASSERT\<close> and \<open>LWIP_ASSERT\<close>
  loop forever), that a null pointer was followed, or that a loop does not end (loops whose end is not
  plain are \<open>partial_function (option)\<close>). A theorem that says an operation returns says that it is
  \<open>Some\<close>. No fuel is used. Machine integers are words where their wrap-around matters (ticks, queue
  counts, notification values), otherwise natural numbers with every conversion written out.

  \<^bold>\<open>The theories.\<close>
  \<^item> \<open>Prelude\<close>: word types, 32-bit arithmetic on naturals, list lemmas.
  \<^item> \<open>Kernel_List\<close> (\<open>list.c\<close>): the linked lists as pointer operations on a store; the ordered insertion,
    its round trip with removal, and the round-robin walk. \<open>List_Space\<close> abstracts the store to named
    sequences, which the scheduler uses, and shows that the pointer lists implement them.
  \<^item> \<open>Memory_Interface\<close>: the locale of an allocator and its clients, interpreted by both heaps.
    \<open>Heap4\<close> (\<open>heap_4.c\<close>): free list, first fit, splitting, coalescing, statistics.
  \<^item> \<open>Kernel_Tasks\<close> (\<open>tasks.c\<close>): the state of the scheduler and its operations. \<open>Kernel_Ticks\<close>: the
    scheduler invariant, the tick, the context switch, delays, suspension of the scheduler.
    \<open>Kernel_Time\<close>: time-outs and periodic delays against true time. \<open>Kernel_Control\<close>: priorities and
    their inheritance, suspension of tasks, notifications, deletion. \<open>Kernel_Events\<close>: event lists.
  \<^item> \<open>Kernel_Queue\<close> (\<open>queue.c\<close>): queues, semaphores and mutexes. \<open>Queue_Ring\<close>: the storage of a queue is a
    bounded double-ended queue (a locale, interpreted on the calls). \<open>Queue_Wait\<close>: blocked senders and
    receivers, locked queues and interrupts. \<open>Queue_Mutex\<close>: semaphores count, mutexes exclude, inherit
    priorities and nest.
  \<^item> \<open>Lwip_Mem\<close> (\<open>mem.c\<close>): the heap of the network stack as a list of blocks, interpreted as an
    allocator that reclaims.
  \<^item> \<open>Pbuf\<close> (\<open>pbuf.c\<close>, \<open>memp.c\<close>): packet buffers and their pools. \<open>Pbuf_Chain\<close>: chains of pbufs, allocation
    from the pool, reference counts, concatenation, shortening, headers. \<open>Pbuf_Data\<close>: copying into and
    out of packets and searching them, against the list of the bytes of the packet.
  \<^item> \<open>Eth_Driver\<close> (\<open>eth_driver_RMII.c\<close>) and \<open>Ethernetif\<close> (\<open>ethernetif.c\<close>): the descriptor rings, the interrupt
    handler, sending and receiving. \<open>Eth_Rings\<close>: a step relation in which the DMA engine is the
    environment, and its invariant. \<open>Eth_Frames\<close>: frames pass in order and unchanged; one reception;
    the packet that is dropped when the transmit ring is full.
  \<^item> \<open>Inet_Chksum\<close> (\<open>inet_chksum.c\<close>): the three checksum algorithms against a ones' complement sum, over
    packets and pseudo headers. \<open>Ip4_Addr\<close> (\<open>ip4_addr.c\<close>): parsing and printing of addresses, masks.
  \<^item> \<open>Lwip_Timeouts\<close> (\<open>timeouts.c\<close>): the timeouts of the stack against a clock that never wraps.

  \<^bold>\<open>Blocking and interrupts.\<close> A critical section is one step of the model. A call that blocks is split at
  the points where other tasks run: it ends with the state in which the scheduler picks another task,
  and its next pass is a function of the state in which the task runs again; theorems about waiting
  quantify over that state. Interrupt handlers are separate operations and theorems about them hold in
  every state that satisfies the invariant.

  \<^bold>\<open>Not modelled.\<close> Assembly (start-up, context save and restore) and register access of the peripheral
  library, which have no meaning in this model; formatting and tracing; parts that are configured out
  (co-routines, queue sets, static allocation, sockets, DNS, IGMP, AUTOIP, IP fragments). Still open:
  software timers, event groups and stream buffers of the kernel; the protocols of lwIP (ARP, IP,
  ICMP, UDP, TCP, DHCP) and its API layer.
\<close>

end
